(* ===== verification/DB_Prelude.thy ===== *)
theory DB_Prelude
  imports Main "HOL-Library.Word" "HOL-Library.AList" "HOL-Library.Monad_Syntax"
begin

unbundle bit_operations_syntax

section \<open>Bytes, fixed-width integers and checked memory access\<close>

text \<open>
  Shared ground of the development. A C++ object accessed through a \<^verbatim>\<open>char*\<close> is a list of
  bytes. \<open>mem_read\<close> and \<open>mem_write\<close> are the accesses of \<^verbatim>\<open>memcpy\<close> and of a dereferenced
  pointer: they return \<^term>\<open>None\<close> where the access would leave the object, which is undefined
  behaviour in C++, so that a theorem that an operation returns \<^term>\<open>Some\<close> is a theorem that the
  operation is memory safe. \<open>slice\<close> and \<open>splice\<close> are the unchecked counterparts.
  Integers stored in memory are little-endian, as on the platforms the Makefile targets.
\<close>

type_synonym byte = "8 word"
type_synonym u16 = "16 word"
type_synonym u32 = "32 word"

named_theorems mem_simps \<open>reading from and writing to byte lists\<close>

subsection \<open>Slices of a byte list\<close>

definition slice :: "nat \<Rightarrow> nat \<Rightarrow> 'a list \<Rightarrow> 'a list" where
  "slice off n d = take n (drop off d)"

definition splice_at :: "nat \<Rightarrow> 'a list \<Rightarrow> 'a list \<Rightarrow> 'a list" where
  "splice_at off bs d = take off d @ bs @ drop (off + length bs) d"

definition mem_read :: "nat \<Rightarrow> nat \<Rightarrow> 'a list \<Rightarrow> 'a list option" where
  "mem_read off n d = (if off + n \<le> length d then Some (slice off n d) else None)"

definition mem_write :: "nat \<Rightarrow> 'a list \<Rightarrow> 'a list \<Rightarrow> 'a list option" where
  "mem_write off bs d = (if off + length bs \<le> length d then Some (splice_at off bs d) else None)"

lemma length_slice [simp]: "off + n \<le> length d \<Longrightarrow> length (slice off n d) = n"
  by (simp add: slice_def)

lemma length_splice_at [simp]:
  "off + length bs \<le> length d \<Longrightarrow> length (splice_at off bs d) = length d"
  by (simp add: splice_at_def)

lemma nth_slice: "off + n \<le> length d \<Longrightarrow> i < n \<Longrightarrow> slice off n d ! i = d ! (off + i)"
  by (simp add: slice_def)

lemma nth_splice_at:
  assumes "off + length bs \<le> length d" and "i < length d"
  shows "splice_at off bs d ! i =
    (if off \<le> i \<and> i < off + length bs then bs ! (i - off) else d ! i)"
  using assms by (auto simp: splice_at_def nth_append min_def)

lemma slice_splice_at_same [mem_simps]:
  "off + length bs \<le> length d \<Longrightarrow> n = length bs \<Longrightarrow> slice off n (splice_at off bs d) = bs"
  by (simp add: slice_def splice_at_def)

lemma slice_splice_at_disjoint [mem_simps]:
  assumes "off + length bs \<le> length d" and "r + n \<le> length d"
    and "r + n \<le> off \<or> off + length bs \<le> r"
  shows "slice r n (splice_at off bs d) = slice r n d"
  using assms by (intro nth_equalityI) (auto simp: nth_slice nth_splice_at)

lemma splice_at_slice_id [mem_simps]:
  "off + n \<le> length d \<Longrightarrow> splice_at off (slice off n d) d = d"
  by (intro nth_equalityI) (auto simp: nth_splice_at nth_slice)

lemma slice_slice: "a + n \<le> m \<Longrightarrow> off + m \<le> length d \<Longrightarrow> slice a n (slice off m d) = slice (off + a) n d"
  by (intro nth_equalityI) (auto simp: nth_slice add.assoc)

lemma slice_full [simp]: "slice 0 (length d) d = d"
  by (simp add: slice_def)

lemma slice_empty [simp]: "slice off 0 d = []"
  by (simp add: slice_def)

lemma slice_splice_at_sub:
  assumes "off + length bs \<le> length d" and "off \<le> r" and "r + n \<le> off + length bs"
  shows "slice r n (splice_at off bs d) = slice (r - off) n bs"
  using assms by (intro nth_equalityI) (auto simp: nth_slice nth_splice_at)

lemma mem_read_Some [mem_simps]: "off + n \<le> length d \<Longrightarrow> mem_read off n d = Some (slice off n d)"
  by (simp add: mem_read_def)

lemma mem_write_Some [mem_simps]:
  "off + length bs \<le> length d \<Longrightarrow> mem_write off bs d = Some (splice_at off bs d)"
  by (simp add: mem_write_def)

lemma mem_read_None: "length d < off + n \<Longrightarrow> mem_read off n d = None"
  by (simp add: mem_read_def)

lemma mem_write_None: "length d < off + length bs \<Longrightarrow> mem_write off bs d = None"
  by (simp add: mem_write_def)

lemma mem_write_length: "mem_write off bs d = Some d' \<Longrightarrow> length d' = length d"
  by (auto simp: mem_write_def split: if_splits)

subsection \<open>16-bit arithmetic without wrap-around\<close>

lemma unat_u16_less: "unat (w :: u16) < 65536"
  using unsigned_less [of w] by simp

lemma less_unat_u16: "i < unat (w :: u16) \<Longrightarrow> i < 65536"
  using unat_u16_less [of w] by simp

lemma unat_u16_of_nat: "n < 65536 \<Longrightarrow> unat (word_of_nat n :: u16) = n"
  by (simp add: unat_of_nat)

lemma unat_u16_add: "unat a + unat b < 65536 \<Longrightarrow> unat (a + b :: u16) = unat a + unat b"
  by (simp add: unat_word_ariths)

lemma unat_u16_sub: "unat b \<le> unat a \<Longrightarrow> unat (a - b :: u16) = unat a - unat b"
  by (simp add: unat_sub word_le_nat_alt)

lemma unat_u16_of_int: "0 \<le> n \<Longrightarrow> n < 65536 \<Longrightarrow> unat (word_of_int n :: u16) = nat n"
  by (simp add: unsigned_of_int take_bit_int_eq_self)

lemma u16_eq_of_nat: "unat (w :: u16) = n \<Longrightarrow> w = word_of_nat n"
  by auto

subsection \<open>Maps\<close>

lemma map_le_Some: "f \<subseteq>\<^sub>m g \<Longrightarrow> f x = Some y \<Longrightarrow> g x = Some y"
  by (force simp: map_le_def dom_def)

subsection \<open>Vectors\<close>

text \<open>\<^verbatim>\<open>operator[]\<close> of a vector, undefined out of range.\<close>

definition vec_at :: "'a list \<Rightarrow> nat \<Rightarrow> 'a option" where
  "vec_at xs i = (if i < length xs then Some (xs ! i) else None)"

lemma vec_at_Some [simp]: "i < length xs \<Longrightarrow> vec_at xs i = Some (xs ! i)"
  by (simp add: vec_at_def)

lemma vec_at_None: "length xs \<le> i \<Longrightarrow> vec_at xs i = None"
  by (simp add: vec_at_def)

subsection \<open>Little-endian encodings\<close>

definition le16 :: "u16 \<Rightarrow> byte list" where
  "le16 w = [ucast w, ucast (drop_bit 8 w)]"

definition de16 :: "byte list \<Rightarrow> u16" where
  "de16 bs = ucast (bs ! 0) OR push_bit 8 (ucast (bs ! 1))"

definition le32 :: "u32 \<Rightarrow> byte list" where
  "le32 w = [ucast w, ucast (drop_bit 8 w), ucast (drop_bit 16 w), ucast (drop_bit 24 w)]"

definition de32 :: "byte list \<Rightarrow> u32" where
  "de32 bs = ucast (bs ! 0) OR push_bit 8 (ucast (bs ! 1))
     OR push_bit 16 (ucast (bs ! 2)) OR push_bit 24 (ucast (bs ! 3))"

lemma length_le16 [simp]: "length (le16 w) = 2"
  by (simp add: le16_def)

lemma length_le32 [simp]: "length (le32 w) = 4"
  by (simp add: le32_def)

lemma de16_le16 [simp]: "de16 (le16 w) = w"
  unfolding de16_def le16_def
  by (rule bit_word_eqI) (auto simp: bit_simps)

lemma de32_le32 [simp]: "de32 (le32 w) = w"
proof (rule bit_word_eqI)
  fix n
  show "bit (de32 (le32 w)) n = bit w n" if "n < LENGTH(32)"
    using that
    by (cases "n < 8"; cases "n < 16"; cases "n < 24") (auto simp: de32_def le32_def bit_simps)
qed

lemma le16_de16:
  assumes "length bs = 2"
  shows "le16 (de16 bs) = bs"
proof -
  from assms obtain a b where bs: "bs = [a, b]"
    by (auto simp: numeral_2_eq_2 length_Suc_conv)
  have "ucast (ucast a OR push_bit 8 (ucast b) :: u16) = a"
    by (rule bit_word_eqI) (auto simp: bit_simps)
  moreover have "ucast (drop_bit 8 (ucast a OR push_bit 8 (ucast b) :: u16)) = b"
    by (rule bit_word_eqI) (auto simp: bit_simps dest: bit_imp_le_length)
  ultimately show ?thesis by (simp add: bs le16_def de16_def)
qed

end
