(* ===== verification/Page_Types.thy ===== *)
theory Page_Types
  imports DB_Prelude
begin

section \<open>The storage data structures (include/ds)\<close>

text \<open>
  \<open>Page\<close>, \<open>PageHeader\<close>, \<open>Slot\<close> and \<open>RecordId\<close> of include/ds. The code reinterprets the
  4096 bytes of a page as a header followed by an array of slots; \<open>load_header\<close>,
  \<open>store_header\<close>, \<open>load_slot\<close> and the field stores are these accesses. The header lies
  inside every page, so its accesses are total; a slot address is computed from data, so slot
  accesses are checked.
\<close>

definition PAGE_SIZE :: nat where
  "PAGE_SIZE = 4096"

definition INVALID_PAGE_ID :: int where
  "INVALID_PAGE_ID = -1"

record Page =
  page_id :: int
  pin_count :: int
  is_dirty :: bool
  data :: "byte list"

definition empty_Page :: Page where
  "empty_Page = \<lparr>page_id = INVALID_PAGE_ID, pin_count = 0, is_dirty = False,
     data = replicate PAGE_SIZE 0\<rparr>"

record PageHeader =
  hdr_page_id :: u32
  free_space_offset :: u16
  slot_count :: u16

record Slot =
  slot_offset :: u16
  slot_length :: u16

record RecordId =
  rid_page_id :: int
  rid_slot_id :: u16

text \<open>\<^verbatim>\<open>sizeof(PageHeader)\<close> and \<^verbatim>\<open>sizeof(Slot)\<close>: no padding is needed in either struct.\<close>

abbreviation HEADER_BYTES :: nat where
  "HEADER_BYTES \<equiv> 8"

abbreviation SLOT_BYTES :: nat where
  "SLOT_BYTES \<equiv> 4"

definition load_header :: "byte list \<Rightarrow> PageHeader" where
  "load_header d = \<lparr>hdr_page_id = de32 (slice 0 4 d), free_space_offset = de16 (slice 4 2 d),
     slot_count = de16 (slice 6 2 d)\<rparr>"

definition header_bytes :: "PageHeader \<Rightarrow> byte list" where
  "header_bytes h = le32 (hdr_page_id h) @ le16 (free_space_offset h) @ le16 (slot_count h)"

definition store_header :: "PageHeader \<Rightarrow> byte list \<Rightarrow> byte list" where
  "store_header h d = splice_at 0 (header_bytes h) d"

definition slot_addr :: "nat \<Rightarrow> nat" where
  "slot_addr i = HEADER_BYTES + i * SLOT_BYTES"

definition load_slot :: "nat \<Rightarrow> byte list \<Rightarrow> Slot option" where
  "load_slot a d = do {
     bs \<leftarrow> mem_read a SLOT_BYTES d;
     Some \<lparr>slot_offset = de16 (slice 0 2 bs), slot_length = de16 (slice 2 2 bs)\<rparr> }"

definition store_slot :: "nat \<Rightarrow> Slot \<Rightarrow> byte list \<Rightarrow> byte list option" where
  "store_slot a s d = mem_write a (le16 (slot_offset s) @ le16 (slot_length s)) d"

definition store_slot_offset :: "nat \<Rightarrow> u16 \<Rightarrow> byte list \<Rightarrow> byte list option" where
  "store_slot_offset a v d = mem_write a (le16 v) d"

definition store_slot_length :: "nat \<Rightarrow> u16 \<Rightarrow> byte list \<Rightarrow> byte list option" where
  "store_slot_length a v d = mem_write (a + 2) (le16 v) d"

subsection \<open>Access laws\<close>

lemma PAGE_SIZE_pos [simp]: "0 < PAGE_SIZE"
  by (simp add: PAGE_SIZE_def)

lemma length_header_bytes [simp]: "length (header_bytes h) = 8"
  by (simp add: header_bytes_def)

lemma length_store_header [simp]:
  "length d = PAGE_SIZE \<Longrightarrow> length (store_header h d) = PAGE_SIZE"
  by (simp add: store_header_def PAGE_SIZE_def)

lemma load_store_header [simp]:
  "length d = PAGE_SIZE \<Longrightarrow> load_header (store_header h d) = h"
  by (cases h)
    (simp add: load_header_def store_header_def slice_splice_at_sub PAGE_SIZE_def,
      simp add: header_bytes_def slice_def)

lemma slice_store_header:
  "length d = PAGE_SIZE \<Longrightarrow> 8 \<le> off \<Longrightarrow> off + n \<le> PAGE_SIZE \<Longrightarrow>
    slice off n (store_header h d) = slice off n d"
  by (simp add: store_header_def slice_splice_at_disjoint PAGE_SIZE_def)

lemma load_header_splice:
  "8 \<le> off \<Longrightarrow> off + length bs \<le> length d \<Longrightarrow>
    load_header (splice_at off bs d) = load_header d"
  by (simp add: load_header_def slice_splice_at_disjoint)

lemma load_slot_slices:
  "load_slot a d = (if a + 4 \<le> length d
     then Some \<lparr>slot_offset = de16 (slice a 2 d), slot_length = de16 (slice (a + 2) 2 d)\<rparr>
     else None)"
  by (simp add: load_slot_def mem_read_def slice_slice add.commute)

lemma load_slot_store_header:
  "length d = PAGE_SIZE \<Longrightarrow> 8 \<le> a \<Longrightarrow> load_slot a (store_header h d) = load_slot a d"
  by (auto simp: load_slot_slices slice_store_header)

lemma load_slot_splice_disjoint:
  "off + length bs \<le> length d \<Longrightarrow> a + 4 \<le> off \<or> off + length bs \<le> a \<Longrightarrow>
    load_slot a (splice_at off bs d) = load_slot a d"
  by (auto simp: load_slot_slices slice_splice_at_disjoint)

lemma load_slot_splice_same:
  "a + 4 \<le> length d \<Longrightarrow>
    load_slot a (splice_at a (le16 off @ le16 len) d) = Some \<lparr>slot_offset = off, slot_length = len\<rparr>"
  by (simp add: load_slot_slices slice_splice_at_sub, simp add: slice_def)

lemma load_slot_splice_offset:
  "a + 4 \<le> length d \<Longrightarrow> load_slot a d = Some s \<Longrightarrow>
    load_slot a (splice_at a (le16 v) d) = Some (s\<lparr>slot_offset := v\<rparr>)"
  by (auto simp: load_slot_slices slice_splice_at_same slice_splice_at_disjoint)

lemma load_slot_splice_length:
  "a + 4 \<le> length d \<Longrightarrow> load_slot a d = Some s \<Longrightarrow>
    load_slot a (splice_at (a + 2) (le16 v) d) = Some (s\<lparr>slot_length := v\<rparr>)"
  by (auto simp: load_slot_slices slice_splice_at_same slice_splice_at_disjoint)

lemma slot_addr_ge [simp]: "8 \<le> slot_addr i"
  by (simp add: slot_addr_def)

lemma slot_addr_disjoint:
  "i \<noteq> j \<Longrightarrow> slot_addr i + 4 \<le> slot_addr j \<or> slot_addr j + 4 \<le> slot_addr i"
  by (auto simp: slot_addr_def)

end
