(* ===== verification/Disk_Manager.thy ===== *)
theory Disk_Manager
  imports Page_Types
begin

section \<open>The disk manager (src/manager/disk_manager.cpp)\<close>

text \<open>
  One file per manager; \<open>contents\<close> is the file's bytes, \<^term>\<open>None\<close> while it does not exist.
  The C++ streams are modelled as their documentation says: opening with \<^verbatim>\<open>in|out\<close> fails on
  a missing file, writing past the end fills the gap with zeros, a seek to a negative offset sets
  the fail bit so that the following read or write does nothing, and a read past the end delivers
  the bytes there are and leaves the rest of the buffer as it was. The offset
  \<^verbatim>\<open>PAGE_SIZE * page_id\<close> is a product of two \<^verbatim>\<open>int\<close>s, so it is undefined when it leaves
  the 32-bit range. Operating-system failures (a full disk, missing permissions) are not modelled.
\<close>

record DiskManager =
  filename :: string
  contents :: "byte list option"

definition int32_max :: int where
  "int32_max = 2 ^ 31 - 1"

definition page_offset :: "int \<Rightarrow> int option" where
  "page_offset pid = (let off = int PAGE_SIZE * pid in
     if - (2 ^ 31) \<le> off \<and> off \<le> int32_max then Some off else None)"

definition file_write :: "nat \<Rightarrow> byte list \<Rightarrow> byte list \<Rightarrow> byte list" where
  "file_write off bs f = splice_at off bs (f @ replicate (off + length bs - length f) 0)"

definition WritePage :: "int \<Rightarrow> byte list \<Rightarrow> DiskManager \<Rightarrow> DiskManager option" where
  "WritePage pid d dm = do {
     let f = (case contents dm of None \<Rightarrow> [] | Some f \<Rightarrow> f);
     off \<leftarrow> page_offset pid;
     bs \<leftarrow> mem_read 0 PAGE_SIZE d;
     Some (dm\<lparr>contents := Some (if off < 0 then f else file_write (nat off) bs f)\<rparr>) }"

definition ReadPage :: "int \<Rightarrow> byte list \<Rightarrow> DiskManager \<Rightarrow> byte list option" where
  "ReadPage pid d dm = (case contents dm of
     None \<Rightarrow> Some d
   | Some f \<Rightarrow> do {
       off \<leftarrow> page_offset pid;
       if off < 0 then Some d
       else mem_write 0 (take PAGE_SIZE (drop (nat off) f)) d })"

text \<open>What the file holds of a page: nothing unless all of its bytes are there.\<close>

definition disk_page :: "DiskManager \<Rightarrow> int \<Rightarrow> byte list option" where
  "disk_page dm pid = (case contents dm of
     None \<Rightarrow> None
   | Some f \<Rightarrow> if 0 \<le> pid \<and> (nat pid + 1) * PAGE_SIZE \<le> length f
       then Some (slice (nat pid * PAGE_SIZE) PAGE_SIZE f) else None)"

text \<open>The page numbers whose byte offset is a 32-bit \<^verbatim>\<open>int\<close>: 2 GiB of file.\<close>

definition MAX_PAGES :: int where
  "MAX_PAGES = 2 ^ 19"

definition page_addr :: "int \<Rightarrow> bool" where
  "page_addr pid \<longleftrightarrow> 0 \<le> pid \<and> pid < MAX_PAGES"

subsection \<open>The contract of a block store\<close>

text \<open>
  What the buffer pool relies on: a write within the address range succeeds, is read back, and
  leaves every other block that is there as it was.
\<close>

locale block_store =
  fixes wr :: "int \<Rightarrow> 'd \<Rightarrow> 's \<Rightarrow> 's option"
    and view :: "'s \<Rightarrow> int \<Rightarrow> 'd option"
    and block :: "'d \<Rightarrow> bool"
    and addr :: "int \<Rightarrow> bool"
  assumes wr_defined: "addr p \<Longrightarrow> block d \<Longrightarrow> \<exists>s'. wr p d s = Some s'"
    and wr_same: "addr p \<Longrightarrow> block d \<Longrightarrow> wr p d s = Some s' \<Longrightarrow> view s' p = Some d"
    and wr_other: "addr p \<Longrightarrow> block d \<Longrightarrow> wr p d s = Some s' \<Longrightarrow> q \<noteq> p \<Longrightarrow>
      view s q = Some e \<Longrightarrow> view s' q = Some e"
begin

lemma wr_extends:
  assumes "addr p" and "block d"
  shows "\<exists>s'. wr p d s = Some s' \<and> (view s)(p \<mapsto> d) \<subseteq>\<^sub>m view s'"
proof -
  from wr_defined [OF assms] obtain s' where s': "wr p d s = Some s'" ..
  have "(view s)(p \<mapsto> d) \<subseteq>\<^sub>m view s'"
    using wr_same [OF assms s'] wr_other [OF assms s'] by (auto simp: map_le_def dom_def)
  with s' show ?thesis by blast
qed

lemma wr_keeps_known:
  assumes "addr p" and "block d" and "view s q = Some e" and "q = p \<Longrightarrow> e = d"
  shows "\<exists>s'. wr p d s = Some s' \<and> view s' q = Some e"
proof -
  from wr_extends [OF assms(1,2)] obtain s'
    where s': "wr p d s = Some s'" and le: "(view s)(p \<mapsto> d) \<subseteq>\<^sub>m view s'" by blast
  have "((view s)(p \<mapsto> d)) q = Some e" using assms(3,4) by auto
  with le have "view s' q = Some e" by (rule map_le_Some)
  with s' show ?thesis by blast
qed

end

subsection \<open>The disk manager is a block store\<close>

lemma page_offset_addr: "page_addr pid \<Longrightarrow> page_offset pid = Some (int PAGE_SIZE * pid)"
  by (auto simp: page_offset_def page_addr_def MAX_PAGES_def int32_max_def PAGE_SIZE_def)

lemma page_offset_overflow: "MAX_PAGES \<le> pid \<Longrightarrow> page_offset pid = None"
  by (auto simp: page_offset_def MAX_PAGES_def int32_max_def PAGE_SIZE_def)

lemma nat_page_offset: "0 \<le> pid \<Longrightarrow> nat (int PAGE_SIZE * pid) = nat pid * PAGE_SIZE"
  by (simp add: nat_mult_distrib mult.commute)

lemma length_file_write [simp]: "length (file_write off bs f) = max (length f) (off + length bs)"
  by (simp add: file_write_def)

lemma slice_file_write_same: "n = length bs \<Longrightarrow> slice off n (file_write off bs f) = bs"
  by (simp add: file_write_def slice_splice_at_same)

lemma slice_append1: "r + n \<le> length f \<Longrightarrow> slice r n (f @ g) = slice r n f"
  by (simp add: slice_def)

lemma slice_file_write_other:
  "r + n \<le> length f \<Longrightarrow> r + n \<le> off \<or> off + length bs \<le> r \<Longrightarrow>
    slice r n (file_write off bs f) = slice r n f"
  by (simp add: file_write_def slice_splice_at_disjoint slice_append1)

lemma WritePage_addr:
  assumes "page_addr pid" and "length d = PAGE_SIZE"
  shows "WritePage pid d dm = Some (dm\<lparr>contents :=
    Some (file_write (nat pid * PAGE_SIZE) d (case contents dm of None \<Rightarrow> [] | Some f \<Rightarrow> f))\<rparr>)"
proof -
  from assms(1) have "0 \<le> pid" by (simp add: page_addr_def)
  moreover have "slice 0 PAGE_SIZE d = d" using assms(2) slice_full [of d] by simp
  ultimately show ?thesis
    using assms by (simp add: WritePage_def page_offset_addr mem_read_def nat_page_offset
        mult_less_0_iff not_less)
qed

lemma pages_disjoint:
  "(p::nat) \<noteq> q \<Longrightarrow> p * PAGE_SIZE + PAGE_SIZE \<le> q * PAGE_SIZE \<or> q * PAGE_SIZE + PAGE_SIZE \<le> p * PAGE_SIZE"
  by (auto simp: PAGE_SIZE_def)

interpretation disk: block_store WritePage disk_page "\<lambda>d. length d = PAGE_SIZE" page_addr
proof
  fix p d s
  assume "page_addr p" and "length (d :: byte list) = PAGE_SIZE"
  then show "\<exists>s'. WritePage p d s = Some s'"
    by (simp add: WritePage_addr)
next
  fix p d s s'
  assume "page_addr p" and "length (d :: byte list) = PAGE_SIZE" and "WritePage p d s = Some s'"
  then show "disk_page s' p = Some d"
    by (auto simp: WritePage_addr disk_page_def page_addr_def slice_file_write_same algebra_simps)
next
  fix p d s s' q e
  assume p: "page_addr p" "length (d :: byte list) = PAGE_SIZE" "WritePage p d s = Some s'"
    and "q \<noteq> p" and q: "disk_page s q = Some e"
  then have "nat q \<noteq> nat p" by (auto simp: page_addr_def disk_page_def split: option.splits if_splits)
  then show "disk_page s' q = Some e"
    using p q pages_disjoint [of "nat q" "nat p"]
    by (auto simp: WritePage_addr disk_page_def slice_file_write_other algebra_simps
        split: option.splits if_splits)
qed

lemma length_disk_page: "disk_page dm pid = Some d \<Longrightarrow> length d = PAGE_SIZE"
  by (auto simp: disk_page_def algebra_simps split: option.splits if_splits)

lemma splice_at_0_all: "length bs = length d \<Longrightarrow> splice_at 0 bs d = bs"
  by (simp add: splice_at_def)

lemma ReadPage_known:
  assumes "disk_page dm pid = Some d" and "page_addr pid" and "length buf = PAGE_SIZE"
  shows "ReadPage pid buf dm = Some d"
proof -
  from assms obtain f where "contents dm = Some f" "(nat pid + 1) * PAGE_SIZE \<le> length f"
    and d: "slice (nat pid * PAGE_SIZE) PAGE_SIZE f = d"
    by (auto simp: disk_page_def split: option.splits if_splits)
  moreover have "length d = PAGE_SIZE" using assms(1) by (rule length_disk_page)
  moreover have "0 \<le> pid" using assms(2) by (simp add: page_addr_def)
  ultimately show ?thesis
    using assms by (simp add: ReadPage_def page_offset_addr mem_write_def nat_page_offset
        mult_less_0_iff not_less slice_def [symmetric] splice_at_0_all)
qed

lemma ReadPage_defined:
  assumes "page_addr pid" and "length buf = PAGE_SIZE"
  shows "\<exists>buf'. ReadPage pid buf dm = Some buf' \<and> length buf' = PAGE_SIZE"
  using assms by (auto simp: ReadPage_def page_offset_addr mem_write_def split: option.splits)

end
