(* ===== verification/Buffer_Pool.thy ===== *)
theory Buffer_Pool
  imports Disk_Manager
begin

section \<open>The buffer pool manager (src/manager/buffer_pool_manager.cpp)\<close>

text \<open>
  The pool caches pages of one disk manager in a fixed array of frames. A \<^verbatim>\<open>Page*\<close> is the
  index of its frame. \<open>page_table_\<close> is an association list in the hash map's iteration order;
  \<open>lru_pos_\<close> is the set of its keys (the iterator stored under a frame designates the only node
  of \<open>lru_list_\<close> that holds it, so erasing through it is \<^const>\<open>remove1\<close>). Operations return
  \<^term>\<open>None\<close> for undefined behaviour; a \<^verbatim>\<open>nullptr\<close> is an inner \<^term>\<open>None\<close>.
\<close>

record BufferPool =
  pool_size :: nat
  disk_manager :: DiskManager
  pages :: "Page list"
  page_table :: "(int \<times> nat) list"
  free_list :: "nat list"
  lru_list :: "nat list"
  lru_pos :: "nat set"
  next_page_id :: int

definition new_BufferPool :: "nat \<Rightarrow> DiskManager \<Rightarrow> BufferPool" where
  "new_BufferPool n dm = \<lparr>pool_size = n, disk_manager = dm, pages = replicate n empty_Page,
     page_table = [], free_list = [0..<n], lru_list = [], lru_pos = {}, next_page_id = 0\<rparr>"

definition SetNextPageId :: "int \<Rightarrow> BufferPool \<Rightarrow> BufferPool" where
  "SetNextPageId pid bp = bp\<lparr>next_page_id := pid\<rparr>"

definition frame_of :: "BufferPool \<Rightarrow> int \<Rightarrow> nat option" where
  "frame_of bp = map_of (page_table bp)"

definition upd_page :: "nat \<Rightarrow> (Page \<Rightarrow> Page) \<Rightarrow> BufferPool \<Rightarrow> BufferPool" where
  "upd_page f g bp = bp\<lparr>pages := (pages bp)[f := g (pages bp ! f)]\<rparr>"

definition GetFreeFrameOrVictim :: "BufferPool \<Rightarrow> (nat \<times> BufferPool) option" where
  "GetFreeFrameOrVictim bp = (case free_list bp of
     [] \<Rightarrow> (case lru_list bp of
         [] \<Rightarrow> None
       | f # fs \<Rightarrow> Some (f, bp\<lparr>lru_list := fs, lru_pos := lru_pos bp - {f}\<rparr>))
   | f # fs \<Rightarrow> Some (f, bp\<lparr>free_list := fs\<rparr>))"

definition PinFrame :: "nat \<Rightarrow> BufferPool \<Rightarrow> BufferPool" where
  "PinFrame f bp = (if f \<in> lru_pos bp
     then bp\<lparr>lru_list := remove1 f (lru_list bp), lru_pos := lru_pos bp - {f}\<rparr> else bp)"

definition UnpinFrame :: "nat \<Rightarrow> BufferPool \<Rightarrow> BufferPool" where
  "UnpinFrame f bp = (if f \<notin> lru_pos bp
     then bp\<lparr>lru_list := lru_list bp @ [f], lru_pos := insert f (lru_pos bp)\<rparr> else bp)"

text \<open>The write-back of a victim and the removal of its page table entry, shared by
  \<open>FetchPage\<close> and \<open>NewPage\<close>.\<close>

definition evict :: "nat \<Rightarrow> BufferPool \<Rightarrow> BufferPool option" where
  "evict f bp = (let p = pages bp ! f in do {
     dm \<leftarrow> (if page_id p \<noteq> INVALID_PAGE_ID \<and> is_dirty p
            then WritePage (page_id p) (data p) (disk_manager bp)
            else Some (disk_manager bp));
     Some (bp\<lparr>disk_manager := dm,
       page_table := (if page_id p \<noteq> INVALID_PAGE_ID
         then AList.delete (page_id p) (page_table bp) else page_table bp)\<rparr>) })"

definition FetchPage :: "int \<Rightarrow> BufferPool \<Rightarrow> (nat option \<times> BufferPool) option" where
  "FetchPage pid bp = (case frame_of bp pid of
     Some f \<Rightarrow>
       Some (Some f, PinFrame f (upd_page f (\<lambda>p. p\<lparr>pin_count := pin_count p + 1\<rparr>) bp))
   | None \<Rightarrow> (case GetFreeFrameOrVictim bp of
         None \<Rightarrow> Some (None, bp)
       | Some (f, bp1) \<Rightarrow> do {
           bp2 \<leftarrow> evict f bp1;
           let bp3 = bp2\<lparr>page_table := AList.update pid f (page_table bp2)\<rparr>;
           let bp4 = upd_page f
             (\<lambda>p. p\<lparr>page_id := pid, pin_count := 1, is_dirty := False\<rparr>) bp3;
           let bp5 = PinFrame f bp4;
           d \<leftarrow> ReadPage pid (data (pages bp5 ! f)) (disk_manager bp5);
           Some (Some f, upd_page f (\<lambda>p. p\<lparr>data := d\<rparr>) bp5) }))"

definition NewPage :: "BufferPool \<Rightarrow> ((int \<times> nat) option \<times> BufferPool) option" where
  "NewPage bp = (case GetFreeFrameOrVictim bp of
     None \<Rightarrow> Some (None, bp)
   | Some (f, bp1) \<Rightarrow> do {
       bp2 \<leftarrow> evict f bp1;
       let pid = next_page_id bp2;
       _ \<leftarrow> (if pid < int32_max then Some () else None);
       let bp3 = bp2\<lparr>next_page_id := pid + 1, page_table := AList.update pid f (page_table bp2)\<rparr>;
       let bp4 = upd_page f (\<lambda>p. p\<lparr>page_id := pid, pin_count := 1, is_dirty := False,
         data := replicate PAGE_SIZE 0\<rparr>) bp3;
       Some (Some (pid, f), PinFrame f bp4) })"

definition UnpinPage :: "int \<Rightarrow> bool \<Rightarrow> BufferPool \<Rightarrow> bool \<times> BufferPool" where
  "UnpinPage pid dirty bp = (case frame_of bp pid of
     None \<Rightarrow> (False, bp)
   | Some f \<Rightarrow> if pin_count (pages bp ! f) \<le> 0 then (False, bp)
       else (True, UnpinFrame f (upd_page f
         (\<lambda>p. p\<lparr>is_dirty := is_dirty p \<or> dirty, pin_count := pin_count p - 1\<rparr>) bp)))"

definition FlushPage :: "int \<Rightarrow> BufferPool \<Rightarrow> (bool \<times> BufferPool) option" where
  "FlushPage pid bp = (case frame_of bp pid of
     None \<Rightarrow> Some (False, bp)
   | Some f \<Rightarrow> if is_dirty (pages bp ! f)
       then do {
         dm \<leftarrow> WritePage pid (data (pages bp ! f)) (disk_manager bp);
         Some (True, upd_page f (\<lambda>p. p\<lparr>is_dirty := False\<rparr>) (bp\<lparr>disk_manager := dm\<rparr>)) }
       else Some (True, bp))"

fun flush_pages :: "int list \<Rightarrow> BufferPool \<Rightarrow> BufferPool option" where
  "flush_pages [] bp = Some bp"
| "flush_pages (pid # pids) bp = do { (_, bp') \<leftarrow> FlushPage pid bp; flush_pages pids bp' }"

definition FlushAllPages :: "BufferPool \<Rightarrow> BufferPool option" where
  "FlushAllPages bp = flush_pages (map fst (page_table bp)) bp"

definition DeletePage :: "int \<Rightarrow> BufferPool \<Rightarrow> (bool \<times> BufferPool) option" where
  "DeletePage pid bp = (case frame_of bp pid of
     None \<Rightarrow> Some (False, bp)
   | Some f \<Rightarrow> if 0 < pin_count (pages bp ! f) then Some (False, bp)
       else do {
         dm \<leftarrow> (if is_dirty (pages bp ! f)
                then WritePage pid (data (pages bp ! f)) (disk_manager bp)
                else Some (disk_manager bp));
         let bp1 = upd_page f (\<lambda>p. p\<lparr>page_id := INVALID_PAGE_ID, pin_count := 0, is_dirty := False\<rparr>)
           (bp\<lparr>disk_manager := dm, page_table := AList.delete pid (page_table bp)\<rparr>);
         Some (True, bp1\<lparr>free_list := free_list bp1 @ [f]\<rparr>) })"

subsection \<open>The invariant of the pool\<close>

text \<open>
  Frames: one page per frame, every page has its 4096 bytes. Page table: it maps exactly the page
  ids of the occupied frames to their frames. Lists: the free list holds exactly the frames without
  a page; \<open>lru_list_\<close> and \<open>lru_pos_\<close> agree; a page nobody pins is evictable, so no frame
  is ever lost.
\<close>

definition frames_ok :: "BufferPool \<Rightarrow> bool" where
  "frames_ok bp \<longleftrightarrow> length (pages bp) = pool_size bp \<and>
     (\<forall>p \<in> set (pages bp). length (data p) = PAGE_SIZE \<and> 0 \<le> pin_count p)"

definition table_ok :: "BufferPool \<Rightarrow> bool" where
  "table_ok bp \<longleftrightarrow> distinct (map fst (page_table bp)) \<and>
     (\<forall>pid f. frame_of bp pid = Some f \<longleftrightarrow>
        f < pool_size bp \<and> page_id (pages bp ! f) = pid \<and> pid \<noteq> INVALID_PAGE_ID)"

definition lists_ok :: "BufferPool \<Rightarrow> bool" where
  "lists_ok bp \<longleftrightarrow> distinct (free_list bp) \<and>
     set (free_list bp) = {f. f < pool_size bp \<and> page_id (pages bp ! f) = INVALID_PAGE_ID} \<and>
     distinct (lru_list bp) \<and> set (lru_list bp) \<subseteq> {..< pool_size bp} \<and>
     lru_pos bp = set (lru_list bp) \<and>
     (\<forall>f < pool_size bp. page_id (pages bp ! f) \<noteq> INVALID_PAGE_ID \<and> pin_count (pages bp ! f) = 0
        \<longrightarrow> f \<in> set (lru_list bp))"

definition bp_inv :: "BufferPool \<Rightarrow> bool" where
  "bp_inv bp \<longleftrightarrow> frames_ok bp \<and> table_ok bp \<and> lists_ok bp"

lemmas bp_inv_defs = bp_inv_def frames_ok_def table_ok_def lists_ok_def

text \<open>What a client sees under a page id: the cached page, else what the disk holds.\<close>

definition page_view :: "BufferPool \<Rightarrow> int \<Rightarrow> byte list option" where
  "page_view bp pid = (case frame_of bp pid of
     Some f \<Rightarrow> Some (data (pages bp ! f))
   | None \<Rightarrow> disk_page (disk_manager bp) pid)"

text \<open>The pages in \<open>K\<close> that may be evicted and are not marked dirty are the same on disk.\<close>

definition coherent :: "int set \<Rightarrow> BufferPool \<Rightarrow> bool" where
  "coherent K bp \<longleftrightarrow> (\<forall>f \<in> set (lru_list bp).
     page_id (pages bp ! f) \<in> K \<and> \<not> is_dirty (pages bp ! f) \<longrightarrow>
     disk_page (disk_manager bp) (page_id (pages bp ! f)) = Some (data (pages bp ! f)))"

definition resident_addr :: "BufferPool \<Rightarrow> bool" where
  "resident_addr bp \<longleftrightarrow> (\<forall>pid \<in> dom (frame_of bp). page_addr pid)"

lemma page_addr_valid: "page_addr pid \<Longrightarrow> pid \<noteq> INVALID_PAGE_ID"
  by (auto simp: page_addr_def INVALID_PAGE_ID_def)

lemma frame_of_SomeD:
  "bp_inv bp \<Longrightarrow> frame_of bp pid = Some f \<Longrightarrow>
    f < pool_size bp \<and> f < length (pages bp) \<and> page_id (pages bp ! f) = pid \<and> pid \<noteq> INVALID_PAGE_ID"
  by (auto simp: bp_inv_defs)

lemma frame_of_page_id:
  "bp_inv bp \<Longrightarrow> f < pool_size bp \<Longrightarrow> page_id (pages bp ! f) \<noteq> INVALID_PAGE_ID \<Longrightarrow>
    frame_of bp (page_id (pages bp ! f)) = Some f"
  by (auto simp: bp_inv_defs)

lemma table_ok_iff:
  "bp_inv bp \<Longrightarrow> frame_of bp pid = Some f \<longleftrightarrow>
    f < pool_size bp \<and> page_id (pages bp ! f) = pid \<and> pid \<noteq> INVALID_PAGE_ID"
  unfolding bp_inv_def table_ok_def by blast

lemma frame_inj:
  "bp_inv bp \<Longrightarrow> f < pool_size bp \<Longrightarrow> k < pool_size bp \<Longrightarrow>
    page_id (pages bp ! f) = page_id (pages bp ! k) \<Longrightarrow> page_id (pages bp ! f) \<noteq> INVALID_PAGE_ID \<Longrightarrow>
    f = k"
  by (metis frame_of_page_id option.inject)

lemma length_frame_data:
  "bp_inv bp \<Longrightarrow> f < pool_size bp \<Longrightarrow> length (data (pages bp ! f)) = PAGE_SIZE"
  by (auto simp: bp_inv_defs)

lemma bp_inv_new: "bp_inv (new_BufferPool n dm)"
  by (auto simp: bp_inv_defs new_BufferPool_def frame_of_def empty_Page_def)

text \<open>\<open>upd_page\<close> with an update that keeps the page id.\<close>

lemma upd_page_simps [simp]:
  "pool_size (upd_page f g bp) = pool_size bp"
  "disk_manager (upd_page f g bp) = disk_manager bp"
  "page_table (upd_page f g bp) = page_table bp"
  "frame_of (upd_page f g bp) = frame_of bp"
  "free_list (upd_page f g bp) = free_list bp"
  "lru_list (upd_page f g bp) = lru_list bp"
  "lru_pos (upd_page f g bp) = lru_pos bp"
  "next_page_id (upd_page f g bp) = next_page_id bp"
  "pages (upd_page f g bp) = (pages bp)[f := g (pages bp ! f)]"
  by (simp_all add: upd_page_def frame_of_def)

lemma PinFrame_simps [simp]:
  "pool_size (PinFrame f bp) = pool_size bp"
  "disk_manager (PinFrame f bp) = disk_manager bp"
  "page_table (PinFrame f bp) = page_table bp"
  "frame_of (PinFrame f bp) = frame_of bp"
  "free_list (PinFrame f bp) = free_list bp"
  "next_page_id (PinFrame f bp) = next_page_id bp"
  "pages (PinFrame f bp) = pages bp"
  by (simp_all add: PinFrame_def frame_of_def)

lemma UnpinFrame_simps [simp]:
  "pool_size (UnpinFrame f bp) = pool_size bp"
  "disk_manager (UnpinFrame f bp) = disk_manager bp"
  "page_table (UnpinFrame f bp) = page_table bp"
  "frame_of (UnpinFrame f bp) = frame_of bp"
  "free_list (UnpinFrame f bp) = free_list bp"
  "next_page_id (UnpinFrame f bp) = next_page_id bp"
  "pages (UnpinFrame f bp) = pages bp"
  by (simp_all add: UnpinFrame_def frame_of_def)

lemma set_lru_PinFrame:
  "bp_inv bp \<Longrightarrow> set (lru_list (PinFrame f bp)) = set (lru_list bp) - {f}"
  by (auto simp: PinFrame_def bp_inv_defs)

lemma set_lru_UnpinFrame:
  "bp_inv bp \<Longrightarrow> set (lru_list (UnpinFrame f bp)) = insert f (set (lru_list bp))"
  by (auto simp: UnpinFrame_def bp_inv_defs)

text \<open>Pinning and unpinning a frame of the table keep the invariant.\<close>

lemma bp_inv_pin:
  assumes inv: "bp_inv bp" and f: "frame_of bp pid = Some f"
    and g: "page_id (g (pages bp ! f)) = pid" "0 < pin_count (g (pages bp ! f))"
      "length (data (g (pages bp ! f))) = PAGE_SIZE"
  shows "bp_inv (PinFrame f (upd_page f g bp))"
proof -
  let ?b = "PinFrame f (upd_page f g bp)"
  note fx = frame_of_SomeD [OF inv f]
  have "frames_ok ?b"
    using inv g fx by (auto simp: bp_inv_defs dest!: set_update_subset_insert [THEN subsetD])
  moreover have "table_ok ?b"
    using inv g fx by (auto simp: bp_inv_defs nth_list_update)
  moreover have "lists_ok ?b"
    using inv g fx by (auto simp: bp_inv_defs nth_list_update PinFrame_def)
  ultimately show ?thesis by (simp add: bp_inv_def)
qed

lemma bp_inv_unpin:
  assumes inv: "bp_inv bp" and f: "frame_of bp pid = Some f"
    and g: "page_id (g (pages bp ! f)) = pid" "0 \<le> pin_count (g (pages bp ! f))"
      "length (data (g (pages bp ! f))) = PAGE_SIZE"
  shows "bp_inv (UnpinFrame f (upd_page f g bp))"
proof -
  let ?b = "UnpinFrame f (upd_page f g bp)"
  note fx = frame_of_SomeD [OF inv f]
  have "frames_ok ?b"
    using inv g fx by (auto simp: bp_inv_defs dest!: set_update_subset_insert [THEN subsetD])
  moreover have "table_ok ?b"
    using inv g fx by (auto simp: bp_inv_defs nth_list_update)
  moreover have "lists_ok ?b"
    using inv g fx by (auto simp: bp_inv_defs nth_list_update UnpinFrame_def)
  ultimately show ?thesis by (simp add: bp_inv_def)
qed

lemma bp_inv_UnpinPage: "bp_inv bp \<Longrightarrow> bp_inv (snd (UnpinPage pid dirty bp))"
  by (auto simp: UnpinPage_def length_frame_data frame_of_SomeD intro!: bp_inv_unpin
      split: option.splits dest: frame_of_SomeD)

subsection \<open>Taking a frame: free list, victim, write-back\<close>

lemma GetFreeFrameOrVictim_None:
  "GetFreeFrameOrVictim bp = None \<longleftrightarrow> free_list bp = [] \<and> lru_list bp = []"
  by (auto simp: GetFreeFrameOrVictim_def split: list.splits)

lemma GetFreeFrameOrVictim_Some:
  assumes "bp_inv bp" and "GetFreeFrameOrVictim bp = Some (f, bp1)"
  shows "f < pool_size bp" and "pages bp1 = pages bp" and "page_table bp1 = page_table bp"
    and "disk_manager bp1 = disk_manager bp" and "next_page_id bp1 = next_page_id bp"
    and "pool_size bp1 = pool_size bp" and "frame_of bp1 = frame_of bp"
    and "free_list bp = f # free_list bp1 \<and> lru_list bp1 = lru_list bp \<and> lru_pos bp1 = lru_pos bp \<or>
      free_list bp = [] \<and> free_list bp1 = [] \<and> lru_list bp = f # lru_list bp1 \<and>
      lru_pos bp1 = lru_pos bp - {f}"
proof -
  have *: "set (free_list bp) \<subseteq> {..<pool_size bp}" "set (lru_list bp) \<subseteq> {..<pool_size bp}"
    using assms(1) by (auto simp: bp_inv_defs)
  show "f < pool_size bp"
    using assms(2) * by (auto simp: GetFreeFrameOrVictim_def split: list.splits)
qed (use assms(2) in \<open>auto simp: GetFreeFrameOrVictim_def frame_of_def split: list.splits\<close>)

text \<open>The table after the victim's entry is dropped and the new page's entry is written.\<close>

abbreviation table_without :: "nat \<Rightarrow> BufferPool \<Rightarrow> (int \<times> nat) list" where
  "table_without f bp \<equiv> (if page_id (pages bp ! f) \<noteq> INVALID_PAGE_ID
     then AList.delete (page_id (pages bp ! f)) (page_table bp) else page_table bp)"

lemma frame_of_INVALID: "bp_inv bp \<Longrightarrow> frame_of bp INVALID_PAGE_ID = None"
  by (rule ccontr) (auto dest: frame_of_SomeD)

lemma map_of_table_without:
  "bp_inv bp \<Longrightarrow> map_of (table_without f bp) = (frame_of bp)(page_id (pages bp ! f) := None)"
  using frame_of_INVALID [of bp] by (auto simp: frame_of_def delete_conv' fun_upd_idem)

lemma bp_inv_install:
  assumes inv: "bp_inv bp" and get: "GetFreeFrameOrVictim bp = Some (f, bp1)"
    and pid: "frame_of bp pid = None" "pid \<noteq> INVALID_PAGE_ID" and d: "length d = PAGE_SIZE"
    and b: "pool_size b = pool_size bp"
      "pages b = (pages bp)[f := \<lparr>page_id = pid, pin_count = 1, is_dirty = False, data = d\<rparr>]"
      "page_table b = AList.update pid f (table_without f bp)"
      "free_list b = free_list bp1" "lru_list b = remove1 f (lru_list bp1)"
      "lru_pos b = lru_pos bp1 - {f}"
  shows "bp_inv b" and "frame_of b = (frame_of bp)(page_id (pages bp ! f) := None, pid \<mapsto> f)"
    and "set (lru_list b) = set (lru_list bp) - {f}"
proof -
  note g = GetFreeFrameOrVictim_Some [OF inv get]
  have len: "f < length (pages bp)" using g(1) inv by (simp add: bp_inv_defs)
  show fr: "frame_of b = (frame_of bp)(page_id (pages bp ! f) := None, pid \<mapsto> f)"
    unfolding frame_of_def [of b] b(3) update_conv' map_of_table_without [OF inv] ..
  have lru: "distinct (lru_list bp)" "lru_pos bp = set (lru_list bp)"
    and free: "distinct (free_list bp)"
    using inv by (auto simp: bp_inv_defs)
  show l: "set (lru_list b) = set (lru_list bp) - {f}"
    using g(8) lru(1) unfolding b(5) by (elim disjE conjE) auto
  have "frames_ok b"
    using inv b d by (auto simp: bp_inv_defs dest!: set_update_subset_insert [THEN subsetD])
  moreover have "table_ok b"
  proof -
    have no: "page_id (pages bp ! k) \<noteq> pid" if "k < pool_size bp" for k
      using pid that frame_of_page_id [OF inv that] by auto
    have "distinct (map fst (page_table b))"
      using inv unfolding b(3) by (simp add: bp_inv_defs distinct_update distinct_delete)
    moreover have "frame_of b q = Some k \<longleftrightarrow>
        k < pool_size b \<and> page_id (pages b ! k) = q \<and> q \<noteq> INVALID_PAGE_ID" for q k
      using pid g(1) len no [of k] frame_inj [OF inv g(1), of k]
      by (cases "k = f"; cases "page_id (pages bp ! f) = INVALID_PAGE_ID")
        (auto simp: fr b nth_list_update table_ok_iff [OF inv])
    ultimately show ?thesis by (simp add: table_ok_def)
  qed
  moreover have "lists_ok b"
    using inv pid g(1,8) len lru free by (auto simp: b nth_list_update bp_inv_defs)
  ultimately show "bp_inv b" by (simp add: bp_inv_def)
qed

text \<open>The write-back keeps on disk everything that was there, and puts the victim's page there.\<close>

lemma evict_extends:
  assumes inv: "bp_inv bp" and addr: "resident_addr bp"
    and get: "GetFreeFrameOrVictim bp = Some (f, bp1)"
  obtains dm where "evict f bp1 = Some (bp1\<lparr>disk_manager := dm, page_table := table_without f bp\<rparr>)"
    and "\<And>q e. disk_page (disk_manager bp) q = Some e \<Longrightarrow>
      (q = page_id (pages bp ! f) \<Longrightarrow> is_dirty (pages bp ! f) \<Longrightarrow> e = data (pages bp ! f)) \<Longrightarrow>
      disk_page dm q = Some e"
    and "page_id (pages bp ! f) \<noteq> INVALID_PAGE_ID \<Longrightarrow> is_dirty (pages bp ! f) \<Longrightarrow>
      disk_page dm (page_id (pages bp ! f)) = Some (data (pages bp ! f))"
proof -
  note g = GetFreeFrameOrVictim_Some [OF inv get]
  let ?p = "pages bp ! f"
  show ?thesis
  proof (cases "page_id ?p \<noteq> INVALID_PAGE_ID \<and> is_dirty ?p")
    case True
    have a: "page_addr (page_id ?p)"
      using addr frame_of_page_id [OF inv g(1)] True by (auto simp: resident_addr_def)
    have len: "length (data ?p) = PAGE_SIZE" using inv g(1) by (rule length_frame_data)
    from disk.wr_extends [OF a len] obtain dm
      where dm: "WritePage (page_id ?p) (data ?p) (disk_manager bp) = Some dm"
        and le: "(disk_page (disk_manager bp))(page_id ?p \<mapsto> data ?p) \<subseteq>\<^sub>m disk_page dm" by blast
    show ?thesis
    proof (rule that [of dm])
      show "evict f bp1 = Some (bp1\<lparr>disk_manager := dm, page_table := table_without f bp\<rparr>)"
        using True dm g by (simp add: evict_def)
      fix q e
      assume "disk_page (disk_manager bp) q = Some e" and "q = page_id ?p \<Longrightarrow> is_dirty ?p \<Longrightarrow> e = data ?p"
      then have "((disk_page (disk_manager bp))(page_id ?p \<mapsto> data ?p)) q = Some e"
        using True by auto
      with le show "disk_page dm q = Some e" by (rule map_le_Some)
    next
      show "disk_page dm (page_id ?p) = Some (data ?p)"
        using le by (rule map_le_Some) simp
    qed
  next
    case False
    show ?thesis
    proof (rule that [of "disk_manager bp"])
      show "evict f bp1 = Some (bp1\<lparr>disk_manager := disk_manager bp, page_table := table_without f bp\<rparr>)"
        using False by (auto simp: evict_def Let_def g(2-4))
    qed (use False in auto)
  qed
qed

subsection \<open>Loading a page into a frame\<close>

text \<open>What \<open>FetchPage\<close> on a miss and \<open>NewPage\<close> have in common.\<close>

definition loaded :: "nat \<Rightarrow> int \<Rightarrow> byte list \<Rightarrow> BufferPool \<Rightarrow> BufferPool \<Rightarrow> bool" where
  "loaded f pid d bp bp' \<longleftrightarrow> f < pool_size bp \<and> length d = PAGE_SIZE \<and> bp_inv bp' \<and>
     pool_size bp' = pool_size bp \<and>
     pages bp' = (pages bp)[f := \<lparr>page_id = pid, pin_count = 1, is_dirty = False, data = d\<rparr>] \<and>
     frame_of bp' = (frame_of bp)(page_id (pages bp ! f) := None, pid \<mapsto> f) \<and>
     f \<in> set (free_list bp) \<union> set (lru_list bp) \<and>
     set (lru_list bp') = set (lru_list bp) - {f} \<and>
     (\<forall>q e. disk_page (disk_manager bp) q = Some e \<longrightarrow>
        (q = page_id (pages bp ! f) \<longrightarrow> is_dirty (pages bp ! f) \<longrightarrow> e = data (pages bp ! f)) \<longrightarrow>
        disk_page (disk_manager bp') q = Some e) \<and>
     (page_id (pages bp ! f) \<noteq> INVALID_PAGE_ID \<longrightarrow> is_dirty (pages bp ! f) \<longrightarrow>
        disk_page (disk_manager bp') (page_id (pages bp ! f)) = Some (data (pages bp ! f)))"

lemma loadedI:
  assumes inv: "bp_inv bp" and get: "GetFreeFrameOrVictim bp = Some (f, bp1)"
    and pid: "frame_of bp pid = None" "pid \<noteq> INVALID_PAGE_ID" and d: "length d = PAGE_SIZE"
    and b: "pool_size b = pool_size bp"
      "pages b = (pages bp)[f := \<lparr>page_id = pid, pin_count = 1, is_dirty = False, data = d\<rparr>]"
      "page_table b = AList.update pid f (table_without f bp)"
      "free_list b = free_list bp1" "lru_list b = remove1 f (lru_list bp1)"
      "lru_pos b = lru_pos bp1 - {f}"
    and dm: "\<And>q e. disk_page (disk_manager bp) q = Some e \<Longrightarrow>
      (q = page_id (pages bp ! f) \<Longrightarrow> is_dirty (pages bp ! f) \<Longrightarrow> e = data (pages bp ! f)) \<Longrightarrow>
      disk_page (disk_manager b) q = Some e"
      "page_id (pages bp ! f) \<noteq> INVALID_PAGE_ID \<Longrightarrow> is_dirty (pages bp ! f) \<Longrightarrow>
      disk_page (disk_manager b) (page_id (pages bp ! f)) = Some (data (pages bp ! f))"
  shows "loaded f pid d bp b"
proof -
  note i = bp_inv_install [OF inv get pid d b]
  note g = GetFreeFrameOrVictim_Some [OF inv get]
  have "f \<in> set (free_list bp) \<union> set (lru_list bp)"
    using g(8) by (elim disjE conjE) simp_all
  moreover have "\<forall>q e. disk_page (disk_manager bp) q = Some e \<longrightarrow>
      (q = page_id (pages bp ! f) \<longrightarrow> is_dirty (pages bp ! f) \<longrightarrow> e = data (pages bp ! f)) \<longrightarrow>
      disk_page (disk_manager b) q = Some e"
    using dm(1) by blast
  moreover have "page_id (pages bp ! f) \<noteq> INVALID_PAGE_ID \<longrightarrow> is_dirty (pages bp ! f) \<longrightarrow>
      disk_page (disk_manager b) (page_id (pages bp ! f)) = Some (data (pages bp ! f))"
    using dm(2) by blast
  ultimately show ?thesis
    unfolding loaded_def using g(1) d b(1,2) i by (intro conjI)
qed

lemma Page_update_all [simp]:
  "(p :: Page)\<lparr>page_id := a, pin_count := b, is_dirty := c, data := d\<rparr> =
    \<lparr>page_id = a, pin_count = b, is_dirty = c, data = d\<rparr>"
  by (cases p) simp

lemma PinFrame_taken:
  assumes "bp_inv bp" and "GetFreeFrameOrVictim bp = Some (f, bp1)"
    and "lru_list b = lru_list bp1" "lru_pos b = lru_pos bp1"
  shows "lru_list (PinFrame f b) = remove1 f (lru_list bp1)" "lru_pos (PinFrame f b) = lru_pos bp1 - {f}"
  using assms(1,3,4) GetFreeFrameOrVictim_Some(8) [OF assms(1,2)]
  by (auto simp: PinFrame_def bp_inv_defs remove1_idem)

lemma NewPage_loads:
  assumes inv: "bp_inv bp" and addr: "resident_addr bp" and get: "GetFreeFrameOrVictim bp = Some (f, bp1)"
    and pid: "frame_of bp (next_page_id bp) = None" "page_addr (next_page_id bp)"
  shows "\<exists>bp'. NewPage bp = Some (Some (next_page_id bp, f), bp') \<and>
    loaded f (next_page_id bp) (replicate PAGE_SIZE 0) bp bp' \<and> next_page_id bp' = next_page_id bp + 1"
proof -
  note g = GetFreeFrameOrVictim_Some [OF inv get]
  obtain dm where ev: "evict f bp1 = Some (bp1\<lparr>disk_manager := dm, page_table := table_without f bp\<rparr>)"
    and keep: "\<And>q e. disk_page (disk_manager bp) q = Some e \<Longrightarrow>
      (q = page_id (pages bp ! f) \<Longrightarrow> is_dirty (pages bp ! f) \<Longrightarrow> e = data (pages bp ! f)) \<Longrightarrow>
      disk_page dm q = Some e"
    and wb: "page_id (pages bp ! f) \<noteq> INVALID_PAGE_ID \<Longrightarrow> is_dirty (pages bp ! f) \<Longrightarrow>
      disk_page dm (page_id (pages bp ! f)) = Some (data (pages bp ! f))"
    using evict_extends [OF inv addr get] by blast
  let ?n = "next_page_id bp"
  let ?b = "PinFrame f (upd_page f (\<lambda>p. p\<lparr>page_id := ?n, pin_count := 1, is_dirty := False,
         data := replicate PAGE_SIZE 0\<rparr>) (bp1\<lparr>disk_manager := dm, next_page_id := ?n + 1,
         page_table := AList.update ?n f (table_without f bp)\<rparr>))"
  have "?n < int32_max" using pid(2) by (simp add: page_addr_def MAX_PAGES_def int32_max_def)
  then have new: "NewPage bp = Some (Some (?n, f), ?b)"
    using get ev g by (simp add: NewPage_def Let_def)
  have "loaded f ?n (replicate PAGE_SIZE 0) bp ?b"
  proof (rule loadedI [OF inv get pid(1) page_addr_valid [OF pid(2)]])
    show "lru_list ?b = remove1 f (lru_list bp1)" "lru_pos ?b = lru_pos bp1 - {f}"
      by (rule PinFrame_taken [OF inv get]; simp)+
  qed (simp_all add: g(2,6) keep wb)
  then show ?thesis using new by auto
qed

lemma FetchPage_loads:
  assumes inv: "bp_inv bp" and addr: "resident_addr bp" and get: "GetFreeFrameOrVictim bp = Some (f, bp1)"
    and pid: "frame_of bp pid = None" "page_addr pid"
  shows "\<exists>bp' d. FetchPage pid bp = Some (Some f, bp') \<and> loaded f pid d bp bp' \<and>
    ReadPage pid (data (pages bp ! f)) (disk_manager bp') = Some d \<and> next_page_id bp' = next_page_id bp"
proof -
  note g = GetFreeFrameOrVictim_Some [OF inv get]
  obtain dm where ev: "evict f bp1 = Some (bp1\<lparr>disk_manager := dm, page_table := table_without f bp\<rparr>)"
    and keep: "\<And>q e. disk_page (disk_manager bp) q = Some e \<Longrightarrow>
      (q = page_id (pages bp ! f) \<Longrightarrow> is_dirty (pages bp ! f) \<Longrightarrow> e = data (pages bp ! f)) \<Longrightarrow>
      disk_page dm q = Some e"
    and wb: "page_id (pages bp ! f) \<noteq> INVALID_PAGE_ID \<Longrightarrow> is_dirty (pages bp ! f) \<Longrightarrow>
      disk_page dm (page_id (pages bp ! f)) = Some (data (pages bp ! f))"
    using evict_extends [OF inv addr get] by blast
  have len: "f < length (pages bp)" using g(1) inv by (simp add: bp_inv_defs)
  obtain d where d: "ReadPage pid (data (pages bp ! f)) dm = Some d" "length d = PAGE_SIZE"
    using ReadPage_defined [OF pid(2) length_frame_data [OF inv g(1)], of dm] by blast
  let ?b4 = "PinFrame f (upd_page f (\<lambda>p. p\<lparr>page_id := pid, pin_count := 1, is_dirty := False\<rparr>)
         (bp1\<lparr>disk_manager := dm, page_table := AList.update pid f (table_without f bp)\<rparr>))"
  let ?b = "upd_page f (\<lambda>p. p\<lparr>data := d\<rparr>) ?b4"
  have fetch: "FetchPage pid bp = Some (Some f, ?b)"
    using pid(1) get ev d g len by (simp add: FetchPage_def Let_def)
  have "loaded f pid d bp ?b"
  proof (rule loadedI [OF inv get pid(1) page_addr_valid [OF pid(2)] d(2)])
    show "lru_list ?b = remove1 f (lru_list bp1)" "lru_pos ?b = lru_pos bp1 - {f}"
      unfolding upd_page_simps by (rule PinFrame_taken [OF inv get]; simp)+
  qed (use len in \<open>simp_all add: g(2,6) keep wb\<close>)
  then show ?thesis using fetch d g by auto
qed

end
