(* ===== verification/Pool_Protocol.thy ===== *)
theory Pool_Protocol
  imports Buffer_Pool
begin

section \<open>The pin protocol: how the pool is used by its clients\<close>

text \<open>
  The record manager fetches a page, works on it through the pointer, and unpins it, saying whether
  it changed the page. Between two such brackets no page is pinned (\<open>quiet\<close>); inside one exactly
  one frame is (\<open>held\<close>). \<open>K\<close> is the set of pages the client relies on. The contract is the
  locale \<open>page_cache\<close>; its derived laws \<open>read_access\<close>, \<open>write_access\<close> and \<open>alloc_access\<close>
  are what the record manager's proofs use, and the buffer pool is interpreted as one.
\<close>

subsection \<open>Loading a page changes no other page\<close>

lemma disk_page_INVALID [simp]: "disk_page dm INVALID_PAGE_ID = None"
  by (simp add: disk_page_def INVALID_PAGE_ID_def split: option.splits)

lemma loaded_view:
  assumes inv: "bp_inv bp" and coh: "coherent K bp" and ld: "loaded f pid d bp bp'"
    and q: "q \<in> K" "q \<noteq> pid" "page_view bp q = Some e"
  shows "page_view bp' q = Some e"
proof (cases "frame_of bp q")
  case None
  with q have dq: "disk_page (disk_manager bp) q = Some e" by (simp add: page_view_def)
  then have "q \<noteq> INVALID_PAGE_ID" by auto
  with None have "q \<noteq> page_id (pages bp ! f)"
    using ld frame_of_page_id [OF inv, of f] by (auto simp: loaded_def)
  with ld dq have "disk_page (disk_manager bp') q = Some e" by (auto simp: loaded_def)
  with ld q None show ?thesis by (auto simp: page_view_def loaded_def)
next
  case (Some k)
  note k = frame_of_SomeD [OF inv Some]
  from Some q have e: "e = data (pages bp ! k)" by (simp add: page_view_def)
  show ?thesis
  proof (cases "k = f")
    case False
    then have "page_id (pages bp ! f) \<noteq> q"
      using k frame_inj [OF inv, of k f] ld by (auto simp: loaded_def)
    with ld q(2) Some False e show ?thesis by (simp add: page_view_def loaded_def)
  next
    case True
    have "f \<notin> set (free_list bp)" using k True inv by (auto simp: bp_inv_defs)
    then have "f \<in> set (lru_list bp)" using ld by (auto simp: loaded_def)
    then have "disk_page (disk_manager bp') q = Some e"
      using coh ld k True e q(1) by (cases "is_dirty (pages bp ! f)") (auto simp: loaded_def coherent_def)
    with ld q(2) k True show ?thesis by (auto simp: page_view_def loaded_def)
  qed
qed

lemma loaded_coherent:
  assumes inv: "bp_inv bp" and coh: "coherent K bp" and ld: "loaded f pid d bp bp'"
  shows "coherent K bp'"
  unfolding coherent_def
proof (intro ballI impI)
  fix k
  assume k: "k \<in> set (lru_list bp')"
    and K: "page_id (pages bp' ! k) \<in> K \<and> \<not> is_dirty (pages bp' ! k)"
  from k ld have kf: "k \<noteq> f" "k \<in> set (lru_list bp)" by (auto simp: loaded_def)
  then have p: "pages bp' ! k = pages bp ! k" using ld by (auto simp: loaded_def)
  have dk: "disk_page (disk_manager bp) (page_id (pages bp ! k)) = Some (data (pages bp ! k))"
    using coh K kf(2) unfolding p coherent_def by blast
  then have "page_id (pages bp ! k) \<noteq> INVALID_PAGE_ID" by auto
  moreover have "k < pool_size bp" using kf inv by (auto simp: bp_inv_defs)
  ultimately have "page_id (pages bp ! k) \<noteq> page_id (pages bp ! f)"
    using kf(1) frame_inj [OF inv, of k f] ld by (auto simp: loaded_def)
  with dk ld have "disk_page (disk_manager bp') (page_id (pages bp ! k)) = Some (data (pages bp ! k))"
    by (auto simp: loaded_def)
  then show "disk_page (disk_manager bp') (page_id (pages bp' ! k)) = Some (data (pages bp' ! k))"
    by (simp add: p)
qed

subsection \<open>Between brackets and inside one\<close>

definition pool_ok :: "int set \<Rightarrow> BufferPool \<Rightarrow> bool" where
  "pool_ok K bp \<longleftrightarrow> bp_inv bp \<and> coherent K bp \<and> 0 < pool_size bp \<and>
     (\<forall>p \<in> dom (frame_of bp). page_addr p \<and> p < next_page_id bp) \<and>
     (\<forall>p \<in> K. page_addr p \<and> p < next_page_id bp \<and> page_view bp p \<noteq> None)"

definition quiet :: "int set \<Rightarrow> BufferPool \<Rightarrow> bool" where
  "quiet K bp \<longleftrightarrow> pool_ok K bp \<and> (\<forall>f < pool_size bp. pin_count (pages bp ! f) = 0)"

definition held :: "int set \<Rightarrow> int \<Rightarrow> nat \<Rightarrow> byte list option \<Rightarrow> BufferPool \<Rightarrow> bool" where
  "held K p f c bp \<longleftrightarrow> pool_ok (K - {p}) bp \<and> frame_of bp p = Some f \<and> f \<notin> set (lru_list bp) \<and>
     pin_count (pages bp ! f) = 1 \<and> (\<forall>k < pool_size bp. k \<noteq> f \<longrightarrow> pin_count (pages bp ! k) = 0) \<and>
     (\<forall>d. c = Some d \<longrightarrow> is_dirty (pages bp ! f) \<or> disk_page (disk_manager bp) p = Some d)"

definition frame_data :: "nat \<Rightarrow> BufferPool \<Rightarrow> byte list" where
  "frame_data f bp = data (pages bp ! f)"

definition set_frame_data :: "nat \<Rightarrow> byte list \<Rightarrow> BufferPool \<Rightarrow> BufferPool" where
  "set_frame_data f d bp = upd_page f (\<lambda>p. p\<lparr>data := d\<rparr>) bp"

definition page_known :: "BufferPool \<Rightarrow> int \<Rightarrow> bool" where
  "page_known bp p \<longleftrightarrow> page_addr p \<and> p < next_page_id bp"

lemma pool_ok_known:
  "pool_ok K bp \<Longrightarrow> q \<in> K \<Longrightarrow>
    page_addr q \<and> q < next_page_id bp \<and> (\<exists>d. page_view bp q = Some d)"
  by (auto simp: pool_ok_def)

lemma pool_ok_resident:
  "pool_ok K bp \<Longrightarrow> q \<in> dom (frame_of bp) \<Longrightarrow> page_addr q \<and> q < next_page_id bp"
  unfolding pool_ok_def by blast

lemma pool_ok_resident_addr: "pool_ok K bp \<Longrightarrow> resident_addr bp"
  by (simp add: pool_ok_def resident_addr_def)

lemma coherent_mono: "coherent K bp \<Longrightarrow> L \<subseteq> K \<Longrightarrow> coherent L bp"
  by (auto simp: coherent_def)

lemma pool_ok_mono: "pool_ok K bp \<Longrightarrow> L \<subseteq> K \<Longrightarrow> pool_ok L bp"
  by (auto simp: pool_ok_def intro: coherent_mono)

lemma quiet_frame_available:
  assumes "quiet K bp"
  shows "\<exists>f bp1. GetFreeFrameOrVictim bp = Some (f, bp1)"
proof -
  from assms have inv: "bp_inv bp" and n: "0 < pool_size bp" and pin: "pin_count (pages bp ! 0) = 0"
    by (auto simp: quiet_def pool_ok_def)
  then have "0 \<in> set (free_list bp) \<or> 0 \<in> set (lru_list bp)"
    by (cases "page_id (pages bp ! 0) = INVALID_PAGE_ID") (auto simp: bp_inv_defs)
  then have "GetFreeFrameOrVictim bp \<noteq> None" by (auto simp: GetFreeFrameOrVictim_None)
  then show ?thesis by auto
qed

lemma loaded_held:
  assumes qt: "quiet K bp" and ld: "loaded f p d bp bp'"
    and p: "page_addr p" "p < next_page_id bp'" and nx: "next_page_id bp \<le> next_page_id bp'"
    and c: "\<And>d'. c = Some d' \<Longrightarrow> disk_page (disk_manager bp') p = Some d'"
  shows "held K p f c bp'"
proof -
  from qt have inv: "bp_inv bp" and ok: "pool_ok K bp" and coh: "coherent K bp"
    and pins: "\<forall>f < pool_size bp. pin_count (pages bp ! f) = 0"
    by (auto simp: quiet_def pool_ok_def)
  have view: "page_view bp' q = page_view bp q" if "q \<in> K" "q \<noteq> p" for q
    using ok that loaded_view [OF inv coh ld that] by (auto simp: pool_ok_def)
  have "pool_ok (K - {p}) bp'"
    unfolding pool_ok_def
  proof (intro conjI)
    show "coherent (K - {p}) bp'" using loaded_coherent [OF inv coh ld] by (rule coherent_mono) auto
    show "\<forall>q \<in> K - {p}. page_addr q \<and> q < next_page_id bp' \<and> page_view bp' q \<noteq> None"
    proof
      fix q assume q: "q \<in> K - {p}"
      then have "page_view bp' q = page_view bp q" by (intro view) auto
      then show "page_addr q \<and> q < next_page_id bp' \<and> page_view bp' q \<noteq> None"
        using q ok nx by (auto simp: pool_ok_def)
    qed
    show "\<forall>q \<in> dom (frame_of bp'). page_addr q \<and> q < next_page_id bp'"
    proof
      fix q assume "q \<in> dom (frame_of bp')"
      then have "q = p \<or> q \<in> dom (frame_of bp)" using ld by (auto simp: loaded_def split: if_splits)
      then show "page_addr q \<and> q < next_page_id bp'"
        using pool_ok_resident [OF ok, of q] p nx by (elim disjE) fastforce+
    qed
  qed (use ok ld in \<open>auto simp: pool_ok_def loaded_def\<close>)
  moreover have "f < length (pages bp)" using ld inv by (simp add: loaded_def bp_inv_defs)
  ultimately show ?thesis
    using ld pins c by (auto simp: held_def loaded_def)
qed

subsection \<open>The laws of the bracket\<close>

lemma FetchPage_held:
  assumes qt: "quiet K bp" and p: "page_known bp p"
  shows "\<exists>f bp'. FetchPage p bp = Some (Some f, bp') \<and>
    held K p f (if p \<in> K then Some (frame_data f bp') else None) bp' \<and>
    (p \<in> K \<longrightarrow> page_view bp p = Some (frame_data f bp')) \<and>
    (\<forall>q \<in> K. page_view bp' q = page_view bp q) \<and>
    length (frame_data f bp') = PAGE_SIZE \<and> next_page_id bp' = next_page_id bp"
proof -
  from qt have inv: "bp_inv bp" and ok: "pool_ok K bp" and coh: "coherent K bp"
    and pins: "\<forall>f < pool_size bp. pin_count (pages bp ! f) = 0"
    by (auto simp: quiet_def pool_ok_def)
  note addr = pool_ok_resident_addr [OF ok]
  show ?thesis
  proof (cases "frame_of bp p")
    case (Some f)
    note f = frame_of_SomeD [OF inv Some]
    let ?b = "PinFrame f (upd_page f (\<lambda>p. p\<lparr>pin_count := pin_count p + 1\<rparr>) bp)"
    have fetch: "FetchPage p bp = Some (Some f, ?b)" using Some by (simp add: FetchPage_def)
    have inv': "bp_inv ?b"
      by (rule bp_inv_pin [OF inv Some]) (use f pins inv in \<open>auto simp: length_frame_data\<close>)
    have view: "page_view ?b = page_view bp"
      using f by (auto simp: page_view_def fun_eq_iff nth_list_update split: option.splits)
    have inl: "f \<in> set (lru_list bp)" using f pins inv by (auto simp: bp_inv_defs)
    have lru: "set (lru_list ?b) = set (lru_list bp) - {f}"
      using inv f by (auto simp: PinFrame_def bp_inv_defs upd_page_def)
    have coh': "coherent K ?b"
      using coh lru unfolding coherent_def by (auto simp: nth_list_update)
    have ok': "pool_ok K ?b" using ok inv' coh' view by (auto simp: pool_ok_def)
    have "held K p f (if p \<in> K then Some (frame_data f ?b) else None) ?b"
      using pool_ok_mono [OF ok', of "K - {p}"] f pins lru coh inl Some
      by (auto simp: held_def frame_data_def coherent_def)
    moreover have "page_view bp p = Some (frame_data f ?b)"
      using Some f by (simp add: page_view_def frame_data_def)
    ultimately show ?thesis
      using fetch view f length_frame_data [OF inv, of f] by (auto simp: frame_data_def)
  next
    case None
    obtain f bp1 where get: "GetFreeFrameOrVictim bp = Some (f, bp1)"
      using quiet_frame_available [OF qt] by blast
    from p have pa: "page_addr p" "p < next_page_id bp" by (auto simp: page_known_def)
    obtain bp' d where fetch: "FetchPage p bp = Some (Some f, bp')" and ld: "loaded f p d bp bp'"
      and rd: "ReadPage p (data (pages bp ! f)) (disk_manager bp') = Some d"
      and nx: "next_page_id bp' = next_page_id bp"
      using FetchPage_loads [OF inv addr get None pa(1)] by blast
    have f: "f < length (pages bp)" "f < pool_size bp" using ld inv by (auto simp: loaded_def bp_inv_defs)
    have d: "frame_data f bp' = d" using ld f by (simp add: loaded_def frame_data_def)
    have disk: "disk_page (disk_manager bp') p = page_view bp p \<and> page_view bp p = Some d" if "p \<in> K"
    proof -
      from pool_ok_known [OF ok \<open>p \<in> K\<close>] obtain e where "page_view bp p = Some e" by blast
      with None have e: "disk_page (disk_manager bp) p = Some e" by (simp add: page_view_def)
      have "p \<noteq> page_id (pages bp ! f)"
        using frame_of_page_id [OF inv f(2)] None page_addr_valid [OF pa(1)] by auto
      with e ld have "disk_page (disk_manager bp') p = Some e" by (auto simp: loaded_def)
      moreover from this rd have "d = e"
        using ReadPage_known [OF _ pa(1) length_frame_data [OF inv f(2)]] by simp
      ultimately show ?thesis using None e by (simp add: page_view_def)
    qed
    have "held K p f (if p \<in> K then Some (frame_data f bp') else None) bp'"
      by (rule loaded_held [OF qt ld]) (use pa nx disk d in \<open>auto split: if_splits\<close>)
    moreover have "page_view bp' q = page_view bp q" if "q \<in> K" for q
    proof (cases "q = p")
      case True
      with that disk ld f show ?thesis by (simp add: page_view_def loaded_def)
    next
      case False
      with that ok loaded_view [OF inv coh ld that False] show ?thesis by (auto simp: pool_ok_def)
    qed
    moreover have "length d = PAGE_SIZE" using ld by (simp add: loaded_def)
    ultimately show ?thesis using fetch d disk nx by auto
  qed
qed

lemma NewPage_held:
  assumes qt: "quiet K bp" and p: "page_addr (next_page_id bp)"
  shows "\<exists>f bp'. NewPage bp = Some (Some (next_page_id bp, f), bp') \<and>
    held K (next_page_id bp) f None bp' \<and> (\<forall>q \<in> K. page_view bp' q = page_view bp q) \<and>
    frame_data f bp' = replicate PAGE_SIZE 0 \<and> next_page_id bp' = next_page_id bp + 1"
proof -
  from qt have inv: "bp_inv bp" and ok: "pool_ok K bp" and coh: "coherent K bp"
    by (auto simp: quiet_def pool_ok_def)
  note addr = pool_ok_resident_addr [OF ok]
  obtain f bp1 where get: "GetFreeFrameOrVictim bp = Some (f, bp1)"
    using quiet_frame_available [OF qt] by blast
  have new: "frame_of bp (next_page_id bp) = None"
    using ok by (force simp: pool_ok_def)
  obtain bp' where b: "NewPage bp = Some (Some (next_page_id bp, f), bp')"
    and ld: "loaded f (next_page_id bp) (replicate PAGE_SIZE 0) bp bp'"
    and nx: "next_page_id bp' = next_page_id bp + 1"
    using NewPage_loads [OF inv addr get new p] by blast
  have "f < length (pages bp)" using ld inv by (auto simp: loaded_def bp_inv_defs)
  then have "frame_data f bp' = replicate PAGE_SIZE 0" using ld by (simp add: loaded_def frame_data_def)
  moreover have "page_view bp' q = page_view bp q" if "q \<in> K" for q
  proof -
    have "q \<noteq> next_page_id bp" using ok that by (auto simp: pool_ok_def)
    with ok that loaded_view [OF inv coh ld that this] show ?thesis by (auto simp: pool_ok_def)
  qed
  moreover have "held K (next_page_id bp) f None bp'"
    by (rule loaded_held [OF qt ld]) (use p nx in auto)
  ultimately show ?thesis using b nx by blast
qed

lemma held_frame:
  "held K p f c bp \<Longrightarrow> f < pool_size bp \<and> f < length (pages bp) \<and> page_id (pages bp ! f) = p \<and>
    bp_inv bp \<and> page_known bp p \<and> p \<noteq> INVALID_PAGE_ID"
  by (auto simp: held_def pool_ok_def page_known_def dest: frame_of_SomeD)

lemma held_view: "held K p f c bp \<Longrightarrow> page_view bp p = Some (frame_data f bp)"
  by (simp add: held_def page_view_def frame_data_def)

lemma set_frame_data_held:
  assumes h: "held K p f c bp" and d: "length d = PAGE_SIZE"
  shows "held K p f c (set_frame_data f d bp)" and "frame_data f (set_frame_data f d bp) = d"
    and "page_view (set_frame_data f d bp) = (page_view bp)(p \<mapsto> d)"
    and "next_page_id (set_frame_data f d bp) = next_page_id bp"
proof -
  note f = held_frame [OF h]
  let ?b = "set_frame_data f d bp"
  have p: "pages ?b = (pages bp)[f := (pages bp ! f)\<lparr>data := d\<rparr>]" by (simp add: set_frame_data_def)
  have fr: "frame_of ?b = frame_of bp" "frame_of bp p = Some f"
    using h by (simp_all add: set_frame_data_def held_def)
  have inv: "bp_inv ?b"
  proof -
    have "frames_ok ?b"
      using f d p unfolding bp_inv_def frames_ok_def
      by (auto simp: set_frame_data_def dest!: set_update_subset_insert [THEN subsetD])
    moreover have "table_ok ?b" "lists_ok ?b"
      using f by (auto simp: bp_inv_defs set_frame_data_def nth_list_update)
    ultimately show ?thesis by (simp add: bp_inv_def)
  qed
  show view: "page_view ?b = (page_view bp)(p \<mapsto> d)"
  proof
    fix q show "page_view ?b q = ((page_view bp)(p \<mapsto> d)) q"
      using f fr frame_of_SomeD [of bp q f]
      by (cases "frame_of bp q") (auto simp: page_view_def p nth_list_update set_frame_data_def)
  qed
  have "f \<notin> set (lru_list bp)" using h by (simp add: held_def)
  then have "coherent (K - {p}) ?b"
    using h unfolding held_def pool_ok_def coherent_def p
    by (metis nth_list_update_neq set_frame_data_def upd_page_simps(2,6))
  then show "held K p f c ?b"
    using h inv view f unfolding held_def pool_ok_def
    by (auto simp: p fr) (auto simp: set_frame_data_def)
qed (use held_frame [OF h] in \<open>simp_all add: set_frame_data_def frame_data_def\<close>)

lemma UnpinPage_held:
  assumes h: "held K p f c bp"
    and dirty: "dirty \<or> p \<notin> K \<or> c = Some (frame_data f bp)"
  shows "\<exists>bp'. UnpinPage p dirty bp = (True, bp') \<and> quiet (if dirty then insert p K else K) bp' \<and>
    page_view bp' = page_view bp \<and> next_page_id bp' = next_page_id bp"
proof -
  note f = held_frame [OF h]
  then have inv: "bp_inv bp" by blast
  let ?g = "\<lambda>p. p\<lparr>is_dirty := is_dirty p \<or> dirty, pin_count := pin_count p - 1\<rparr>"
  let ?b = "UnpinFrame f (upd_page f ?g bp)"
  from h have fr: "frame_of bp p = Some f" and pin: "pin_count (pages bp ! f) = 1"
    and others: "\<And>k. k < pool_size bp \<Longrightarrow> k \<noteq> f \<Longrightarrow> pin_count (pages bp ! k) = 0"
    and ok: "pool_ok (K - {p}) bp" and lru: "f \<notin> set (lru_list bp)"
    by (auto simp: held_def)
  have unpin: "UnpinPage p dirty bp = (True, ?b)" using fr pin by (simp add: UnpinPage_def)
  have inv': "bp_inv ?b"
    by (rule bp_inv_unpin [OF inv fr]) (use f pin length_frame_data [OF inv, of f] in auto)
  have lru': "set (lru_list ?b) = insert f (set (lru_list bp))"
    using lru inv by (simp add: UnpinFrame_def bp_inv_def lists_ok_def)
  have view: "page_view ?b = page_view bp"
    using f by (auto simp: page_view_def fun_eq_iff nth_list_update split: option.splits)
  have coh: "coherent (if dirty then insert p K else K) ?b"
    unfolding coherent_def
  proof (intro ballI impI)
    fix k
    assume k: "k \<in> set (lru_list ?b)"
      and K: "page_id (pages ?b ! k) \<in> (if dirty then insert p K else K) \<and> \<not> is_dirty (pages ?b ! k)"
    show "disk_page (disk_manager ?b) (page_id (pages ?b ! k)) = Some (data (pages ?b ! k))"
    proof (cases "k = f")
      case True
      then have nd: "\<not> dirty" "\<not> is_dirty (pages bp ! f)" and pK: "p \<in> K"
        using K f by auto
      then have "disk_page (disk_manager bp) p = Some (frame_data f bp)"
        using dirty h unfolding held_def by auto
      then show ?thesis using True f by (simp add: frame_data_def)
    next
      case False
      then have kl: "k \<in> set (lru_list bp)" using k lru' by auto
      have "k < pool_size bp" using kl inv by (auto simp: bp_inv_defs)
      have "page_id (pages bp ! k) \<in> K - {p}" if "page_id (pages bp ! k) \<noteq> INVALID_PAGE_ID"
        using K f False frame_inj [OF inv \<open>k < pool_size bp\<close>, of f] that by (auto split: if_splits)
      moreover have "\<not> is_dirty (pages bp ! k)" using K False by simp
      moreover have "page_id (pages bp ! k) \<noteq> INVALID_PAGE_ID"
        using K False f pool_ok_known [OF ok, of INVALID_PAGE_ID]
        by (auto dest: page_addr_valid split: if_splits)
      ultimately show ?thesis using ok kl False by (auto simp: pool_ok_def coherent_def)
    qed
  qed
  have "pool_ok (if dirty then insert p K else K) ?b"
    unfolding pool_ok_def
  proof (intro conjI ballI)
    fix q assume "q \<in> (if dirty then insert p K else K)"
    then have "q = p \<or> q \<in> K - {p}" by (auto split: if_splits)
    then show "page_addr q" "q < next_page_id ?b" "page_view ?b q \<noteq> None"
      using f held_view [OF h] pool_ok_known [OF ok, of q] view by (auto simp: page_known_def)
  qed (use inv' coh ok in \<open>auto simp: pool_ok_def\<close>)
  moreover have "pin_count (pages ?b ! k) = 0" if "k < pool_size bp" for k
    using that others [OF that] pin f by (cases "k = f") auto
  ultimately show ?thesis using unpin view by (auto simp: quiet_def)
qed

subsection \<open>The contract\<close>

locale page_cache =
  fixes fetch :: "int \<Rightarrow> 's \<Rightarrow> (nat option \<times> 's) option"
    and new :: "'s \<Rightarrow> ((int \<times> nat) option \<times> 's) option"
    and unpin :: "int \<Rightarrow> bool \<Rightarrow> 's \<Rightarrow> bool \<times> 's"
    and look :: "nat \<Rightarrow> 's \<Rightarrow> 'd"
    and put :: "nat \<Rightarrow> 'd \<Rightarrow> 's \<Rightarrow> 's"
    and view :: "'s \<Rightarrow> int \<Rightarrow> 'd option"
    and idle :: "int set \<Rightarrow> 's \<Rightarrow> bool"
    and pinned :: "int set \<Rightarrow> int \<Rightarrow> nat \<Rightarrow> 'd option \<Rightarrow> 's \<Rightarrow> bool"
    and known :: "'s \<Rightarrow> int \<Rightarrow> bool"
    and nextid :: "'s \<Rightarrow> int"
    and block :: "'d \<Rightarrow> bool"
    and zero :: 'd
    and room :: "int \<Rightarrow> bool"
  assumes fetch_law: "idle K s \<Longrightarrow> known s p \<Longrightarrow>
      \<exists>f s'. fetch p s = Some (Some f, s') \<and>
        pinned K p f (if p \<in> K then Some (look f s') else None) s' \<and>
        (p \<in> K \<longrightarrow> view s p = Some (look f s')) \<and> (\<forall>q \<in> K. view s' q = view s q) \<and>
        block (look f s') \<and> nextid s' = nextid s"
    and new_law: "idle K s \<Longrightarrow> room (nextid s) \<Longrightarrow>
      \<exists>f s'. new s = Some (Some (nextid s, f), s') \<and> pinned K (nextid s) f None s' \<and>
        (\<forall>q \<in> K. view s' q = view s q) \<and> look f s' = zero \<and> nextid s' = nextid s + 1"
    and put_law: "pinned K p f c s \<Longrightarrow> block d \<Longrightarrow>
      pinned K p f c (put f d s) \<and> look f (put f d s) = d \<and>
      view (put f d s) = (view s)(p \<mapsto> d) \<and> nextid (put f d s) = nextid s"
    and unpin_law: "pinned K p f c s \<Longrightarrow> dirty \<or> p \<notin> K \<or> c = Some (look f s) \<Longrightarrow>
      \<exists>s'. unpin p dirty s = (True, s') \<and> idle (if dirty then insert p K else K) s' \<and>
        view s' = view s \<and> nextid s' = nextid s"
    and known_law: "idle K s \<Longrightarrow> q \<in> K \<Longrightarrow> known s q \<and> q < nextid s \<and> (\<exists>d. view s q = Some d \<and> block d)"
    and zero_block: "block zero"
begin

lemma read_access:
  assumes "idle K s" and "p \<in> K" and "view s p = Some d"
  obtains f s1 s2 where "fetch p s = Some (Some f, s1)" and "look f s1 = d"
    and "unpin p False s1 = (True, s2)" and "idle K s2" and "\<And>q. q \<in> K \<Longrightarrow> view s2 q = view s q"
    and "nextid s2 = nextid s"
proof -
  from fetch_law [OF assms(1), of p] known_law [OF assms(1,2)] assms(2,3) obtain f s1
    where f: "fetch p s = Some (Some f, s1)" "pinned K p f (Some (look f s1)) s1" "look f s1 = d"
      "\<forall>q \<in> K. view s1 q = view s q" "nextid s1 = nextid s" by auto
  from unpin_law [OF f(2), of False] obtain s2
    where u: "unpin p False s1 = (True, s2)" "idle K s2" "view s2 = view s1" "nextid s2 = nextid s1" by auto
  show ?thesis by (rule that [OF f(1,3) u(1,2)]) (use f u in auto)
qed

lemma write_access:
  assumes "idle K s" and "p \<in> K" and "view s p = Some d"
  obtains f s1 where "fetch p s = Some (Some f, s1)" and "look f s1 = d"
    and "\<And>d'. block d' \<Longrightarrow> \<exists>s2. unpin p True (put f d' s1) = (True, s2) \<and> idle K s2 \<and>
      (\<forall>q \<in> K. view s2 q = ((view s)(p \<mapsto> d')) q) \<and> nextid s2 = nextid s"
    and "\<exists>s2. unpin p False s1 = (True, s2) \<and> idle K s2 \<and> (\<forall>q \<in> K. view s2 q = view s q) \<and>
      nextid s2 = nextid s"
proof -
  from fetch_law [OF assms(1), of p] known_law [OF assms(1,2)] assms(2,3) obtain f s1
    where f: "fetch p s = Some (Some f, s1)" "pinned K p f (Some (look f s1)) s1" "look f s1 = d"
      "\<forall>q \<in> K. view s1 q = view s q" "nextid s1 = nextid s" by auto
  show ?thesis
  proof (rule that [OF f(1,3)])
    fix d' assume "block d'"
    note put = put_law [OF f(2) this]
    then have "pinned K p f (Some (look f s1)) (put f d' s1)" by blast
    from unpin_law [OF this, of True] put f assms(2)
    show "\<exists>s2. unpin p True (put f d' s1) = (True, s2) \<and> idle K s2 \<and>
      (\<forall>q \<in> K. view s2 q = ((view s)(p \<mapsto> d')) q) \<and> nextid s2 = nextid s"
      by (auto simp: insert_absorb)
  next
    show "\<exists>s2. unpin p False s1 = (True, s2) \<and> idle K s2 \<and> (\<forall>q \<in> K. view s2 q = view s q) \<and>
      nextid s2 = nextid s"
      using unpin_law [OF f(2), of False] f by auto
  qed
qed

lemma alloc_access:
  assumes "idle K s" and "room (nextid s)"
  obtains f s1 where "new s = Some (Some (nextid s, f), s1)" and "look f s1 = zero" and "nextid s \<notin> K"
    and "\<And>d'. block d' \<Longrightarrow> \<exists>s2. unpin (nextid s) True (put f d' s1) = (True, s2) \<and>
      idle (insert (nextid s) K) s2 \<and>
      (\<forall>q \<in> insert (nextid s) K. view s2 q = ((view s)(nextid s \<mapsto> d')) q) \<and> nextid s2 = nextid s + 1"
    and "\<And>d'. block d' \<Longrightarrow> \<exists>s2. unpin (nextid s) False (put f d' s1) = (True, s2) \<and> idle K s2 \<and>
      (\<forall>q \<in> K. view s2 q = view s q) \<and> nextid s2 = nextid s + 1"
proof -
  have fresh: "nextid s \<notin> K" using known_law [OF assms(1), of "nextid s"] by auto
  from new_law [OF assms] obtain f s1
    where f: "new s = Some (Some (nextid s, f), s1)" "pinned K (nextid s) f None s1"
      "\<forall>q \<in> K. view s1 q = view s q" "look f s1 = zero" "nextid s1 = nextid s + 1" by blast
  show ?thesis
  proof (rule that [OF f(1,4) fresh])
    fix d' assume "block d'"
    note put = put_law [OF f(2) this]
    then have pin: "pinned K (nextid s) f None (put f d' s1)" by blast
    show "\<exists>s2. unpin (nextid s) True (put f d' s1) = (True, s2) \<and> idle (insert (nextid s) K) s2 \<and>
      (\<forall>q \<in> insert (nextid s) K. view s2 q = ((view s)(nextid s \<mapsto> d')) q) \<and> nextid s2 = nextid s + 1"
      using unpin_law [OF pin, of True] put f fresh by auto
    show "\<exists>s2. unpin (nextid s) False (put f d' s1) = (True, s2) \<and> idle K s2 \<and>
      (\<forall>q \<in> K. view s2 q = view s q) \<and> nextid s2 = nextid s + 1"
      using unpin_law [OF pin, of False] put f fresh by auto
  qed
qed

end

interpretation pool: page_cache FetchPage NewPage UnpinPage frame_data set_frame_data page_view
  quiet held page_known next_page_id "\<lambda>d. length d = PAGE_SIZE" "replicate PAGE_SIZE 0" page_addr
proof
  fix K s q
  assume qt: "quiet K s" and q: "q \<in> K"
  then have inv: "bp_inv s" and ok: "pool_ok K s" by (auto simp: quiet_def pool_ok_def)
  from pool_ok_known [OF ok q] obtain d where d: "page_addr q" "q < next_page_id s" "page_view s q = Some d"
    by blast
  have "length d = PAGE_SIZE"
    using d(3) length_frame_data [OF inv] frame_of_SomeD [OF inv, of q] length_disk_page
    by (auto simp: page_view_def split: option.splits)
  with d show "page_known s q \<and> q < next_page_id s \<and> (\<exists>d. page_view s q = Some d \<and> length d = PAGE_SIZE)"
    by (simp add: page_known_def)
qed (use FetchPage_held NewPage_held UnpinPage_held set_frame_data_held in auto)

lemma quiet_new:
  assumes "0 < n"
  shows "quiet {} (new_BufferPool n dm)"
  using assms by (auto simp: quiet_def pool_ok_def bp_inv_new coherent_def)
    (auto simp: new_BufferPool_def frame_of_def empty_Page_def)

end
