(* ===== verification/Page_Data.thy ===== *)
theory Page_Data
  imports Page_Types
begin

section \<open>The page data manager (src/manager/page_data_manager.cpp)\<close>

text \<open>
  A slotted page: header, slot array growing upwards, tuples growing downwards from the end.
  Arithmetic on \<^verbatim>\<open>uint16_t\<close> fields is word arithmetic, which wraps as the code's truncations
  do. Operations that go through an address computed from the page's contents return
  \<^term>\<open>None\<close> when they would leave the page's 4096 bytes.
\<close>

definition fetchSlot :: "u16 \<Rightarrow> byte list \<Rightarrow> nat option" where
  "fetchSlot slot_id d = (if slot_count (load_header d) \<le> slot_id then None
     else Some (slot_addr (unat slot_id)))"

definition InitializePage :: "int \<Rightarrow> byte list \<Rightarrow> byte list" where
  "InitializePage pid d = store_header \<lparr>hdr_page_id = word_of_int pid,
     free_space_offset = word_of_nat (PAGE_SIZE - 1), slot_count = 0\<rparr> d"

definition HasEnoughSpace :: "byte list \<Rightarrow> u16 \<Rightarrow> bool" where
  "HasEnoughSpace d tuple_size = (let h = load_header d;
     required_space = tuple_size + 4;
     available_space = (free_space_offset h + 1) - (8 + slot_count h * 4)
   in required_space \<le> available_space)"

definition InsertTuple :: "byte list \<Rightarrow> u16 \<Rightarrow> byte list \<Rightarrow> (u16 option \<times> byte list) option" where
  "InsertTuple tuple_data tuple_size d = (if \<not> HasEnoughSpace d tuple_size then Some (None, d)
     else do {
       let new_free_space_offset = free_space_offset (load_header d) - tuple_size + 1;
       bs \<leftarrow> mem_read 0 (unat tuple_size) tuple_data;
       d1 \<leftarrow> mem_write (unat new_free_space_offset) bs d;
       let slot_id = slot_count (load_header d1);
       d2 \<leftarrow> store_slot (slot_addr (unat slot_id))
               \<lparr>slot_offset = new_free_space_offset, slot_length = tuple_size\<rparr> d1;
       let h = load_header d2;
       Some (Some (slot_count h),
         store_header (h\<lparr>slot_count := slot_count h + 1,
                         free_space_offset := new_free_space_offset - 1\<rparr>) d2) })"

definition GetTuple :: "nat \<Rightarrow> u16 \<Rightarrow> byte list \<Rightarrow> (byte list \<times> u16) option option" where
  "GetTuple cap slot_id d = (if slot_count (load_header d) \<le> slot_id then Some None
     else do {
       s \<leftarrow> load_slot (slot_addr (unat slot_id)) d;
       bs \<leftarrow> mem_read (unat (slot_offset s)) (unat (slot_length s)) d;
       if length bs \<le> cap then Some (Some (bs, slot_length s)) else None })"

definition DeleteTuple :: "u16 \<Rightarrow> byte list \<Rightarrow> (bool \<times> byte list) option" where
  "DeleteTuple slot_id d = (if slot_count (load_header d) \<le> slot_id then Some (False, d)
     else do {
       d' \<leftarrow> store_slot_length (slot_addr (unat slot_id)) 0 d;
       Some (True, d') })"

definition mem_move :: "int \<Rightarrow> nat \<Rightarrow> nat \<Rightarrow> byte list \<Rightarrow> byte list option" where
  "mem_move dst src n d = do {
     bs \<leftarrow> mem_read src n d;
     if dst < 0 then None else mem_write (nat dst) bs d }"

function compact_loop :: "nat \<Rightarrow> int \<Rightarrow> byte list \<Rightarrow> (int \<times> byte list) option" where
  "compact_loop i write_ptr d = (if i < unat (slot_count (load_header d))
     then (case fetchSlot (word_of_nat i) d of
         None \<Rightarrow> None
       | Some a \<Rightarrow> do {
           s \<leftarrow> load_slot a d;
           if slot_length s = 0 then compact_loop (i + 1) write_ptr d
           else do {
             let new_offset = write_ptr - int (unat (slot_length s)) + 1;
             d1 \<leftarrow> mem_move new_offset (unat (slot_offset s)) (unat (slot_length s)) d;
             d2 \<leftarrow> store_slot_offset a (word_of_int new_offset) d1;
             compact_loop (i + 1) (new_offset - 1) d2 } })
     else Some (write_ptr, d))"
  by pat_completeness auto
termination
  by (relation "measure (\<lambda>(i, _, _). 65536 - i)") (auto dest!: less_unat_u16)

definition CompactOnePage :: "byte list \<Rightarrow> byte list option" where
  "CompactOnePage d = do {
     (write_ptr, d') \<leftarrow> compact_loop 0 (int PAGE_SIZE - 1) d;
     Some (store_header ((load_header d')\<lparr>free_space_offset := word_of_int write_ptr\<rparr>) d') }"

declare compact_loop.simps [simp del]

end
