(* ===== verification/Page_Records.thy ===== *)
theory Page_Records
  imports Page_Data
begin

section \<open>What a slotted page means\<close>

text \<open>
  The abstract view of a page is the list of its records by slot id, \<^term>\<open>None\<close> for a deleted
  slot (\<open>page_records\<close>). \<open>page_inv\<close> is the layout invariant: the slot array lies below the
  tuple area, live tuples lie inside the tuple area and do not overlap. \<open>page_ordered\<close> says in
  addition that live tuples lie in descending slot order, which \<open>CompactOnePage\<close> relies on.
\<close>

definition fso :: "byte list \<Rightarrow> nat" where
  "fso d = unat (free_space_offset (load_header d))"

definition cnt :: "byte list \<Rightarrow> nat" where
  "cnt d = unat (slot_count (load_header d))"

definition page_slots :: "byte list \<Rightarrow> Slot list" where
  "page_slots d = map (\<lambda>i. the (load_slot (slot_addr i) d)) [0..<cnt d]"

definition s_off :: "Slot \<Rightarrow> nat" where
  "s_off s = unat (slot_offset s)"

definition s_len :: "Slot \<Rightarrow> nat" where
  "s_len s = unat (slot_length s)"

definition live :: "Slot \<Rightarrow> bool" where
  "live s \<longleftrightarrow> slot_length s \<noteq> 0"

definition slot_record :: "byte list \<Rightarrow> Slot \<Rightarrow> byte list option" where
  "slot_record d s = (if live s then Some (slice (s_off s) (s_len s) d) else None)"

definition page_records :: "byte list \<Rightarrow> byte list option list" where
  "page_records d = map (slot_record d) (page_slots d)"

definition below :: "Slot \<Rightarrow> Slot \<Rightarrow> bool" where
  "below s t \<longleftrightarrow> s_off s + s_len s \<le> s_off t"

definition live_pairs :: "(Slot \<Rightarrow> Slot \<Rightarrow> bool) \<Rightarrow> Slot list \<Rightarrow> bool" where
  "live_pairs R ss \<longleftrightarrow> (\<forall>i j. i < j \<longrightarrow> j < length ss \<longrightarrow> live (ss ! i) \<longrightarrow> live (ss ! j) \<longrightarrow> R (ss ! i) (ss ! j))"

definition layout_ok :: "nat \<Rightarrow> Slot list \<Rightarrow> bool" where
  "layout_ok lo ss \<longleftrightarrow> 8 + 4 * length ss \<le> lo + 1 \<and> lo < PAGE_SIZE \<and>
     (\<forall>s \<in> set ss. s_off s + s_len s \<le> PAGE_SIZE \<and> (live s \<longrightarrow> lo < s_off s)) \<and>
     live_pairs (\<lambda>s t. below t s \<or> below s t) ss"

definition page_inv :: "byte list \<Rightarrow> bool" where
  "page_inv d \<longleftrightarrow> length d = PAGE_SIZE \<and> layout_ok (fso d) (page_slots d)"

definition page_ordered :: "byte list \<Rightarrow> bool" where
  "page_ordered d \<longleftrightarrow> live_pairs (\<lambda>s t. below t s) (page_slots d)"

lemmas layout_defs = page_inv_def layout_ok_def live_pairs_def below_def

lemma length_page_slots [simp]: "length (page_slots d) = cnt d"
  by (simp add: page_slots_def)

lemma length_page_records [simp]: "length (page_records d) = cnt d"
  by (simp add: page_records_def)

lemma s_len_pos: "live s \<longleftrightarrow> 0 < s_len s"
  by (simp add: live_def s_len_def unat_gt_0)

lemma page_inv_length: "page_inv d \<Longrightarrow> length d = PAGE_SIZE"
  by (simp add: page_inv_def)

lemma page_inv_room: "page_inv d \<Longrightarrow> 8 + 4 * cnt d \<le> fso d + 1 \<and> fso d < PAGE_SIZE \<and> 8 + 4 * cnt d \<le> PAGE_SIZE"
  by (auto simp: page_inv_def layout_ok_def)

lemma cnt_bound: "cnt d < 65536"
  by (simp add: cnt_def unat_u16_less)

lemma slot_addr_bound: "i < n \<Longrightarrow> slot_addr i + 4 \<le> 8 + 4 * n"
  by (simp add: slot_addr_def)

lemma load_slot_page_slots:
  "length d = PAGE_SIZE \<Longrightarrow> 8 + 4 * cnt d \<le> PAGE_SIZE \<Longrightarrow> i < cnt d \<Longrightarrow>
    load_slot (slot_addr i) d = Some (page_slots d ! i)"
  using slot_addr_bound [of i "cnt d"] by (simp add: page_slots_def load_slot_slices)

lemma page_slots_eqI:
  assumes "cnt d' = cnt d" and "\<And>i. i < cnt d \<Longrightarrow> load_slot (slot_addr i) d' = load_slot (slot_addr i) d"
  shows "page_slots d' = page_slots d"
  using assms by (simp add: page_slots_def)

lemma page_slots_splice:
  assumes "8 + 4 * cnt d \<le> off" and "off + length bs \<le> length d"
  shows "page_slots (splice_at off bs d) = page_slots d" and "cnt (splice_at off bs d) = cnt d"
    and "load_header (splice_at off bs d) = load_header d"
proof -
  show h: "load_header (splice_at off bs d) = load_header d"
    using assms by (simp add: load_header_splice)
  then show c: "cnt (splice_at off bs d) = cnt d" by (simp add: cnt_def)
  show "page_slots (splice_at off bs d) = page_slots d"
  proof (rule page_slots_eqI [OF c])
    fix i assume "i < cnt d"
    then show "load_slot (slot_addr i) (splice_at off bs d) = load_slot (slot_addr i) d"
      using assms slot_addr_bound [of i "cnt d"] by (intro load_slot_splice_disjoint) auto
  qed
qed

text \<open>Rewriting one slot rewrites one element of the slot list.\<close>

lemma page_slots_set_slot:
  assumes "i < cnt d" and "8 + 4 * cnt d \<le> length d"
    and "slot_addr i \<le> a" and "a + length bs \<le> slot_addr i + 4"
    and "load_slot (slot_addr i) (splice_at a bs d) = Some s"
  shows "page_slots (splice_at a bs d) = (page_slots d)[i := s]"
    and "load_header (splice_at a bs d) = load_header d"
proof -
  have b: "a + length bs \<le> length d" using assms slot_addr_bound [OF assms(1)] by simp
  show h: "load_header (splice_at a bs d) = load_header d"
    using assms(3) b by (intro load_header_splice) (auto simp: slot_addr_def)
  have c: "cnt (splice_at a bs d) = cnt d" using h by (simp add: cnt_def)
  show "page_slots (splice_at a bs d) = (page_slots d)[i := s]"
  proof (rule nth_equalityI)
    fix j assume "j < length (page_slots (splice_at a bs d))"
    then have j: "j < cnt d" by (simp add: c)
    show "page_slots (splice_at a bs d) ! j = (page_slots d)[i := s] ! j"
    proof (cases "j = i")
      case True
      with assms(5) j show ?thesis by (simp add: page_slots_def c)
    next
      case False
      then have "slot_addr j + 4 \<le> a \<or> a + length bs \<le> slot_addr j"
        using slot_addr_disjoint [OF False] assms(3,4) by auto
      with False j b show ?thesis by (simp add: page_slots_def c load_slot_splice_disjoint)
    qed
  qed (simp add: c)
qed

subsection \<open>Initialisation and the space check\<close>

lemma InitializePage_spec:
  assumes "length d = PAGE_SIZE"
  shows "length (InitializePage pid d) = PAGE_SIZE" and "fso (InitializePage pid d) = PAGE_SIZE - 1"
    and "cnt (InitializePage pid d) = 0" and "page_slots (InitializePage pid d) = []"
    and "page_records (InitializePage pid d) = []"
    and "page_inv (InitializePage pid d)" and "page_ordered (InitializePage pid d)"
proof -
  let ?d = "InitializePage pid d"
  show l: "length ?d = PAGE_SIZE" and c: "cnt ?d = 0" and f: "fso ?d = PAGE_SIZE - 1"
    using assms by (simp_all add: InitializePage_def cnt_def fso_def PAGE_SIZE_def)
  show s: "page_slots ?d = []" using c by (simp add: page_slots_def)
  then show "page_records ?d = []" by (simp add: page_records_def)
  show "page_inv ?d" "page_ordered ?d"
    using l f s by (simp_all add: page_ordered_def layout_defs PAGE_SIZE_def)
qed

definition free_bytes :: "byte list \<Rightarrow> nat" where
  "free_bytes d = fso d + 1 - (8 + 4 * cnt d)"

lemma available_space_free:
  assumes "page_inv d"
  shows "unat ((free_space_offset (load_header d) + 1) - (8 + slot_count (load_header d) * 4)) = free_bytes d"
proof -
  note r = page_inv_room [OF assms]
  have a: "unat (free_space_offset (load_header d) + 1) = fso d + 1"
    using r by (subst unat_u16_add) (auto simp: fso_def PAGE_SIZE_def)
  have "unat (slot_count (load_header d) * 4) = cnt d * 4"
    using r by (simp add: cnt_def unat_word_ariths PAGE_SIZE_def)
  then have b: "unat (8 + slot_count (load_header d) * 4) = 8 + 4 * cnt d"
    using r by (subst unat_u16_add) (auto simp: PAGE_SIZE_def)
  show ?thesis
    using r by (subst unat_u16_sub) (auto simp: a b free_bytes_def)
qed

lemma HasEnoughSpace_iff:
  assumes "page_inv d" and "unat ts < 65532"
  shows "HasEnoughSpace d ts \<longleftrightarrow> unat ts + 4 \<le> free_bytes d"
  using assms available_space_free [OF assms(1)] unat_u16_add [of ts 4]
  by (simp add: HasEnoughSpace_def Let_def word_le_nat_alt)

text \<open>The 16-bit sum wraps for the four largest sizes: the check passes on any page with room for 3 bytes.\<close>

lemma HasEnoughSpace_wraps:
  assumes "page_inv d" and "65532 \<le> unat ts" and "3 \<le> free_bytes d"
  shows "HasEnoughSpace d ts"
proof -
  have "unat (ts + 4) = unat ts + 4 - 65536"
    using assms(2) unat_u16_less [of ts] by (simp add: unat_word_ariths mod_if)
  then have "unat (ts + 4) \<le> free_bytes d" using assms(3) unat_u16_less [of ts] by simp
  then show ?thesis
    using available_space_free [OF assms(1)] by (simp add: HasEnoughSpace_def Let_def word_le_nat_alt)
qed

subsection \<open>InsertTuple\<close>

lemma store_header_counts:
  assumes "length d = PAGE_SIZE"
  shows "fso (store_header h d) = unat (free_space_offset h)"
    and "cnt (store_header h d) = unat (slot_count h)"
  using assms by (simp_all add: fso_def cnt_def)

lemma InsertTuple_spec:
  assumes inv: "page_inv d" and ts: "unat ts = length td" "length td < 65532"
    and room: "length td + 4 \<le> free_bytes d" and lo: "lo = fso d - length td"
  shows "\<exists>d' nn. InsertTuple td ts d = Some (Some (word_of_nat (cnt d)), d') \<and> length d' = PAGE_SIZE \<and>
    fso d' = lo \<and> cnt d' = cnt d + 1 \<and> unat nn = lo + 1 \<and>
    page_slots d' = page_slots d @ [\<lparr>slot_offset = nn, slot_length = ts\<rparr>] \<and>
    slice (lo + 1) (length td) d' = td \<and>
    (\<forall>a n. fso d < a \<and> a + n \<le> PAGE_SIZE \<longrightarrow> slice a n d' = slice a n d)"
proof -
  note r = page_inv_room [OF inv] and l = page_inv_length [OF inv]
  have free: "8 + 4 * cnt d + length td + 4 \<le> fso d + 1" using room by (simp add: free_bytes_def)
  define nn where "nn = free_space_offset (load_header d) - ts + 1"
  have n0: "unat (free_space_offset (load_header d) - ts) = lo"
    using free ts lo by (subst unat_u16_sub) (auto simp: fso_def)
  have n: "unat nn = lo + 1"
    unfolding nn_def using r free lo n0 by (subst unat_u16_add) (auto simp: PAGE_SIZE_def)
  have n1: "unat (nn - 1) = lo" using n by (subst unat_u16_sub) auto
  have lo8: "8 + 4 * cnt d + 4 \<le> lo + 1" "lo + 1 + length td = fso d + 1" using free lo by auto
  define d1 where "d1 = splice_at (lo + 1) td d"
  have l1: "length d1 = PAGE_SIZE" using l r lo8 by (simp add: d1_def)
  have h1: "load_header d1 = load_header d" unfolding d1_def using l r lo8 by (intro load_header_splice) auto
  have bs: "mem_read 0 (unat ts) td = Some td" using ts slice_full [of td] by (simp add: mem_read_def)
  let ?sb = "le16 nn @ le16 ts" and ?a = "slot_addr (cnt d)"
  define d2 where "d2 = splice_at ?a ?sb d1"
  have a4: "?a + 4 \<le> lo + 1" "?a + 4 \<le> PAGE_SIZE" using lo8 r by (auto simp: slot_addr_def)
  have l2: "length d2 = PAGE_SIZE" using l1 a4 by (simp add: d2_def)
  have h2: "load_header d2 = load_header d" unfolding d2_def using l1 a4 h1 by (subst load_header_splice) auto
  let ?h = "(load_header d)\<lparr>slot_count := slot_count (load_header d) + 1, free_space_offset := nn - 1\<rparr>"
  define d3 where "d3 = store_header ?h d2"
  have ins: "InsertTuple td ts d = Some (Some (slot_count (load_header d)), d3)"
  proof -
    have has: "HasEnoughSpace d ts" using HasEnoughSpace_iff [OF inv, of ts] ts room by simp
    have w1: "mem_write (unat nn) td d = Some d1" using n lo8 r l by (simp add: mem_write_def d1_def)
    have w2: "store_slot (slot_addr (unat (slot_count (load_header d1))))
        \<lparr>slot_offset = nn, slot_length = ts\<rparr> d1 = Some d2"
      using a4 l1 h1 by (simp add: store_slot_def mem_write_def cnt_def d2_def)
    show ?thesis
      unfolding InsertTuple_def Let_def nn_def [symmetric] using has bs w1 w2 h2 by (simp add: d3_def)
  qed
  have l3: "length d3 = PAGE_SIZE" using l2 by (simp add: d3_def)
  have c3: "cnt d3 = cnt d + 1"
    using r unfolding d3_def store_header_counts [OF l2] by (simp add: unat_u16_add cnt_def PAGE_SIZE_def)
  have f3: "fso d3 = lo" using n1 unfolding d3_def store_header_counts [OF l2] by simp
  have s3: "page_slots d3 = page_slots d @ [\<lparr>slot_offset = nn, slot_length = ts\<rparr>]"
  proof (rule nth_equalityI)
    fix i assume "i < length (page_slots d3)"
    then have i: "i < cnt d + 1" by (simp add: c3)
    have ld: "page_slots d3 ! i = the (load_slot (slot_addr i) d2)"
      using i c3 l2 by (simp add: page_slots_def load_slot_store_header d3_def [symmetric] del: upt_Suc) (simp add: d3_def load_slot_store_header)
    show "page_slots d3 ! i = (page_slots d @ [\<lparr>slot_offset = nn, slot_length = ts\<rparr>]) ! i"
    proof (cases "i = cnt d")
      case True
      with ld n a4 l1 show ?thesis by (simp add: nth_append load_slot_splice_same d2_def)
    next
      case False
      then have "slot_addr i + 4 \<le> ?a" "slot_addr i + 4 \<le> lo + 1" using i a4 by (auto simp: slot_addr_def)
      then have "load_slot (slot_addr i) d2 = load_slot (slot_addr i) d"
        using l l1 a4 lo8 r by (simp add: load_slot_splice_disjoint d1_def d2_def)
      with ld False i show ?thesis by (simp add: nth_append page_slots_def)
    qed
  qed (simp add: c3)
  have sl: "slice a n d3 = slice a n d1" if "?a + 4 \<le> a" "a + n \<le> PAGE_SIZE" for a n
  proof -
    have a8: "8 \<le> a" using that(1) slot_addr_ge [of "cnt d"] by linarith
    have "slice a n d3 = slice a n d2"
      unfolding d3_def using that(2) l2 a8 by (intro slice_store_header) auto
    also have "\<dots> = slice a n d1"
      unfolding d2_def using that l1 by (intro slice_splice_at_disjoint) auto
    finally show ?thesis .
  qed
  have "slice (lo + 1) (length td) d3 = td"
    using sl [of "lo + 1" "length td"] a4 lo8 r l by (simp add: slice_splice_at_same d1_def)
  moreover have "slice a n d3 = slice a n d" if "fso d < a" "a + n \<le> PAGE_SIZE" for a n
    using sl [of a n] that a4 lo8 l r by (simp add: slice_splice_at_disjoint d1_def)
  ultimately show ?thesis using ins l3 c3 f3 s3 n by (auto simp: cnt_def)
qed

lemma live_pairs_append:
  "live_pairs R (ss @ [t]) \<longleftrightarrow> live_pairs R ss \<and> (live t \<longrightarrow> (\<forall>s \<in> set ss. live s \<longrightarrow> R s t))"
  by (auto simp: live_pairs_def nth_append all_set_conv_all_nth less_Suc_eq)

lemma page_records_cong:
  assumes "length (page_slots d') = length (page_slots d)"
    and "\<And>i. i < cnt d \<Longrightarrow> slot_record d' (page_slots d' ! i) = slot_record d (page_slots d ! i)"
  shows "page_records d' = page_records d"
  using assms by (intro nth_equalityI) (auto simp: page_records_def)

lemma live_slot_bounds:
  "page_inv d \<Longrightarrow> s \<in> set (page_slots d) \<Longrightarrow> live s \<Longrightarrow> fso d < s_off s \<and> s_off s + s_len s \<le> PAGE_SIZE"
  by (auto simp: page_inv_def layout_ok_def)

lemma slot_record_keep:
  assumes "page_inv d" and "s \<in> set (page_slots d)"
    and "\<And>a n. fso d < a \<Longrightarrow> a + n \<le> PAGE_SIZE \<Longrightarrow> slice a n d' = slice a n d"
  shows "slot_record d' s = slot_record d s"
  using assms(3) live_slot_bounds [OF assms(1,2)] by (simp add: slot_record_def)

text \<open>The refinement: inserting appends a record; the returned slot id is its index.\<close>

lemma InsertTuple_refines:
  assumes inv: "page_inv d" and ts: "unat ts = length td" and td: "td \<noteq> []" "length td < 65532"
  shows "length td + 4 \<le> free_bytes d \<Longrightarrow>
      \<exists>d'. InsertTuple td ts d = Some (Some (word_of_nat (cnt d)), d') \<and> page_inv d' \<and>
        page_records d' = page_records d @ [Some td] \<and> free_bytes d' = free_bytes d - (length td + 4) \<and>
        (page_ordered d \<longrightarrow> page_ordered d')"
    and "\<not> length td + 4 \<le> free_bytes d \<Longrightarrow> InsertTuple td ts d = Some (None, d)"
proof -
  note r = page_inv_room [OF inv]
  assume room: "length td + 4 \<le> free_bytes d"
  define lo where "lo = fso d - length td"
  have lo8: "8 + 4 * cnt d + 4 \<le> lo + 1" "lo + length td = fso d"
    using room by (auto simp: free_bytes_def lo_def)
  obtain d' nn where ins: "InsertTuple td ts d = Some (Some (word_of_nat (cnt d)), d')"
    and d': "length d' = PAGE_SIZE" "fso d' = lo" "cnt d' = cnt d + 1"
      "page_slots d' = page_slots d @ [\<lparr>slot_offset = nn, slot_length = ts\<rparr>]"
      "slice (lo + 1) (length td) d' = td" and nn: "unat nn = lo + 1"
    and keep: "\<And>a n. fso d < a \<Longrightarrow> a + n \<le> PAGE_SIZE \<Longrightarrow> slice a n d' = slice a n d"
    using InsertTuple_spec [OF inv ts td(2) room lo_def] by blast
  let ?t = "\<lparr>slot_offset = nn, slot_length = ts\<rparr> :: Slot"
  have t: "s_off ?t = lo + 1" "s_len ?t = length td" "live ?t"
    using ts td(1) nn by (auto simp: s_off_def s_len_def live_def)
  have bel: "below ?t s" if "s \<in> set (page_slots d)" "live s" for s
    using live_slot_bounds [OF inv that] t lo8 by (simp add: below_def)
  have "layout_ok lo (page_slots d')"
    using inv t lo8 r bel live_slot_bounds [OF inv]
    by (auto simp: d' page_inv_def layout_ok_def live_pairs_append) fastforce
  then have "page_inv d'" by (simp add: page_inv_def d')
  moreover have "page_records d' = page_records d @ [Some td]"
    using slot_record_keep [OF inv _ keep] t d'(5) by (simp add: page_records_def d'(4) slot_record_def [of d' ?t])
  moreover have "page_ordered d \<longrightarrow> page_ordered d'"
    using bel by (simp add: page_ordered_def d'(4) live_pairs_append)
  moreover have "free_bytes d' = free_bytes d - (length td + 4)"
    using lo8 by (simp add: free_bytes_def d')
  ultimately show "\<exists>d'. InsertTuple td ts d = Some (Some (word_of_nat (cnt d)), d') \<and> page_inv d' \<and>
        page_records d' = page_records d @ [Some td] \<and> free_bytes d' = free_bytes d - (length td + 4) \<and>
        (page_ordered d \<longrightarrow> page_ordered d')"
    using ins by blast
next
  assume "\<not> length td + 4 \<le> free_bytes d"
  then show "InsertTuple td ts d = Some (None, d)"
    using HasEnoughSpace_iff [OF inv, of ts] ts td(2) by (simp add: InsertTuple_def)
qed

subsection \<open>GetTuple and DeleteTuple\<close>

lemma slot_id_iff: "slot_count (load_header d) \<le> i \<longleftrightarrow> cnt d \<le> unat i"
  by (simp add: word_le_nat_alt cnt_def)

lemma load_slot_inv:
  "page_inv d \<Longrightarrow> i < cnt d \<Longrightarrow> load_slot (slot_addr i) d = Some (page_slots d ! i)"
  using page_inv_room [of d] page_inv_length [of d] by (intro load_slot_page_slots) auto

text \<open>On a slot id of the page \<open>GetTuple\<close> delivers the record, and zero bytes for a deleted one.\<close>

lemma GetTuple_refines:
  assumes inv: "page_inv d" and cap: "PAGE_SIZE \<le> cap"
  shows "GetTuple cap i d = (if cnt d \<le> unat i then Some None else
    (case page_records d ! unat i of
       None \<Rightarrow> Some (Some ([], 0))
     | Some td \<Rightarrow> Some (Some (td, word_of_nat (length td)))))"
proof (cases "cnt d \<le> unat i")
  case True
  then show ?thesis by (simp add: GetTuple_def slot_id_iff)
next
  case False
  let ?s = "page_slots d ! unat i"
  have s: "?s \<in> set (page_slots d)" using False by simp
  then have b: "s_off ?s + s_len ?s \<le> PAGE_SIZE" using inv by (auto simp: page_inv_def layout_ok_def)
  have l: "length d = PAGE_SIZE" using inv by (rule page_inv_length)
  have "mem_read (unat (slot_offset ?s)) (unat (slot_length ?s)) d = Some (slice (s_off ?s) (s_len ?s) d)"
    using b l by (simp add: mem_read_def s_off_def s_len_def)
  moreover have "length (slice (s_off ?s) (s_len ?s) d) = s_len ?s" using b l by simp
  ultimately show ?thesis
    using False load_slot_inv [OF inv, of "unat i"] b cap
    by (auto simp: GetTuple_def slot_id_iff page_records_def slot_record_def s_len_def live_def
        split: option.splits)
qed

lemma DeleteTuple_refines:
  assumes inv: "page_inv d" and i: "unat i < cnt d"
  shows "\<exists>d'. DeleteTuple i d = Some (True, d') \<and> page_inv d' \<and>
    page_records d' = (page_records d)[unat i := None] \<and> fso d' = fso d \<and> cnt d' = cnt d \<and>
    (page_ordered d \<longrightarrow> page_ordered d')"
proof -
  note r = page_inv_room [OF inv] and l = page_inv_length [OF inv]
  let ?a = "slot_addr (unat i)" and ?s = "page_slots d ! unat i"
  define d' where "d' = splice_at (?a + 2) (le16 0) d"
  have a: "?a + 4 \<le> 8 + 4 * cnt d" using i by (rule slot_addr_bound)
  have ld: "load_slot ?a d' = Some (?s\<lparr>slot_length := 0\<rparr>)"
    using load_slot_inv [OF inv i] a r l unfolding d'_def by (intro load_slot_splice_length) auto
  note set = page_slots_set_slot [OF i _ _ _ ld [unfolded d'_def], folded d'_def]
  have ss: "page_slots d' = (page_slots d)[unat i := ?s\<lparr>slot_length := 0\<rparr>]"
    and h: "load_header d' = load_header d"
    using set r l by auto
  have c: "cnt d' = cnt d" and f: "fso d' = fso d" using h by (simp_all add: cnt_def fso_def)
  have l': "length d' = PAGE_SIZE" using a r l by (simp add: d'_def)
  have dead: "\<not> live (?s\<lparr>slot_length := 0\<rparr>)" by (simp add: live_def)
  have keep: "slice b n d' = slice b n d" if "fso d < b" "b + n \<le> PAGE_SIZE" for b n
    using that a r l unfolding d'_def by (intro slice_splice_at_disjoint) auto
  have "?s \<in> set (page_slots d)" using i by simp
  then have "s_off ?s \<le> PAGE_SIZE" using inv by (auto simp: page_inv_def layout_ok_def)
  then have "page_inv d'"
    using inv l' dead i unfolding page_inv_def layout_ok_def live_pairs_def ss f
    by (auto simp: nth_list_update s_off_def s_len_def dest!: set_update_subset_insert [THEN subsetD])
  moreover have "page_records d' = (page_records d)[unat i := None]"
  proof (rule nth_equalityI)
    fix j assume "j < length (page_records d')"
    then have j: "j < cnt d" by (simp add: c)
    then show "page_records d' ! j = (page_records d)[unat i := None] ! j"
      using dead i slot_record_keep [OF inv _ keep, of "page_slots d ! j"]
      by (auto simp: page_records_def ss nth_list_update slot_record_def)
  qed (simp add: c)
  moreover have "page_ordered d \<longrightarrow> page_ordered d'"
    using dead i by (auto simp: page_ordered_def ss live_pairs_def nth_list_update)
  moreover have "DeleteTuple i d = Some (True, d')"
    using i a r l by (simp add: DeleteTuple_def slot_id_iff store_slot_length_def mem_write_def d'_def)
  ultimately show ?thesis using f c by blast
qed

lemma DeleteTuple_no_slot: "cnt d \<le> unat i \<Longrightarrow> DeleteTuple i d = Some (False, d)"
  by (simp add: DeleteTuple_def slot_id_iff)

end
