(* ===== verification/Page_Compaction.thy ===== *)
theory Page_Compaction
  imports Page_Records
begin

section \<open>Compaction of a page\<close>

text \<open>
  \<open>CompactOnePage\<close> moves the live tuples to the end of the page, in slot order, each with one
  \<^verbatim>\<open>memmove\<close>. On an ordered page every tuple moves upwards into space that later slots do not
  use, so the records are kept and the free space becomes all there is.
\<close>

definition compacted :: "nat \<Rightarrow> nat \<Rightarrow> byte list \<Rightarrow> nat \<Rightarrow> byte list \<Rightarrow> bool" where
  "compacted i w d w' d' \<longleftrightarrow> length d' = PAGE_SIZE \<and> load_header d' = load_header d \<and>
     8 + 4 * cnt d \<le> w' + 1 \<and> w' + sum_list (map s_len (drop i (page_slots d))) = w \<and>
     (\<forall>j < i. page_slots d' ! j = page_slots d ! j) \<and>
     (\<forall>a m. w < a \<longrightarrow> a + m \<le> PAGE_SIZE \<longrightarrow> slice a m d' = slice a m d) \<and>
     (\<forall>j. i \<le> j \<longrightarrow> j < cnt d \<longrightarrow>
        slot_length (page_slots d' ! j) = slot_length (page_slots d ! j) \<and>
        slot_record d' (page_slots d' ! j) = slot_record d (page_slots d ! j) \<and>
        (if live (page_slots d ! j)
         then w' < s_off (page_slots d' ! j) \<and> s_off (page_slots d' ! j) + s_len (page_slots d' ! j) \<le> w + 1
         else page_slots d' ! j = page_slots d ! j)) \<and>
     (\<forall>j k. i \<le> j \<longrightarrow> j < k \<longrightarrow> k < cnt d \<longrightarrow> live (page_slots d ! j) \<longrightarrow> live (page_slots d ! k) \<longrightarrow>
        below (page_slots d' ! k) (page_slots d' ! j))"

definition compactable :: "nat \<Rightarrow> nat \<Rightarrow> byte list \<Rightarrow> bool" where
  "compactable i w d \<longleftrightarrow> length d = PAGE_SIZE \<and> i \<le> cnt d \<and> 8 + 4 * cnt d \<le> w + 1 \<and> w < PAGE_SIZE \<and>
     (\<forall>j. i \<le> j \<longrightarrow> j < cnt d \<longrightarrow> live (page_slots d ! j) \<longrightarrow>
        8 + 4 * cnt d \<le> s_off (page_slots d ! j) \<and>
        s_off (page_slots d ! j) + s_len (page_slots d ! j) \<le> w + 1) \<and>
     (\<forall>j k. i \<le> j \<longrightarrow> j < k \<longrightarrow> k < cnt d \<longrightarrow> live (page_slots d ! j) \<longrightarrow> live (page_slots d ! k) \<longrightarrow>
        below (page_slots d ! k) (page_slots d ! j))"

text \<open>One round of the loop, for any slot whose tuple lies on the page: bytes outside the slot array and
  the target keep their values.\<close>

lemma compact_step:
  assumes l: "length d = PAGE_SIZE" and i: "i < cnt d" and w: "w < PAGE_SIZE"
    and s: "s_off (page_slots d ! i) + s_len (page_slots d ! i) \<le> PAGE_SIZE"
    and new: "new + s_len (page_slots d ! i) = w + 1" and n: "8 + 4 * cnt d \<le> new"
  shows "\<exists>d1 d2. mem_move (int w - int (s_len (page_slots d ! i)) + 1) (s_off (page_slots d ! i))
      (s_len (page_slots d ! i)) d = Some d1 \<and>
    store_slot_offset (slot_addr i) (word_of_int (int w - int (s_len (page_slots d ! i)) + 1)) d1 = Some d2 \<and>
    length d2 = PAGE_SIZE \<and> load_header d2 = load_header d \<and>
    page_slots d2 = (page_slots d)[i := (page_slots d ! i)\<lparr>slot_offset := word_of_nat new\<rparr>] \<and>
    slice new (s_len (page_slots d ! i)) d2 = slice (s_off (page_slots d ! i)) (s_len (page_slots d ! i)) d \<and>
    (\<forall>a m. 8 + 4 * cnt d \<le> a \<longrightarrow> a + m \<le> PAGE_SIZE \<longrightarrow> a + m \<le> new \<or> w < a \<longrightarrow>
      slice a m d2 = slice a m d)"
proof -
  define s where "s = page_slots d ! i"
  from new have new': "new + s_len s = w + 1" by (simp add: s_def)
  then have nw: "int w - int (s_len s) + 1 = int new" by linarith
  from s have s: "s_off s + s_len s \<le> PAGE_SIZE" by (simp add: s_def)
  define bs where "bs = slice (s_off s) (s_len s) d"
  define d1 where "d1 = splice_at new bs d"
  have bl: "length bs = s_len s" using s l by (simp add: bs_def)
  have mv: "mem_move (int new) (s_off s) (s_len s) d = Some d1"
    using s w l new' bl by (simp add: mem_move_def mem_read_def mem_write_def bs_def [symmetric] d1_def)
  have b1: "new + length bs \<le> length d" using bl new' w l by simp
  have l1: "length d1 = PAGE_SIZE" using b1 l by (simp add: d1_def)
  note sp = page_slots_splice [OF n b1, folded d1_def]
  have a: "slot_addr i + 4 \<le> 8 + 4 * cnt d" using i by (rule slot_addr_bound)
  have room: "8 + 4 * cnt d \<le> PAGE_SIZE" using w n new' by simp
  define d2 where "d2 = splice_at (slot_addr i) (le16 (word_of_nat new)) d1"
  have st: "store_slot_offset (slot_addr i) (word_of_int (int new)) d1 = Some d2"
    using a room l1 by (simp add: store_slot_offset_def mem_write_def d2_def)
  have l2: "length d2 = PAGE_SIZE" using a room l1 by (simp add: d2_def)
  have ld: "load_slot (slot_addr i) d1 = Some s"
    using load_slot_page_slots [OF l1, of i] sp i room by (simp add: s_def)
  have ld2: "load_slot (slot_addr i) d2 = Some (s\<lparr>slot_offset := word_of_nat new\<rparr>)"
    unfolding d2_def using a room l1 ld by (intro load_slot_splice_offset) auto
  have ss: "page_slots d2 = (page_slots d1)[i := s\<lparr>slot_offset := word_of_nat new\<rparr>]"
      "load_header d2 = load_header d1"
    using page_slots_set_slot [of i d1 "slot_addr i" "le16 (word_of_nat new)", folded d2_def, OF _ _ _ _ ld2]
      i sp room l1 by auto
  have hi: "slice b m d2 = slice b m d1" if "8 + 4 * cnt d \<le> b" "b + m \<le> PAGE_SIZE" for b m
    unfolding d2_def using that a l1 by (intro slice_splice_at_disjoint) auto
  have "slice new (s_len s) d2 = bs"
    using hi [of new "s_len s"] n new' w b1 bl by (simp add: d1_def slice_splice_at_same)
  moreover have "slice b m d2 = slice b m d"
    if "8 + 4 * cnt d \<le> b" "b + m \<le> PAGE_SIZE" "b + m \<le> new \<or> w < b" for b m
    using hi [OF that(1,2)] that b1 bl new' l
    by (auto simp: d1_def slice_splice_at_disjoint)
  ultimately show ?thesis
    using mv st l2 ss sp nw by (fold s_def) (auto simp: bs_def)
qed

text \<open>The loop's unfolding at a slot of the page.\<close>

lemma compact_loop_slot:
  assumes l: "length d = PAGE_SIZE" and room: "8 + 4 * cnt d \<le> PAGE_SIZE" and i: "i < cnt d"
  shows "compact_loop i (int w) d = (if slot_length (page_slots d ! i) = 0 then compact_loop (i + 1) (int w) d
      else do {
        d1 \<leftarrow> mem_move (int w - int (s_len (page_slots d ! i)) + 1) (s_off (page_slots d ! i))
          (s_len (page_slots d ! i)) d;
        d2 \<leftarrow> store_slot_offset (slot_addr i) (word_of_int (int w - int (s_len (page_slots d ! i)) + 1)) d1;
        compact_loop (i + 1) (int w - int (s_len (page_slots d ! i)) + 1 - 1) d2 })"
proof -
  have ld: "load_slot (slot_addr i) d = Some (page_slots d ! i)"
    using l room i by (intro load_slot_page_slots) auto
  have ii: "unat (word_of_nat i :: u16) = i" using i cnt_bound [of d] by (simp add: unat_u16_of_nat)
  have fs: "fetchSlot (word_of_nat i) d = Some (slot_addr i)"
    using i ii by (simp add: fetchSlot_def slot_id_iff)
  show ?thesis using i by (subst compact_loop.simps) (simp add: cnt_def fs ld s_len_def s_off_def)
qed

lemma slot_record_dead [simp]: "\<not> live s \<Longrightarrow> slot_record d s = None"
  by (simp add: slot_record_def)

lemma compacted_slot:
  assumes "compacted i w d w' d'" and "i \<le> j" and "j < cnt d"
  shows "slot_length (page_slots d' ! j) = slot_length (page_slots d ! j)"
    and "slot_record d' (page_slots d' ! j) = slot_record d (page_slots d ! j)"
    and "if live (page_slots d ! j)
         then w' < s_off (page_slots d' ! j) \<and> s_off (page_slots d' ! j) + s_len (page_slots d' ! j) \<le> w + 1
         else page_slots d' ! j = page_slots d ! j"
  using assms unfolding compacted_def by blast+

lemma compacted_pair:
  "compacted i w d w' d' \<Longrightarrow> i \<le> j \<Longrightarrow> j < k \<Longrightarrow> k < cnt d \<Longrightarrow> live (page_slots d ! j) \<Longrightarrow>
    live (page_slots d ! k) \<Longrightarrow> below (page_slots d' ! k) (page_slots d' ! j)"
  unfolding compacted_def by blast

lemma compacted_dead:
  assumes cp: "compacted (i + 1) w d w' d'" and i: "i < cnt d" and dead: "\<not> live (page_slots d ! i)"
  shows "compacted i w d w' d'"
proof -
  have eq: "page_slots d' ! i = page_slots d ! i" using cp by (simp add: compacted_def)
  have drop_i: "drop i (page_slots d) = page_slots d ! i # drop (i + 1) (page_slots d)"
    using i by (simp add: Cons_nth_drop_Suc)
  have z: "s_len (page_slots d ! i) = 0" using dead by (simp add: s_len_pos)
  show ?thesis
    unfolding compacted_def
  proof (intro conjI allI impI)
    fix j assume j: "i \<le> j" "j < cnt d"
    then show "slot_length (page_slots d' ! j) = slot_length (page_slots d ! j)"
      "slot_record d' (page_slots d' ! j) = slot_record d (page_slots d ! j)"
      "if live (page_slots d ! j)
         then w' < s_off (page_slots d' ! j) \<and> s_off (page_slots d' ! j) + s_len (page_slots d' ! j) \<le> w + 1
         else page_slots d' ! j = page_slots d ! j"
      using compacted_slot [OF cp _ j(2)] dead eq by (cases "j = i"; simp)+
  next
    fix j k assume "i \<le> j" "j < k" "k < cnt d" "live (page_slots d ! j)" "live (page_slots d ! k)"
    moreover from this dead have "i + 1 \<le> j" by (cases "i = j") auto
    ultimately show "below (page_slots d' ! k) (page_slots d' ! j)" using compacted_pair [OF cp] by blast
  qed (use cp z in \<open>simp_all add: compacted_def drop_i\<close>)
qed

lemma compacted_live:
  assumes c: "compactable i w d" and i: "i < cnt d" and lv: "live (page_slots d ! i)"
    and new: "new + s_len (page_slots d ! i) = w + 1"
    and h2: "load_header d2 = load_header d" and l2: "length d2 = PAGE_SIZE"
    and ss2: "page_slots d2 = (page_slots d)[i := (page_slots d ! i)\<lparr>slot_offset := word_of_nat new\<rparr>]"
    and mv: "slice new (s_len (page_slots d ! i)) d2 = slice (s_off (page_slots d ! i)) (s_len (page_slots d ! i)) d"
    and keep: "\<forall>a m. 8 + 4 * cnt d \<le> a \<longrightarrow> a + m \<le> PAGE_SIZE \<longrightarrow> a + m \<le> new \<or> w < a \<longrightarrow>
      slice a m d2 = slice a m d"
  shows "compactable (i + 1) (new - 1) d2"
    and "compacted (i + 1) (new - 1) d2 w' d' \<Longrightarrow> compacted i w d w' d'"
proof -
  let ?s = "page_slots d ! i" and ?t = "(page_slots d ! i)\<lparr>slot_offset := word_of_nat new\<rparr>"
  have w: "8 + 4 * cnt d \<le> w + 1" "w < PAGE_SIZE" using c by (auto simp: compactable_def)
  have s: "8 + 4 * cnt d \<le> s_off ?s" "s_off ?s + s_len ?s \<le> w + 1"
    using c i lv unfolding compactable_def by blast+
  have nb: "s_off ?s \<le> new" "8 + 4 * cnt d \<le> new" "new \<le> w + 1" using s new by linarith+
  have cnt2: "cnt d2 = cnt d" using h2 by (simp add: cnt_def)
  have t: "s_off ?t = new" "s_len ?t = s_len ?s" "live ?t"
    using nb w lv by (auto simp: s_off_def s_len_def live_def unat_u16_of_nat PAGE_SIZE_def)
  have nth2: "page_slots d2 ! j = (if j = i then ?t else page_slots d ! j)" if "j < cnt d" for j
    using that i by (simp add: ss2)
  have later: "s_off (page_slots d ! j) + s_len (page_slots d ! j) \<le> new"
      "8 + 4 * cnt d \<le> s_off (page_slots d ! j)"
    if "i < j" "j < cnt d" "live (page_slots d ! j)" for j
  proof -
    have "below (page_slots d ! j) ?s" using c that lv unfolding compactable_def by blast
    then show "s_off (page_slots d ! j) + s_len (page_slots d ! j) \<le> new"
      using nb(1) by (simp add: below_def)
    show "8 + 4 * cnt d \<le> s_off (page_slots d ! j)"
      using c that unfolding compactable_def by (meson less_imp_le)
  qed
  show "compactable (i + 1) (new - 1) d2"
    unfolding compactable_def
  proof (intro conjI allI impI)
    fix j assume "i + 1 \<le> j" "j < cnt d2" "live (page_slots d2 ! j)"
    then show "8 + 4 * cnt d2 \<le> s_off (page_slots d2 ! j)"
      "s_off (page_slots d2 ! j) + s_len (page_slots d2 ! j) \<le> new - 1 + 1"
      using later [of j] nb by (simp_all add: cnt2 nth2)
  next
    fix j k assume "i + 1 \<le> j" "j < k" "k < cnt d2" "live (page_slots d2 ! j)" "live (page_slots d2 ! k)"
    then show "below (page_slots d2 ! k) (page_slots d2 ! j)"
      using c by (simp add: cnt2 nth2 compactable_def)
  qed (use nb w i l2 in \<open>simp_all add: cnt2\<close>)
  assume cp: "compacted (i + 1) (new - 1) d2 w' d'"
  have eqi: "page_slots d' ! i = ?t" using cp nth2 [OF i] by (simp add: compacted_def)
  have w': "w' + sum_list (map s_len (drop (i + 1) (page_slots d))) = new - 1"
    using cp by (simp add: compacted_def ss2)
  have drop_i: "drop i (page_slots d) = ?s # drop (i + 1) (page_slots d)"
    using i by (simp add: Cons_nth_drop_Suc)
  have sl': "slice a m d' = slice a m d2" if "new \<le> a" "a + m \<le> PAGE_SIZE" for a m
    using cp that nb unfolding compacted_def by auto
  have rec_i: "slot_record d' ?t = slot_record d ?s"
    using sl' [of new "s_len ?s"] mv lv t new w by (simp add: slot_record_def)
  have rec_j: "slot_record d2 (page_slots d ! j) = slot_record d (page_slots d ! j)"
    if "i < j" "j < cnt d" for j
    using later [OF that] keep [rule_format, of "s_off (page_slots d ! j)" "s_len (page_slots d ! j)"] nb w
    by (cases "live (page_slots d ! j)") (auto simp: slot_record_def)
  show "compacted i w d w' d'"
    unfolding compacted_def
  proof (intro conjI allI impI)
    show "w' + sum_list (map s_len (drop i (page_slots d))) = w"
      using w' new nb unfolding drop_i by simp
    fix j assume "j < i"
    then show "page_slots d' ! j = page_slots d ! j"
      using cp i nth2 [of j] by (simp add: compacted_def)
  next
    fix a m assume "w < a" "a + m \<le> PAGE_SIZE"
    then show "slice a m d' = slice a m d" using sl' [of a m] keep [rule_format, of a m] nb w by simp
  next
    fix j assume j: "i \<le> j" "j < cnt d"
    have "slot_length (page_slots d' ! j) = slot_length (page_slots d ! j) \<and>
      slot_record d' (page_slots d' ! j) = slot_record d (page_slots d ! j) \<and>
      (if live (page_slots d ! j)
       then w' < s_off (page_slots d' ! j) \<and> s_off (page_slots d' ! j) + s_len (page_slots d' ! j) \<le> w + 1
       else page_slots d' ! j = page_slots d ! j)"
    proof (cases "j = i")
      case True
      then show ?thesis using eqi rec_i w' nb new lv t by simp
    next
      case False
      then have j': "i + 1 \<le> j" "j < cnt d2" "i < j" using j cnt2 by auto
      have eq: "page_slots d2 ! j = page_slots d ! j" using False j nth2 by simp
      note cs = compacted_slot [OF cp j'(1,2), unfolded eq rec_j [OF j'(3) j(2)]]
      have "new - 1 + 1 \<le> w + 1" using nb by simp
      then show ?thesis using cs by (auto split: if_splits)
    qed
    then show "slot_length (page_slots d' ! j) = slot_length (page_slots d ! j)"
      "slot_record d' (page_slots d' ! j) = slot_record d (page_slots d ! j)"
      "if live (page_slots d ! j)
         then w' < s_off (page_slots d' ! j) \<and> s_off (page_slots d' ! j) + s_len (page_slots d' ! j) \<le> w + 1
         else page_slots d' ! j = page_slots d ! j"
      by blast+
  next
    fix j k assume jk: "i \<le> j" "j < k" "k < cnt d" "live (page_slots d ! j)" "live (page_slots d ! k)"
    then have k: "page_slots d2 ! k = page_slots d ! k" using nth2 [of k] by simp
    show "below (page_slots d' ! k) (page_slots d' ! j)"
    proof (cases "j = i")
      case True
      have "s_off (page_slots d' ! k) + s_len (page_slots d' ! k) \<le> new - 1 + 1"
        using cp jk True k cnt2 unfolding compacted_def by (metis Suc_eq_plus1 Suc_leI)
      then show ?thesis using True eqi t nb by (simp add: below_def)
    next
      case False
      then have "page_slots d2 ! j = page_slots d ! j" using jk nth2 [of j] by simp
      then show ?thesis using cp jk False k cnt2 unfolding compacted_def
        by (metis Suc_eq_plus1 Suc_leI le_neq_implies_less)
    qed
  qed (use cp h2 cnt2 nb in \<open>simp_all add: compacted_def\<close>)
qed

lemma compact_loop_spec:
  assumes "compactable i w d"
  shows "\<exists>w' d'. compact_loop i (int w) d = Some (int w', d') \<and> compacted i w d w' d'"
  using assms
proof (induction "cnt d - i" arbitrary: i w d)
  case 0
  then have i: "\<not> i < cnt d" "i = cnt d" by (auto simp: compactable_def)
  then have "compact_loop i (int w) d = Some (int w, d)"
    by (subst compact_loop.simps) (simp add: cnt_def)
  moreover have "compacted i w d w d"
    using 0 i(2) by (auto simp: compacted_def compactable_def)
  ultimately show ?case by blast
next
  case (Suc x)
  let ?s = "page_slots d ! i"
  from Suc.hyps(2) have i: "i < cnt d" by simp
  from Suc.prems have l: "length d = PAGE_SIZE" and w: "8 + 4 * cnt d \<le> w + 1" "w < PAGE_SIZE"
    by (auto simp: compactable_def)
  have "8 + 4 * cnt d \<le> PAGE_SIZE" using w by simp
  note unfold = compact_loop_slot [OF l this i, of w]
  have x: "x = cnt d - (i + 1)" using Suc.hyps(2) by simp
  show ?case
  proof (cases "live ?s")
    case False
    have "compactable (i + 1) w d" using Suc.prems i unfolding compactable_def by auto
    from Suc.hyps(1) [OF x this] obtain w' d'
      where "compact_loop (i + 1) (int w) d = Some (int w', d')" "compacted (i + 1) w d w' d'" by blast
    then show ?thesis
      using False compacted_dead [OF _ i False] unfold by (auto simp: live_def)
  next
    case True
    have "s_off ?s + s_len ?s \<le> w + 1" "8 + 4 * cnt d \<le> s_off ?s"
      using Suc.prems i True unfolding compactable_def by blast+
    moreover define new where "new = w + 1 - s_len ?s"
    ultimately have new: "new + s_len ?s = w + 1" "8 + 4 * cnt d \<le> new" "s_off ?s + s_len ?s \<le> PAGE_SIZE"
      using w by linarith+
    obtain d1 d2 where m: "mem_move (int w - int (s_len ?s) + 1) (s_off ?s) (s_len ?s) d = Some d1"
        "store_slot_offset (slot_addr i) (word_of_int (int w - int (s_len ?s) + 1)) d1 = Some d2"
      and l2: "length d2 = PAGE_SIZE" and h2: "load_header d2 = load_header d"
      and ss: "page_slots d2 = (page_slots d)[i := ?s\<lparr>slot_offset := word_of_nat new\<rparr>]"
      and mv: "slice new (s_len ?s) d2 = slice (s_off ?s) (s_len ?s) d"
      and keep: "\<forall>a m. 8 + 4 * cnt d \<le> a \<longrightarrow> a + m \<le> PAGE_SIZE \<longrightarrow> a + m \<le> new \<or> w < a \<longrightarrow>
        slice a m d2 = slice a m d"
      using compact_step [OF l i w(2) new(3,1,2)] by blast
    note cl = compacted_live [OF Suc.prems i True new(1) h2 l2 ss mv keep]
    have "x = cnt d2 - (i + 1)" using x h2 by (simp add: cnt_def)
    from Suc.hyps(1) [OF this cl(1)] obtain w' d'
      where r: "compact_loop (i + 1) (int (new - 1)) d2 = Some (int w', d')"
        and cp: "compacted (i + 1) (new - 1) d2 w' d'" by blast
    have "int w - int (s_len ?s) + 1 - 1 = int (new - 1)" using new by linarith
    then have "compact_loop i (int w) d = Some (int w', d')"
      using True unfold m r by (simp add: live_def)
    with cl(2) [OF cp] show ?thesis by blast
  qed
qed

subsection \<open>CompactOnePage keeps the records of an ordered page\<close>

definition used_bytes :: "byte list \<Rightarrow> nat" where
  "used_bytes d = sum_list (map s_len (page_slots d))"

lemma page_inv_compactable:
  assumes "page_inv d" and "page_ordered d"
  shows "compactable 0 (PAGE_SIZE - 1) d"
proof -
  note r = page_inv_room [OF assms(1)]
  have b: "fso d < s_off (page_slots d ! j) \<and> s_off (page_slots d ! j) + s_len (page_slots d ! j) \<le> PAGE_SIZE"
    if "j < cnt d" "live (page_slots d ! j)" for j
    using live_slot_bounds [OF assms(1) _ that(2)] that(1) by simp
  show ?thesis
    unfolding compactable_def
  proof (intro conjI allI impI)
    fix j assume "j < cnt d" "live (page_slots d ! j)"
    then show "8 + 4 * cnt d \<le> s_off (page_slots d ! j)"
      "s_off (page_slots d ! j) + s_len (page_slots d ! j) \<le> PAGE_SIZE - 1 + 1"
      using b [of j] r by linarith+
  next
    fix j k assume "j < k" "k < cnt d" "live (page_slots d ! j)" "live (page_slots d ! k)"
    then show "below (page_slots d ! k) (page_slots d ! j)"
      using assms(2) by (simp add: page_ordered_def live_pairs_def)
  qed (use r page_inv_length [OF assms(1)] in auto)
qed

text \<open>After the loop only the free space offset is written.\<close>

lemma compact_finish:
  assumes run: "compact_loop 0 (int (PAGE_SIZE - 1)) d = Some (int w, d1)" and l1: "length d1 = PAGE_SIZE"
    and w: "w < PAGE_SIZE"
  shows "\<exists>d'. CompactOnePage d = Some d' \<and> length d' = PAGE_SIZE \<and> fso d' = w \<and> cnt d' = cnt d1 \<and>
    page_slots d' = page_slots d1 \<and> (\<forall>a m. 8 \<le> a \<longrightarrow> a + m \<le> PAGE_SIZE \<longrightarrow> slice a m d' = slice a m d1)"
proof -
  define d' where "d' = store_header ((load_header d1)\<lparr>free_space_offset := word_of_int (int w)\<rparr>) d1"
  have start: "int PAGE_SIZE - 1 = int (PAGE_SIZE - 1)" by (simp add: PAGE_SIZE_def)
  have c: "CompactOnePage d = Some d'" unfolding CompactOnePage_def start run by (simp add: d'_def)
  have l': "length d' = PAGE_SIZE" using l1 by (simp add: d'_def)
  have f': "fso d' = w" and c': "cnt d' = cnt d1"
    unfolding d'_def store_header_counts [OF l1] using w by (simp_all add: unat_u16_of_nat PAGE_SIZE_def cnt_def)
  have "page_slots d' = page_slots d1"
    unfolding page_slots_def c' using l1 by (simp add: d'_def load_slot_store_header)
  moreover have "slice a m d' = slice a m d1" if "8 \<le> a" "a + m \<le> PAGE_SIZE" for a m
    unfolding d'_def using that l1 by (intro slice_store_header)
  ultimately show ?thesis using c l' f' c' by blast
qed

lemma CompactOnePage_spec:
  assumes inv: "page_inv d" and ord: "page_ordered d"
  shows "\<exists>d'. CompactOnePage d = Some d' \<and> page_inv d' \<and> page_ordered d' \<and>
    page_records d' = page_records d \<and>
    fso d' + used_bytes d + 1 = PAGE_SIZE"
proof -
  note r = page_inv_room [OF inv]
  obtain w d1 where run: "compact_loop 0 (int (PAGE_SIZE - 1)) d = Some (int w, d1)"
    and cp: "compacted 0 (PAGE_SIZE - 1) d w d1"
    using compact_loop_spec [OF page_inv_compactable [OF inv ord]] by blast
  have l1: "length d1 = PAGE_SIZE" and h1: "load_header d1 = load_header d"
    and w: "8 + 4 * cnt d \<le> w + 1" "w + used_bytes d = PAGE_SIZE - 1"
    using cp unfolding compacted_def used_bytes_def drop_0 by blast+
  have wb: "w < PAGE_SIZE" using w(2) by (auto simp: PAGE_SIZE_def)
  have c1: "cnt d1 = cnt d" using h1 by (simp add: cnt_def)
  obtain d' where c: "CompactOnePage d = Some d'" and l': "length d' = PAGE_SIZE" and f': "fso d' = w"
    and c': "cnt d' = cnt d" and s': "page_slots d' = page_slots d1"
    and sl: "\<And>a m. 8 \<le> a \<Longrightarrow> a + m \<le> PAGE_SIZE \<Longrightarrow> slice a m d' = slice a m d1"
    using compact_finish [OF run l1 wb] c1 by auto
  have pos: "if live (page_slots d ! j)
       then w < s_off (page_slots d1 ! j) \<and> s_off (page_slots d1 ! j) + s_len (page_slots d1 ! j) \<le> PAGE_SIZE
       else page_slots d1 ! j = page_slots d ! j" if "j < cnt d" for j
    using compacted_slot(3) [OF cp _ that] by (simp add: PAGE_SIZE_def split: if_splits)
  have lv: "live (page_slots d1 ! j) = live (page_slots d ! j)" if "j < cnt d" for j
    using compacted_slot(1) [OF cp _ that] by (simp add: live_def)
  have dead: "s_off s + s_len s \<le> PAGE_SIZE" if "s \<in> set (page_slots d)" for s
    using inv that by (auto simp: page_inv_def layout_ok_def)
  have rec': "slot_record d' (page_slots d' ! j) = slot_record d (page_slots d ! j)" if "j < cnt d" for j
  proof (cases "live (page_slots d ! j)")
    case True
    then have "slot_record d' (page_slots d1 ! j) = slot_record d1 (page_slots d1 ! j)"
      using pos [OF that] w by (auto simp: slot_record_def sl)
    then show ?thesis using compacted_slot(2) [OF cp _ that] s' by simp
  qed (use lv that s' in simp)
  have ordered: "live_pairs (\<lambda>s t. below t s) (page_slots d')"
    using compacted_pair [OF cp] lv c1 by (auto simp: live_pairs_def s')
  have "layout_ok (fso d') (page_slots d')"
    unfolding layout_ok_def f'
  proof (intro conjI ballI)
    fix s assume "s \<in> set (page_slots d')"
    then obtain j where j: "j < cnt d" "s = page_slots d1 ! j" by (auto simp: s' in_set_conv_nth c1)
    then show "s_off s + s_len s \<le> PAGE_SIZE" "live s \<longrightarrow> w < s_off s"
      using pos [OF j(1)] lv [OF j(1)] dead [of "page_slots d ! j"] by (auto split: if_splits)
  qed (use ordered w wb c1 in \<open>auto simp: s' live_pairs_def\<close>)
  then have "page_inv d'" using l' by (simp add: page_inv_def)
  moreover have "page_records d' = page_records d"
    using rec' c' by (intro page_records_cong) auto
  ultimately show ?thesis using c ordered f' w(2) by (auto simp: page_ordered_def PAGE_SIZE_def)
qed

end
