(* ===== verification/Slotted_Page.thy ===== *)
theory Slotted_Page
  imports Page_Compaction
begin

section \<open>The contract of a slotted page\<close>

text \<open>
  What the record manager relies on, independent of the byte layout: a page is a list of records
  with holes; insertion appends, deletion makes a hole, compaction changes nothing but the free
  space. A record's slot id never changes. The derived laws say the same of the finite map from
  slot ids to records.
\<close>

definition lookup_rec :: "'r option list \<Rightarrow> nat \<Rightarrow> 'r option" where
  "lookup_rec rs i = (if i < length rs then rs ! i else None)"

lemma lookup_rec_append: "lookup_rec (rs @ [Some r]) = (lookup_rec rs)(length rs \<mapsto> r)"
  by (auto simp: lookup_rec_def fun_eq_iff nth_append)

lemma lookup_rec_delete: "lookup_rec (rs[i := None]) = (lookup_rec rs)(i := None)"
  by (auto simp: lookup_rec_def fun_eq_iff nth_list_update)

lemma lookup_rec_update: "i < length rs \<Longrightarrow> lookup_rec (rs[i := Some r]) = (lookup_rec rs)(i \<mapsto> r)"
  by (auto simp: lookup_rec_def fun_eq_iff nth_list_update)

lemma lookup_rec_fresh [simp]: "lookup_rec rs (length rs) = None"
  by (simp add: lookup_rec_def)

locale slotted_page =
  fixes fits :: "'r \<Rightarrow> 'p \<Rightarrow> bool"
    and ins :: "'r \<Rightarrow> 'p \<Rightarrow> ('i option \<times> 'p) option"
    and del :: "'i \<Rightarrow> 'p \<Rightarrow> (bool \<times> 'p) option"
    and compact :: "'p \<Rightarrow> 'p option"
    and recs :: "'p \<Rightarrow> 'r option list"
    and idx :: "'i \<Rightarrow> nat"
    and ok :: "'p \<Rightarrow> bool"
    and storable :: "'r \<Rightarrow> bool"
    and space :: "'r \<Rightarrow> 'r option list \<Rightarrow> bool"
  assumes ins_law: "ok p \<Longrightarrow> storable r \<Longrightarrow> fits r p \<Longrightarrow>
      \<exists>i p'. ins r p = Some (Some i, p') \<and> idx i = length (recs p) \<and> ok p' \<and> recs p' = recs p @ [Some r]"
    and full_law: "ok p \<Longrightarrow> storable r \<Longrightarrow> \<not> fits r p \<Longrightarrow> ins r p = Some (None, p)"
    and del_law: "ok p \<Longrightarrow> idx i < length (recs p) \<Longrightarrow>
      \<exists>p'. del i p = Some (True, p') \<and> ok p' \<and> recs p' = (recs p)[idx i := None]"
    and del_out: "ok p \<Longrightarrow> length (recs p) \<le> idx i \<Longrightarrow> del i p = Some (False, p)"
    and compact_law: "ok p \<Longrightarrow>
      \<exists>p'. compact p = Some p' \<and> ok p' \<and> recs p' = recs p \<and>
        (\<forall>r. storable r \<longrightarrow> (fits r p \<longrightarrow> fits r p') \<and> (fits r p' \<longleftrightarrow> space r (recs p)))"
begin

lemma ins_lookup:
  assumes "ok p" and "storable r" and "fits r p"
  obtains i p' where "ins r p = Some (Some i, p')" and "ok p'"
    and "lookup_rec (recs p) (idx i) = None" and "lookup_rec (recs p') = (lookup_rec (recs p))(idx i \<mapsto> r)"
    and "recs p' = recs p @ [Some r]" and "idx i = length (recs p)"
  using ins_law [OF assms] by (auto simp: lookup_rec_append)

lemma del_lookup:
  assumes "ok p"
  obtains b p' where "del i p = Some (b, p')" and "b \<longleftrightarrow> idx i < length (recs p)" and "ok p'"
    and "recs p' = (recs p)[idx i := None]" and "lookup_rec (recs p') = (lookup_rec (recs p))(idx i := None)"
proof (cases "idx i < length (recs p)")
  case True
  from del_law [OF assms True] show ?thesis by (auto simp: lookup_rec_delete True intro: that)
next
  case False
  then have "(recs p)[idx i := None] = recs p" by (simp add: list_update_beyond)
  with False del_out [OF assms] show ?thesis
    by (intro that [of False p]) (auto simp: assms lookup_rec_def fun_eq_iff)
qed

text \<open>Compacting first never loses an insertion that would have fitted, and gains all that the records leave space for.\<close>

lemma compact_then_ins:
  assumes "ok p" and "storable r"
  obtains p' where "compact p = Some p'" and "ok p'" and "recs p' = recs p" and "fits r p \<Longrightarrow> fits r p'"
    and "fits r p' \<longleftrightarrow> space r (recs p)"
    and "fits r p' \<Longrightarrow> \<exists>i q. ins r p' = Some (Some i, q) \<and> idx i = length (recs p) \<and> ok q \<and> recs q = recs p @ [Some r]"
proof -
  from compact_law [OF assms(1)] assms(2) obtain p'
    where p': "compact p = Some p'" "ok p'" "recs p' = recs p" "fits r p \<longrightarrow> fits r p'" "fits r p' \<longleftrightarrow> space r (recs p)" by blast
  show ?thesis
    by (rule that [OF p'(1-3)]) (use p' ins_law [OF p'(2) assms(2)] in auto)
qed

lemma fits_space:
  assumes "ok p" and "storable r" and "fits r p"
  shows "space r (recs p)"
  using compact_law [OF assms(1)] assms(2,3) by blast

end

subsection \<open>The page data manager provides it\<close>

definition page_good :: "byte list \<Rightarrow> bool" where
  "page_good d \<longleftrightarrow> page_inv d \<and> page_ordered d"

text \<open>A record that can be stored: not empty, and below the sizes at which the space check wraps.\<close>

definition storable_tuple :: "byte list \<Rightarrow> bool" where
  "storable_tuple td \<longleftrightarrow> 0 < length td \<and> length td < 65532"

lemma storable_size: "storable_tuple td \<Longrightarrow> unat (word_of_nat (length td) :: u16) = length td"
  by (simp add: storable_tuple_def unat_u16_of_nat)

lemma live_pairs_Cons:
  "live_pairs R (s # ss) \<longleftrightarrow> live_pairs R ss \<and> (live s \<longrightarrow> (\<forall>t \<in> set ss. live t \<longrightarrow> R s t))"
proof
  assume r: "live_pairs R (s # ss)"
  have "R (ss ! i) (ss ! j)" if "i < j" "j < length ss" "live (ss ! i)" "live (ss ! j)" for i j
    using r that unfolding live_pairs_def by (metis Suc_less_eq length_Cons nth_Cons_Suc)
  moreover have "R s (ss ! j)" if "live s" "j < length ss" "live (ss ! j)" for j
    using r that unfolding live_pairs_def by (metis Suc_less_eq length_Cons nth_Cons_0 nth_Cons_Suc zero_less_Suc)
  ultimately show "live_pairs R ss \<and> (live s \<longrightarrow> (\<forall>t \<in> set ss. live t \<longrightarrow> R s t))"
    by (auto simp: live_pairs_def all_set_conv_all_nth)
next
  assume r: "live_pairs R ss \<and> (live s \<longrightarrow> (\<forall>t \<in> set ss. live t \<longrightarrow> R s t))"
  show "live_pairs R (s # ss)"
    unfolding live_pairs_def
  proof (intro allI impI)
    fix i j assume "i < j" "j < length (s # ss)" "live ((s # ss) ! i)" "live ((s # ss) ! j)"
    with r show "R ((s # ss) ! i) ((s # ss) ! j)"
      by (cases i; cases j) (auto simp: live_pairs_def)
  qed
qed

text \<open>Live tuples packed between two bounds use at most the bytes between them.\<close>

lemma used_bytes_between:
  assumes "live_pairs (\<lambda>s t. below t s) ss" and "lo \<le> hi"
    and "\<forall>s \<in> set ss. live s \<longrightarrow> lo < s_off s \<and> s_off s + s_len s \<le> hi + 1"
  shows "lo + sum_list (map s_len ss) \<le> hi"
  using assms
proof (induction ss arbitrary: hi)
  case (Cons s ss)
  show ?case
  proof (cases "live s")
    case False
    with Cons show ?thesis by (simp add: live_pairs_Cons s_len_pos)
  next
    case True
    with Cons.prems have s: "lo < s_off s" "s_off s + s_len s \<le> hi + 1" by auto
    have "lo + sum_list (map s_len ss) \<le> s_off s - 1"
      by (rule Cons.IH) (use Cons.prems True s in \<open>auto simp: live_pairs_Cons below_def\<close>)
    with s show ?thesis by simp
  qed
qed simp

definition record_bytes :: "byte list option list \<Rightarrow> nat" where
  "record_bytes rs = sum_list (map (\<lambda>r. case r of None \<Rightarrow> 0 | Some td \<Rightarrow> length td) rs)"

lemma used_bytes_records:
  assumes inv: "page_inv d"
  shows "used_bytes d = record_bytes (page_records d)"
proof -
  have "s_len s = (case slot_record d s of None \<Rightarrow> 0 | Some td \<Rightarrow> length td)" if "s \<in> set (page_slots d)" for s
    using live_slot_bounds [OF inv that] page_inv_length [OF inv] s_len_pos [of s]
    by (auto simp: slot_record_def)
  then show ?thesis
    by (simp add: used_bytes_def record_bytes_def page_records_def comp_def cong: map_cong)
qed

text \<open>What a list of records and one more would take of a page, and whether that is too much.\<close>

definition room_for :: "nat \<Rightarrow> byte list option list \<Rightarrow> bool" where
  "room_for n rs \<longleftrightarrow> 8 + 4 * (length rs + 1) + record_bytes rs + n \<le> PAGE_SIZE"

lemma room_for_compacted:
  assumes inv: "page_inv d" and ord: "page_ordered d" and c: "CompactOnePage d = Some d'"
  shows "n + 4 \<le> free_bytes d' \<longleftrightarrow> room_for n (page_records d)"
proof -
  from CompactOnePage_spec [OF inv ord] c have d': "page_inv d'" "page_records d' = page_records d"
    "fso d' + used_bytes d + 1 = PAGE_SIZE" by auto
  have "cnt d' = cnt d" using d'(2) by (metis length_page_records)
  with d' page_inv_room [OF d'(1)] show ?thesis
    unfolding room_for_def used_bytes_records [OF inv, symmetric] by (auto simp: free_bytes_def)
qed

lemma free_after_compact:
  assumes inv: "page_inv d" and ord: "page_ordered d" and c: "CompactOnePage d = Some d'"
  shows "free_bytes d \<le> free_bytes d'"
proof -
  from CompactOnePage_spec [OF inv ord] c
  have d': "fso d' + used_bytes d + 1 = PAGE_SIZE" "length (page_records d') = length (page_records d)" by auto
  then have cnt: "cnt d' = cnt d" by simp
  have "fso d + used_bytes d + 1 \<le> PAGE_SIZE"
  proof -
    have "fso d + sum_list (map s_len (page_slots d)) \<le> PAGE_SIZE - 1"
      by (rule used_bytes_between)
        (use ord page_inv_room [OF inv] live_slot_bounds [OF inv] in \<open>auto simp: page_ordered_def\<close>)
    then show ?thesis by (simp add: used_bytes_def PAGE_SIZE_def)
  qed
  then show ?thesis using d'(1) cnt by (simp add: free_bytes_def)
qed

lemma page_good_compact:
  assumes "page_good d"
  shows "\<exists>d'. CompactOnePage d = Some d' \<and> page_good d' \<and> page_records d' = page_records d \<and>
    free_bytes d \<le> free_bytes d' \<and> (\<forall>n. n + 4 \<le> free_bytes d' \<longleftrightarrow> room_for n (page_records d))"
proof -
  from assms have g: "page_inv d" "page_ordered d" by (simp_all add: page_good_def)
  from CompactOnePage_spec [OF g] obtain d' where
    "CompactOnePage d = Some d'" "page_inv d'" "page_ordered d'" "page_records d' = page_records d" by blast
  with free_after_compact [OF g] room_for_compacted [OF g] show ?thesis by (auto simp: page_good_def)
qed

interpretation slotted: slotted_page
  "\<lambda>td d. length td + 4 \<le> free_bytes d" "\<lambda>td. InsertTuple td (word_of_nat (length td))" DeleteTuple
  CompactOnePage page_records unat page_good storable_tuple "\<lambda>td. room_for (length td)"
proof (unfold_locales, goal_cases)
  case (1 p r)
  then have g: "page_inv p" "r \<noteq> []" "length r < 65532" by (auto simp: page_good_def storable_tuple_def)
  from InsertTuple_refines(1) [OF g(1) storable_size [OF 1(2)] g(2,3) 1(3)] obtain d'
    where d': "InsertTuple r (word_of_nat (length r)) p = Some (Some (word_of_nat (cnt p)), d')" "page_inv d'"
      "page_records d' = page_records p @ [Some r]" "page_ordered p \<longrightarrow> page_ordered d'" by blast
  have "unat (word_of_nat (cnt p) :: u16) = cnt p" using cnt_bound by (simp add: unat_u16_of_nat)
  with d' 1(1) show ?case by (auto simp: page_good_def)
next
  case (2 p r)
  then show ?case
    using InsertTuple_refines(2) [of p _ r] storable_size [OF 2(2)] by (auto simp: page_good_def storable_tuple_def)
next
  case (3 p i)
  then show ?case using DeleteTuple_refines [of p i] by (auto simp: page_good_def)
next
  case (4 p i)
  then show ?case by (simp add: DeleteTuple_no_slot)
next
  case (5 p)
  from page_good_compact [OF this] show ?case by (meson order_trans)
qed

end
