(* ===== verification/Record_Manager.thy ===== *)
theory Record_Manager
  imports Pool_Protocol Slotted_Page
begin

section \<open>The record manager (src/manager/record_manager.cpp)\<close>

text \<open>
  One manager per table: a buffer pool of ten frames over the table's file and the list of the
  table's pages. Every operation brackets its page access with \<open>FetchPage\<close> and \<open>UnpinPage\<close>.
  A pair of output pointers \<^verbatim>\<open>(data, size)\<close> is the capacity of the caller's buffer,
  \<^term>\<open>None\<close> when one of them is null; a source buffer is its bytes, \<^term>\<open>None\<close> when null.
  As below, an outer \<^term>\<open>None\<close> is undefined behaviour.
\<close>

record RecordManager =
  buffer_pool_manager :: BufferPool
  page_ids :: "int list"

definition kDefaultPoolSize :: nat where
  "kDefaultPoolSize = 10"

definition new_RecordManager :: "DiskManager \<Rightarrow> RecordManager" where
  "new_RecordManager dm = \<lparr>buffer_pool_manager = new_BufferPool kDefaultPoolSize dm, page_ids = []\<rparr>"

definition HasEnoughSpaceForInsert :: "byte list \<Rightarrow> u16 \<Rightarrow> bool" where
  "HasEnoughSpaceForInsert d tuple_size = (let h = load_header d;
     required_space = tuple_size + 4;
     available_space = (free_space_offset h + 1) - (8 + slot_count h * 4)
   in required_space \<le> available_space)"

definition rm_Get :: "RecordId \<Rightarrow> nat option \<Rightarrow> RecordManager \<Rightarrow>
    ((byte list \<times> u16) option \<times> RecordManager) option" where
  "rm_Get rid out rm = (case out of None \<Rightarrow> Some (None, rm) | Some cap \<Rightarrow>
     if rid_page_id rid = INVALID_PAGE_ID then Some (None, rm)
     else do {
       (page, bp) \<leftarrow> FetchPage (rid_page_id rid) (buffer_pool_manager rm);
       case page of None \<Rightarrow> Some (None, rm\<lparr>buffer_pool_manager := bp\<rparr>)
       | Some f \<Rightarrow> let d = frame_data f bp;
             done = rm\<lparr>buffer_pool_manager := snd (UnpinPage (rid_page_id rid) False bp)\<rparr> in
           if slot_count (load_header d) \<le> rid_slot_id rid then Some (None, done)
           else do {
             slot \<leftarrow> load_slot (slot_addr (unat (rid_slot_id rid))) d;
             if slot_length slot = 0 then Some (None, done)
             else do {
               r \<leftarrow> GetTuple cap (rid_slot_id rid) d;
               Some (r, done) } } })"

text \<open>The two loops of \<open>Insert\<close>: first fit, then first fit after compacting the page.\<close>

fun insert_first_fit :: "byte list \<Rightarrow> u16 \<Rightarrow> int list \<Rightarrow> BufferPool \<Rightarrow>
    (RecordId option \<times> BufferPool) option" where
  "insert_first_fit td ts [] bp = Some (None, bp)"
| "insert_first_fit td ts (pid # pids) bp = do {
     (page, bp1) \<leftarrow> FetchPage pid bp;
     case page of None \<Rightarrow> insert_first_fit td ts pids bp1
     | Some f \<Rightarrow>
         if HasEnoughSpaceForInsert (frame_data f bp1) ts then do {
           (slot, d) \<leftarrow> InsertTuple td ts (frame_data f bp1);
           let bp2 = snd (UnpinPage pid (slot \<noteq> None) (set_frame_data f d bp1));
           case slot of
             Some s \<Rightarrow> Some (Some \<lparr>rid_page_id = pid, rid_slot_id = s\<rparr>, bp2)
           | None \<Rightarrow> insert_first_fit td ts pids bp2 }
         else insert_first_fit td ts pids (snd (UnpinPage pid False bp1)) }"

fun insert_after_compact :: "byte list \<Rightarrow> u16 \<Rightarrow> int list \<Rightarrow> BufferPool \<Rightarrow>
    (RecordId option \<times> BufferPool) option" where
  "insert_after_compact td ts [] bp = Some (None, bp)"
| "insert_after_compact td ts (pid # pids) bp = do {
     (page, bp1) \<leftarrow> FetchPage pid bp;
     case page of None \<Rightarrow> insert_after_compact td ts pids bp1
     | Some f \<Rightarrow> do {
         dc \<leftarrow> CompactOnePage (frame_data f bp1);
         if HasEnoughSpaceForInsert dc ts then do {
           (slot, d) \<leftarrow> InsertTuple td ts dc;
           let bp2 = snd (UnpinPage pid (slot \<noteq> None) (set_frame_data f d bp1));
           case slot of
             Some s \<Rightarrow> Some (Some \<lparr>rid_page_id = pid, rid_slot_id = s\<rparr>, bp2)
           | None \<Rightarrow> insert_after_compact td ts pids bp2 }
         else insert_after_compact td ts pids (snd (UnpinPage pid True (set_frame_data f dc bp1))) } }"

definition invalid_rid :: RecordId where
  "invalid_rid = \<lparr>rid_page_id = INVALID_PAGE_ID, rid_slot_id = 0\<rparr>"

definition insert_new_page :: "byte list \<Rightarrow> u16 \<Rightarrow> RecordManager \<Rightarrow> (RecordId \<times> RecordManager) option" where
  "insert_new_page td ts rm = do {
     (page, bp) \<leftarrow> NewPage (buffer_pool_manager rm);
     case page of None \<Rightarrow> Some (invalid_rid, rm\<lparr>buffer_pool_manager := bp\<rparr>)
     | Some (pid, f) \<Rightarrow> do {
         (slot, d) \<leftarrow> InsertTuple td ts (InitializePage pid (frame_data f bp));
         let bp' = snd (UnpinPage pid (slot \<noteq> None) (set_frame_data f d bp));
         case slot of
           None \<Rightarrow> Some (invalid_rid, rm\<lparr>buffer_pool_manager := bp'\<rparr>)
         | Some s \<Rightarrow> Some (\<lparr>rid_page_id = pid, rid_slot_id = s\<rparr>,
             rm\<lparr>buffer_pool_manager := bp', page_ids := page_ids rm @ [pid]\<rparr>) } }"

definition rm_Insert :: "byte list option \<Rightarrow> nat \<Rightarrow> RecordManager \<Rightarrow> (RecordId \<times> RecordManager) option" where
  "rm_Insert src sz rm = (case src of None \<Rightarrow> Some (invalid_rid, rm) | Some td \<Rightarrow>
     if sz = 0 \<or> 65535 < sz then Some (invalid_rid, rm)
     else do {
       let tuple_size = word_of_nat sz;
       (r, bp) \<leftarrow> insert_first_fit td tuple_size (page_ids rm) (buffer_pool_manager rm);
       case r of Some rid \<Rightarrow> Some (rid, rm\<lparr>buffer_pool_manager := bp\<rparr>)
       | None \<Rightarrow> do {
           (r', bp') \<leftarrow> insert_after_compact td tuple_size (page_ids rm) bp;
           case r' of Some rid \<Rightarrow> Some (rid, rm\<lparr>buffer_pool_manager := bp'\<rparr>)
           | None \<Rightarrow> insert_new_page td tuple_size (rm\<lparr>buffer_pool_manager := bp'\<rparr>) } })"

definition rm_Delete :: "RecordId \<Rightarrow> RecordManager \<Rightarrow> (bool \<times> RecordManager) option" where
  "rm_Delete r rm = (if rid_page_id r = INVALID_PAGE_ID then Some (False, rm)
     else do {
       (page, bp) \<leftarrow> FetchPage (rid_page_id r) (buffer_pool_manager rm);
       case page of None \<Rightarrow> Some (False, rm\<lparr>buffer_pool_manager := bp\<rparr>)
       | Some f \<Rightarrow> do {
           (ok, d) \<leftarrow> DeleteTuple (rid_slot_id r) (frame_data f bp);
           Some (ok, rm\<lparr>buffer_pool_manager :=
             snd (UnpinPage (rid_page_id r) ok (set_frame_data f d bp))\<rparr>) } })"

text \<open>The part of \<open>Update\<close> between fetching the page and unpinning it: the result and the page.\<close>

definition update_tuple :: "u16 \<Rightarrow> byte list \<Rightarrow> u16 \<Rightarrow> byte list \<Rightarrow> (bool \<times> byte list) option" where
  "update_tuple slot_id td tuple_size d = (let h = load_header d; a = slot_addr (unat slot_id) in
     if slot_count h \<le> slot_id then Some (False, d)
     else do {
       slot \<leftarrow> load_slot a d;
       if slot_length slot = 0 then Some (False, d)
       else if tuple_size \<le> slot_length slot then do {
         bs \<leftarrow> mem_read 0 (unat tuple_size) td;
         d1 \<leftarrow> mem_write (unat (slot_offset slot)) bs d;
         d2 \<leftarrow> store_slot_length a tuple_size d1;
         Some (True, d2) }
       else if (free_space_offset h + 1) - (8 + slot_count h * 4) < tuple_size then Some (False, d)
       else do {
         let new_offset = free_space_offset h - tuple_size + 1;
         bs \<leftarrow> mem_read 0 (unat tuple_size) td;
         d1 \<leftarrow> mem_write (unat new_offset) bs d;
         d2 \<leftarrow> store_slot_offset a new_offset d1;
         d3 \<leftarrow> store_slot_length a tuple_size d2;
         Some (True, store_header ((load_header d3)\<lparr>free_space_offset := new_offset - 1\<rparr>) d3) } })"

definition rm_Update :: "RecordId \<Rightarrow> byte list option \<Rightarrow> nat \<Rightarrow> RecordManager \<Rightarrow>
    (bool \<times> RecordManager) option" where
  "rm_Update rid src sz rm = (case src of None \<Rightarrow> Some (False, rm) | Some td \<Rightarrow>
     if rid_page_id rid = INVALID_PAGE_ID \<or> sz = 0 \<or> 65535 < sz then Some (False, rm)
     else do {
       (page, bp) \<leftarrow> FetchPage (rid_page_id rid) (buffer_pool_manager rm);
       case page of None \<Rightarrow> Some (False, rm\<lparr>buffer_pool_manager := bp\<rparr>)
       | Some f \<Rightarrow> do {
           (ok, d) \<leftarrow> update_tuple (rid_slot_id rid) td (word_of_nat sz) (frame_data f bp);
           Some (ok, rm\<lparr>buffer_pool_manager :=
             snd (UnpinPage (rid_page_id rid) ok (set_frame_data f d bp))\<rparr>) } })"

definition GetSlotCount :: "int \<Rightarrow> RecordManager \<Rightarrow> (u16 \<times> RecordManager) option" where
  "GetSlotCount pid rm = do {
     (page, bp) \<leftarrow> FetchPage pid (buffer_pool_manager rm);
     case page of None \<Rightarrow> Some (0, rm\<lparr>buffer_pool_manager := bp\<rparr>)
     | Some f \<Rightarrow> Some (slot_count (load_header (frame_data f bp)),
         rm\<lparr>buffer_pool_manager := snd (UnpinPage pid False bp)\<rparr>) }"

definition rm_Flush :: "RecordManager \<Rightarrow> RecordManager option" where
  "rm_Flush rm = do { bp \<leftarrow> FlushAllPages (buffer_pool_manager rm); Some (rm\<lparr>buffer_pool_manager := bp\<rparr>) }"

definition SetPageIds :: "int list \<Rightarrow> RecordManager \<Rightarrow> RecordManager" where
  "SetPageIds ids rm = rm\<lparr>page_ids := ids\<rparr>"

definition rm_GetNextPageId :: "RecordManager \<Rightarrow> int" where
  "rm_GetNextPageId rm = next_page_id (buffer_pool_manager rm)"

definition rm_SetNextPageId :: "int \<Rightarrow> RecordManager \<Rightarrow> RecordManager" where
  "rm_SetNextPageId pid rm = rm\<lparr>buffer_pool_manager := SetNextPageId pid (buffer_pool_manager rm)\<rparr>"

end
