(* ===== verification/Record_Heap.thy ===== *)
theory Record_Heap
  imports Record_Manager
begin

section \<open>What the record manager keeps: a heap of records\<close>

text \<open>
  The abstract state of a record manager is the association list from its pages, in page order, to
  their record lists (\<open>heap_of\<close>); a record id looks up a page and a slot (\<open>heap_get\<close>).
  The invariant \<open>rm_inv\<close> has a flag: with \<^term>\<open>True\<close>, the live tuples of every page lie in
  slot order, which compaction needs and which every operation but a growing \<open>Update\<close> keeps.
\<close>

type_synonym heap = "(int \<times> byte list option list) list"

definition recs_at :: "heap \<Rightarrow> int \<Rightarrow> byte list option list" where
  "recs_at h p = (case map_of h p of None \<Rightarrow> [] | Some rs \<Rightarrow> rs)"

definition heap_get :: "heap \<Rightarrow> RecordId \<Rightarrow> byte list option" where
  "heap_get h rid = lookup_rec (recs_at h (rid_page_id rid)) (unat (rid_slot_id rid))"

definition heap_put :: "RecordId \<Rightarrow> byte list option \<Rightarrow> heap \<Rightarrow> heap" where
  "heap_put rid r h = AList.update (rid_page_id rid)
     ((recs_at h (rid_page_id rid))[unat (rid_slot_id rid) := r]) h"

definition heap_append :: "int \<Rightarrow> byte list \<Rightarrow> heap \<Rightarrow> heap" where
  "heap_append p r h = AList.update p (recs_at h p @ [Some r]) h"

definition page_ok :: "bool \<Rightarrow> byte list \<Rightarrow> bool" where
  "page_ok b d \<longleftrightarrow> page_inv d \<and> (b \<longrightarrow> page_ordered d)"

definition pages_ok :: "bool \<Rightarrow> int set \<Rightarrow> BufferPool \<Rightarrow> bool" where
  "pages_ok b K bp \<longleftrightarrow> quiet K bp \<and> (\<forall>p \<in> K. \<exists>d. page_view bp p = Some d \<and> page_ok b d)"

definition rm_inv :: "bool \<Rightarrow> RecordManager \<Rightarrow> bool" where
  "rm_inv b rm \<longleftrightarrow> distinct (page_ids rm) \<and> pages_ok b (set (page_ids rm)) (buffer_pool_manager rm)"

definition recs_of :: "BufferPool \<Rightarrow> int \<Rightarrow> byte list option list" where
  "recs_of bp p = (case page_view bp p of None \<Rightarrow> [] | Some d \<Rightarrow> page_records d)"

definition heap_of :: "RecordManager \<Rightarrow> heap" where
  "heap_of rm = map (\<lambda>p. (p, recs_of (buffer_pool_manager rm) p)) (page_ids rm)"

lemma page_ok_True: "page_ok True d = page_good d"
  by (simp add: page_ok_def page_good_def)

lemma page_okD: "page_ok b d \<Longrightarrow> page_inv d"
  by (simp add: page_ok_def)

lemma page_ok_length: "page_ok b d \<Longrightarrow> length d = PAGE_SIZE"
  by (simp add: page_ok_def page_inv_length)

lemma pages_ok_weaken: "pages_ok b K bp \<Longrightarrow> pages_ok False K bp"
  by (force simp: pages_ok_def page_ok_def)

lemma rm_inv_weaken: "rm_inv b rm \<Longrightarrow> rm_inv False rm"
  by (auto simp: rm_inv_def intro: pages_ok_weaken)

subsection \<open>The heap as a finite map\<close>

lemma recs_at_update [simp]: "recs_at (AList.update p rs h) q = (if q = p then rs else recs_at h q)"
  by (simp add: recs_at_def update_conv')

lemma rid_eq_iff:
  "x = (rid :: RecordId) \<longleftrightarrow> rid_page_id x = rid_page_id rid \<and> unat (rid_slot_id x) = unat (rid_slot_id rid)"
  by (cases x; cases rid) (auto dest: unsigned_word_eqI)

lemma heap_get_Nil [simp]: "heap_get [] = Map.empty"
  by (simp add: heap_get_def recs_at_def lookup_rec_def fun_eq_iff)

lemma heap_get_put:
  assumes "heap_get h rid \<noteq> None"
  shows "heap_get (heap_put rid r h) = (heap_get h)(rid := r)"
proof
  fix x
  from assms have "unat (rid_slot_id rid) < length (recs_at h (rid_page_id rid))"
    by (auto simp: heap_get_def lookup_rec_def split: if_splits)
  moreover have "x = rid \<longleftrightarrow> rid_page_id x = rid_page_id rid \<and> unat (rid_slot_id x) = unat (rid_slot_id rid)"
    by (rule rid_eq_iff)
  ultimately show "heap_get (heap_put rid r h) x = ((heap_get h)(rid := r)) x"
    by (auto simp: heap_get_def heap_put_def lookup_rec_def nth_list_update)
qed

lemma heap_get_delete: "heap_get (heap_put rid None h) = (heap_get h)(rid := None)"
proof
  fix x
  have "x = rid \<longleftrightarrow> rid_page_id x = rid_page_id rid \<and> unat (rid_slot_id x) = unat (rid_slot_id rid)"
    by (rule rid_eq_iff)
  then show "heap_get (heap_put rid None h) x = ((heap_get h)(rid := None)) x"
    by (auto simp: heap_get_def heap_put_def lookup_rec_def nth_list_update)
qed

lemma heap_get_append:
  assumes "rid_page_id rid = p" and "unat (rid_slot_id rid) = length (recs_at h p)"
  shows "heap_get h rid = None" and "heap_get (heap_append p r h) = (heap_get h)(rid \<mapsto> r)"
proof -
  show "heap_get h rid = None" using assms by (simp add: heap_get_def)
  show "heap_get (heap_append p r h) = (heap_get h)(rid \<mapsto> r)"
  proof
    fix x
    have "x = rid \<longleftrightarrow> rid_page_id x = rid_page_id rid \<and> unat (rid_slot_id x) = unat (rid_slot_id rid)"
      by (rule rid_eq_iff)
    then show "heap_get (heap_append p r h) x = ((heap_get h)(rid \<mapsto> r)) x"
      using assms by (auto simp: heap_get_def heap_append_def lookup_rec_append)
  qed
qed

lemma map_pair_update:
  "distinct ks \<Longrightarrow> p \<in> set ks \<Longrightarrow>
    AList.update p v (map (\<lambda>k. (k, g k)) ks) = map (\<lambda>k. (k, if k = p then v else g k)) ks"
proof (induction ks)
  case (Cons k ks)
  then show ?case by (cases "k = p") (auto intro: map_cong)
qed simp

lemma map_pair_append:
  "p \<notin> set ks \<Longrightarrow> AList.update p v (map (\<lambda>k. (k, g k)) ks) = map (\<lambda>k. (k, g k)) ks @ [(p, v)]"
  by (induction ks) auto

lemma recs_at_heap_of [simp]:
  "recs_at (heap_of rm) p = (if p \<in> set (page_ids rm) then recs_of (buffer_pool_manager rm) p else [])"
  by (simp add: recs_at_def heap_of_def map_of_map_restrict restrict_map_def)

lemma heap_of_cong:
  assumes "page_ids rm' = page_ids rm"
    and "\<And>q. q \<in> set (page_ids rm) \<Longrightarrow> recs_of (buffer_pool_manager rm') q = recs_of (buffer_pool_manager rm) q"
  shows "heap_of rm' = heap_of rm"
  using assms by (simp add: heap_of_def)

lemma heap_of_update:
  assumes "distinct (page_ids rm)" and "p \<in> set (page_ids rm)" and "page_ids rm' = page_ids rm"
    and "\<And>q. q \<in> set (page_ids rm) \<Longrightarrow>
      recs_of (buffer_pool_manager rm') q = (if q = p then rs else recs_of (buffer_pool_manager rm) q)"
  shows "heap_of rm' = AList.update p rs (heap_of rm)"
  using assms by (simp add: heap_of_def map_pair_update)

subsection \<open>One page access\<close>

definition keeps :: "bool \<Rightarrow> int set \<Rightarrow> (int \<Rightarrow> byte list option) \<Rightarrow> int \<Rightarrow> BufferPool \<Rightarrow> bool" where
  "keeps b K v n bp \<longleftrightarrow> pages_ok b K bp \<and> (\<forall>q \<in> K. page_view bp q = v q) \<and> next_page_id bp = n"

lemma keeps_recs_same: "keeps b K (page_view bp0) n bp \<Longrightarrow> q \<in> K \<Longrightarrow> recs_of bp q = recs_of bp0 q"
  by (simp add: keeps_def recs_of_def)

lemma keeps_recs_update:
  "keeps b K ((page_view bp0)(p \<mapsto> d)) n bp \<Longrightarrow> q \<in> K \<Longrightarrow>
    recs_of bp q = (if q = p then page_records d else recs_of bp0 q)"
  by (simp add: keeps_def recs_of_def)

lemma keeps_trans:
  "keeps b K v n bp \<Longrightarrow> keeps b K (page_view bp) (next_page_id bp) bp' \<Longrightarrow> keeps b K v n bp'"
  by (simp add: keeps_def)

lemma set_frame_data_same [simp]: "set_frame_data f (frame_data f bp) bp = bp"
  by (simp add: set_frame_data_def frame_data_def upd_page_def)

text \<open>Fetching a page, working on it, and unpinning it: what both outcomes leave.\<close>

lemma page_bracket:
  assumes "pages_ok b K bp" and "p \<in> K"
  shows "\<exists>f bp1 d. FetchPage p bp = Some (Some f, bp1) \<and> frame_data f bp1 = d \<and>
    page_view bp p = Some d \<and> page_ok b d \<and>
    (\<forall>d'. page_ok b d' \<longrightarrow> keeps b K ((page_view bp)(p \<mapsto> d')) (next_page_id bp)
           (snd (UnpinPage p True (set_frame_data f d' bp1)))) \<and>
    keeps b K (page_view bp) (next_page_id bp) (snd (UnpinPage p False bp1))"
proof -
  from assms obtain d where d: "page_view bp p = Some d" "page_ok b d" and q: "quiet K bp"
    by (auto simp: pages_ok_def)
  from pool.write_access [OF q assms(2) d(1)] obtain f bp1
    where f: "FetchPage p bp = Some (Some f, bp1)" "frame_data f bp1 = d"
      and w: "\<And>d'. length d' = PAGE_SIZE \<Longrightarrow>
        \<exists>s2. UnpinPage p True (set_frame_data f d' bp1) = (True, s2) \<and> quiet K s2 \<and>
          (\<forall>q \<in> K. page_view s2 q = ((page_view bp)(p \<mapsto> d')) q) \<and> next_page_id s2 = next_page_id bp"
      and r: "\<exists>s2. UnpinPage p False bp1 = (True, s2) \<and> quiet K s2 \<and>
          (\<forall>q \<in> K. page_view s2 q = page_view bp q) \<and> next_page_id s2 = next_page_id bp"
    by blast
  show ?thesis
  proof (intro exI conjI allI impI)
    fix d' assume ok: "page_ok b d'"
    from w [OF page_ok_length [OF ok]] ok assms(1)
    show "keeps b K ((page_view bp)(p \<mapsto> d')) (next_page_id bp)
        (snd (UnpinPage p True (set_frame_data f d' bp1)))"
      by (auto simp: keeps_def pages_ok_def)
  next
    from r assms(1) show "keeps b K (page_view bp) (next_page_id bp) (snd (UnpinPage p False bp1))"
      by (auto simp: keeps_def pages_ok_def)
  qed (use f d in simp_all)
qed

lemma rm_inv_keeps:
  assumes "rm_inv b rm" and "keeps b' (set (page_ids rm)) v n bp"
  shows "rm_inv b' (rm\<lparr>buffer_pool_manager := bp\<rparr>)"
  using assms by (simp add: rm_inv_def keeps_def)

lemma heap_of_keeps_same:
  assumes "keeps b (set (page_ids rm)) (page_view (buffer_pool_manager rm)) n bp"
  shows "heap_of (rm\<lparr>buffer_pool_manager := bp\<rparr>) = heap_of rm"
  using assms by (intro heap_of_cong) (simp_all add: keeps_recs_same)

lemma heap_of_keeps_update:
  assumes "rm_inv b rm" and "p \<in> set (page_ids rm)"
    and "keeps b' (set (page_ids rm)) ((page_view (buffer_pool_manager rm))(p \<mapsto> d)) n bp"
  shows "heap_of (rm\<lparr>buffer_pool_manager := bp\<rparr>) = AList.update p (page_records d) (heap_of rm)"
  using assms by (intro heap_of_update) (simp_all add: rm_inv_def keeps_recs_update)

subsection \<open>Get, Delete and GetSlotCount\<close>

lemma page_ok_addr:
  assumes "pages_ok b K bp" and "p \<in> K"
  shows "p \<noteq> INVALID_PAGE_ID"
proof (rule page_addr_valid)
  from assms(1) have "pool_ok K bp" by (simp add: pages_ok_def quiet_def)
  from pool_ok_known [OF this assms(2)] show "page_addr p" by blast
qed

lemma rm_Get_spec:
  assumes inv: "rm_inv b rm" and p: "rid_page_id rid \<in> set (page_ids rm)" and cap: "PAGE_SIZE \<le> cap"
  shows "\<exists>rm'. rm_Get rid (Some cap) rm =
      Some (map_option (\<lambda>td. (td, word_of_nat (length td))) (heap_get (heap_of rm) rid), rm') \<and>
    rm_inv b rm' \<and> heap_of rm' = heap_of rm \<and> page_ids rm' = page_ids rm \<and>
    rm_GetNextPageId rm' = rm_GetNextPageId rm"
proof -
  let ?bp = "buffer_pool_manager rm" and ?p = "rid_page_id rid" and ?i = "unat (rid_slot_id rid)"
  from inv have ok: "pages_ok b (set (page_ids rm)) ?bp" by (simp add: rm_inv_def)
  from page_bracket [OF ok p] obtain f bp1 d where f: "FetchPage ?p ?bp = Some (Some f, bp1)"
    "frame_data f bp1 = d" "page_view ?bp ?p = Some d" "page_ok b d"
    and k: "keeps b (set (page_ids rm)) (page_view ?bp) (next_page_id ?bp) (snd (UnpinPage ?p False bp1))"
    by blast
  note d = page_okD [OF f(4)]
  let ?rm = "rm\<lparr>buffer_pool_manager := snd (UnpinPage ?p False bp1)\<rparr>"
  have get: "heap_get (heap_of rm) rid = (if ?i < cnt d then page_records d ! ?i else None)"
    using f(3) p by (simp add: heap_get_def recs_of_def lookup_rec_def)
  have "rm_Get rid (Some cap) rm = Some (map_option (\<lambda>td. (td, word_of_nat (length td))) (heap_get (heap_of rm) rid), ?rm)"
  proof (cases "?i < cnt d")
    case False
    then show ?thesis
      using f(1,2) get page_ok_addr [OF ok p] by (simp add: rm_Get_def slot_id_iff)
  next
    case True
    then show ?thesis
      using f(1,2) get page_ok_addr [OF ok p] load_slot_inv [OF d True] GetTuple_refines [OF d cap]
      by (auto simp: rm_Get_def slot_id_iff page_records_def slot_record_def live_def Let_def
          split: option.splits)
  qed
  moreover have "rm_inv b ?rm" by (rule rm_inv_keeps [OF inv k])
  moreover have "heap_of ?rm = heap_of rm" by (rule heap_of_keeps_same [OF k])
  ultimately show ?thesis using k by (auto simp: rm_GetNextPageId_def keeps_def)
qed

lemma DeleteTuple_page_ok:
  assumes "page_ok b d"
  shows "\<exists>d'. DeleteTuple i d = Some (unat i < cnt d, d') \<and> page_ok b d' \<and>
    page_records d' = (page_records d)[unat i := None] \<and> (\<not> unat i < cnt d \<longrightarrow> d' = d)"
proof (cases "unat i < cnt d")
  case True
  then show ?thesis using DeleteTuple_refines [of d i] assms by (auto simp: page_ok_def)
next
  case False
  then show ?thesis using DeleteTuple_no_slot [of d i] assms by (simp add: list_update_beyond)
qed

lemma rm_Delete_spec:
  assumes inv: "rm_inv b rm" and p: "rid_page_id rid \<in> set (page_ids rm)"
  shows "\<exists>rm'. rm_Delete rid rm =
      Some (unat (rid_slot_id rid) < length (recs_at (heap_of rm) (rid_page_id rid)), rm') \<and>
    rm_inv b rm' \<and> heap_of rm' = heap_put rid None (heap_of rm) \<and> page_ids rm' = page_ids rm \<and>
    rm_GetNextPageId rm' = rm_GetNextPageId rm"
proof -
  let ?bp = "buffer_pool_manager rm" and ?p = "rid_page_id rid" and ?i = "unat (rid_slot_id rid)"
  let ?K = "set (page_ids rm)"
  from inv have ok: "pages_ok b ?K ?bp" by (simp add: rm_inv_def)
  from page_bracket [OF ok p] obtain f bp1 d where f: "FetchPage ?p ?bp = Some (Some f, bp1)"
    "frame_data f bp1 = d" "page_view ?bp ?p = Some d" "page_ok b d"
    and w: "\<And>d'. page_ok b d' \<Longrightarrow> keeps b ?K ((page_view ?bp)(?p \<mapsto> d')) (next_page_id ?bp)
           (snd (UnpinPage ?p True (set_frame_data f d' bp1)))"
    and k: "keeps b ?K (page_view ?bp) (next_page_id ?bp) (snd (UnpinPage ?p False bp1))"
    by blast
  obtain d' where d': "DeleteTuple (rid_slot_id rid) d = Some (?i < cnt d, d')" "page_ok b d'"
    "page_records d' = (page_records d)[?i := None]" "\<not> ?i < cnt d \<longrightarrow> d' = d"
    using DeleteTuple_page_ok [OF f(4)] by blast
  define bp2 where "bp2 = snd (UnpinPage ?p (?i < cnt d) (set_frame_data f d' bp1))"
  have bp2: "keeps b ?K ((page_view ?bp)(?p \<mapsto> d')) (next_page_id ?bp) bp2"
  proof (cases "?i < cnt d")
    case True
    then show ?thesis using w [OF d'(2)] by (simp add: bp2_def)
  next
    case False
    then show ?thesis using k d'(4) f(2,3) by (auto simp: bp2_def map_upd_triv)
  qed
  have recs: "recs_at (heap_of rm) ?p = page_records d" using f(3) p by (simp add: recs_of_def)
  have "rm_Delete rid rm = Some (?i < length (page_records d), rm\<lparr>buffer_pool_manager := bp2\<rparr>)"
    using f(1,2) d'(1) page_ok_addr [OF ok p] by (simp add: rm_Delete_def bp2_def)
  moreover have "heap_of (rm\<lparr>buffer_pool_manager := bp2\<rparr>) = heap_put rid None (heap_of rm)"
    unfolding heap_put_def recs d'(3) [symmetric] by (rule heap_of_keeps_update [OF inv p bp2])
  ultimately show ?thesis
    using rm_inv_keeps [OF inv bp2] bp2 recs by (auto simp: rm_GetNextPageId_def keeps_def)
qed

lemma GetSlotCount_spec:
  assumes inv: "rm_inv b rm" and p: "p \<in> set (page_ids rm)"
  shows "\<exists>rm'. GetSlotCount p rm = Some (word_of_nat (length (recs_at (heap_of rm) p)), rm') \<and>
    rm_inv b rm' \<and> heap_of rm' = heap_of rm \<and> page_ids rm' = page_ids rm \<and>
    rm_GetNextPageId rm' = rm_GetNextPageId rm"
proof -
  let ?bp = "buffer_pool_manager rm" and ?K = "set (page_ids rm)"
  from inv have ok: "pages_ok b ?K ?bp" by (simp add: rm_inv_def)
  from page_bracket [OF ok p] obtain f bp1 d where f: "FetchPage p ?bp = Some (Some f, bp1)"
    "frame_data f bp1 = d" "page_view ?bp p = Some d" "page_ok b d"
    and k: "keeps b ?K (page_view ?bp) (next_page_id ?bp) (snd (UnpinPage p False bp1))"
    by blast
  have "GetSlotCount p rm = Some (word_of_nat (length (recs_at (heap_of rm) p)),
      rm\<lparr>buffer_pool_manager := snd (UnpinPage p False bp1)\<rparr>)"
    using f(1-3) p by (simp add: GetSlotCount_def recs_of_def cnt_def)
  then show ?thesis
    using rm_inv_keeps [OF inv k] heap_of_keeps_same [OF k] k by (auto simp: rm_GetNextPageId_def keeps_def)
qed

subsection \<open>Insert\<close>

definition has_room :: "nat \<Rightarrow> BufferPool \<Rightarrow> int \<Rightarrow> bool" where
  "has_room n bp p \<longleftrightarrow> (case page_view bp p of None \<Rightarrow> False | Some d \<Rightarrow> n + 4 \<le> free_bytes d)"

definition same_recs :: "bool \<Rightarrow> int set \<Rightarrow> BufferPool \<Rightarrow> BufferPool \<Rightarrow> bool" where
  "same_recs b K bp bp' \<longleftrightarrow> pages_ok b K bp' \<and> (\<forall>q \<in> K. recs_of bp' q = recs_of bp q) \<and>
     next_page_id bp' = next_page_id bp"

definition appended :: "bool \<Rightarrow> int set \<Rightarrow> byte list \<Rightarrow> RecordId \<Rightarrow> BufferPool \<Rightarrow> BufferPool \<Rightarrow> bool" where
  "appended b K td rid bp bp' \<longleftrightarrow> rid_page_id rid \<in> K \<and>
     unat (rid_slot_id rid) = length (recs_of bp (rid_page_id rid)) \<and> pages_ok b K bp' \<and>
     (\<forall>q \<in> K. recs_of bp' q =
       (if q = rid_page_id rid then recs_of bp q @ [Some td] else recs_of bp q)) \<and>
     next_page_id bp' = next_page_id bp"

lemma keeps_same_recs: "keeps b K (page_view bp) (next_page_id bp) bp' \<Longrightarrow> same_recs b K bp bp'"
  by (auto simp: same_recs_def keeps_recs_same) (auto simp: keeps_def)

lemma keeps_appended:
  assumes "keeps b K ((page_view bp)(p \<mapsto> d')) (next_page_id bp) bp'" and "p \<in> K"
    and "page_view bp p = Some d" and "page_records d' = page_records d @ [Some td]" and "unat s = cnt d"
  shows "appended b K td \<lparr>rid_page_id = p, rid_slot_id = s\<rparr> bp bp'"
  using assms by (auto simp: appended_def keeps_recs_update) (auto simp: keeps_def recs_of_def)

lemma same_recs_trans: "same_recs b K bp bp1 \<Longrightarrow> same_recs b K bp1 bp2 \<Longrightarrow> same_recs b K bp bp2"
  by (simp add: same_recs_def)

lemma same_recs_appended: "same_recs b K bp bp1 \<Longrightarrow> appended b K td rid bp1 bp2 \<Longrightarrow> appended b K td rid bp bp2"
  by (auto simp: same_recs_def appended_def)

lemma HasEnoughSpaceForInsert_eq: "HasEnoughSpaceForInsert = HasEnoughSpace"
  by (simp add: fun_eq_iff HasEnoughSpaceForInsert_def HasEnoughSpace_def)

lemma HasEnoughSpaceForInsert_iff:
  assumes "page_ok b d" and "storable_tuple td"
  shows "HasEnoughSpaceForInsert d (word_of_nat (length td)) \<longleftrightarrow> length td + 4 \<le> free_bytes d"
  using HasEnoughSpace_iff [OF page_okD [OF assms(1)], of "word_of_nat (length td)"] assms(2)
    storable_size [OF assms(2)]
  by (simp add: HasEnoughSpaceForInsert_eq storable_tuple_def)

lemma InsertTuple_page_ok:
  assumes ok: "page_ok b d" and td: "storable_tuple td" and room: "length td + 4 \<le> free_bytes d"
  shows "\<exists>s d'. InsertTuple td (word_of_nat (length td)) d = Some (Some s, d') \<and> unat s = cnt d \<and>
    page_ok b d' \<and> page_records d' = page_records d @ [Some td]"
proof -
  have "unat (word_of_nat (cnt d) :: u16) = cnt d" using cnt_bound by (simp add: unat_u16_of_nat)
  moreover have "td \<noteq> []" "length td < 65532" using td by (auto simp: storable_tuple_def)
  ultimately show ?thesis
    using InsertTuple_refines(1) [OF page_okD [OF ok] storable_size [OF td] _ _ room] ok
    by (auto simp: page_ok_def)
qed

text \<open>The first loop puts the record on the first page that has room for it, if there is one.\<close>

lemma insert_first_fit_spec:
  assumes "pages_ok b K bp" and "set pids \<subseteq> K" and td: "storable_tuple td"
  shows "case find (has_room (length td) bp) pids of
      None \<Rightarrow> \<exists>bp'. insert_first_fit td (word_of_nat (length td)) pids bp = Some (None, bp') \<and>
        same_recs b K bp bp'
    | Some p \<Rightarrow> \<exists>rid bp'. insert_first_fit td (word_of_nat (length td)) pids bp = Some (Some rid, bp') \<and>
        rid_page_id rid = p \<and> appended b K td rid bp bp'"
  using assms(1,2)
proof (induction pids arbitrary: bp)
  case Nil
  then show ?case by (simp add: same_recs_def)
next
  case (Cons p pids)
  from Cons.prems have p: "p \<in> K" by simp
  from page_bracket [OF Cons.prems(1) p] obtain f bp1 d where f: "FetchPage p bp = Some (Some f, bp1)"
    "frame_data f bp1 = d" "page_view bp p = Some d" "page_ok b d"
    and w: "\<And>d'. page_ok b d' \<Longrightarrow> keeps b K ((page_view bp)(p \<mapsto> d')) (next_page_id bp)
           (snd (UnpinPage p True (set_frame_data f d' bp1)))"
    and k: "keeps b K (page_view bp) (next_page_id bp) (snd (UnpinPage p False bp1))"
    by blast
  note iff = HasEnoughSpaceForInsert_iff [OF f(4) td]
  show ?case
  proof (cases "length td + 4 \<le> free_bytes d")
    case True
    from InsertTuple_page_ok [OF f(4) td True] obtain s d' where d':
      "InsertTuple td (word_of_nat (length td)) d = Some (Some s, d')" "unat s = cnt d" "page_ok b d'"
      "page_records d' = page_records d @ [Some td]" by blast
    from keeps_appended [OF w [OF d'(3)] p f(3) d'(4,2)] show ?thesis
      using True iff f(1-3) d'(1) by (simp add: has_room_def)
  next
    case False
    let ?bp2 = "snd (UnpinPage p False bp1)"
    have "pages_ok b K ?bp2" using k by (simp add: keeps_def)
    from Cons.IH [OF this] Cons.prems(2)
    have ih: "case find (has_room (length td) ?bp2) pids of
        None \<Rightarrow> \<exists>bp'. insert_first_fit td (word_of_nat (length td)) pids ?bp2 = Some (None, bp') \<and> same_recs b K ?bp2 bp'
      | Some p \<Rightarrow> \<exists>rid bp'. insert_first_fit td (word_of_nat (length td)) pids ?bp2 = Some (Some rid, bp') \<and>
          rid_page_id rid = p \<and> appended b K td rid ?bp2 bp'" by simp
    have "find (has_room (length td) ?bp2) pids = find (has_room (length td) bp) pids"
      by (rule find_cong) (use k Cons.prems(2) in \<open>auto simp: keeps_def has_room_def\<close>)
    moreover have "\<not> has_room (length td) bp p" using False f(3) by (simp add: has_room_def)
    ultimately show ?thesis
      using ih False iff f(1,2) same_recs_trans [OF keeps_same_recs [OF k]]
        same_recs_appended [OF keeps_same_recs [OF k]]
      by (auto split: option.splits)
  qed
qed

lemma insert_after_compact_spec:
  assumes "pages_ok True K bp" and "set pids \<subseteq> K" and td: "storable_tuple td"
  shows "(\<exists>bp'. insert_after_compact td (word_of_nat (length td)) pids bp = Some (None, bp') \<and>
        same_recs True K bp bp' \<and> (\<forall>q \<in> set pids. \<not> room_for (length td) (recs_of bp q))) \<or>
    (\<exists>rid bp'. insert_after_compact td (word_of_nat (length td)) pids bp = Some (Some rid, bp') \<and>
        appended True K td rid bp bp')"
  using assms(1,2)
proof (induction pids arbitrary: bp)
  case Nil
  then show ?case by (simp add: same_recs_def)
next
  case (Cons p pids)
  from Cons.prems have p: "p \<in> K" by simp
  from page_bracket [OF Cons.prems(1) p] obtain f bp1 d where f: "FetchPage p bp = Some (Some f, bp1)"
    "frame_data f bp1 = d" "page_view bp p = Some d" "page_ok True d"
    and w: "\<And>d'. page_ok True d' \<Longrightarrow> keeps True K ((page_view bp)(p \<mapsto> d')) (next_page_id bp)
           (snd (UnpinPage p True (set_frame_data f d' bp1)))"
    by blast
  from f(4) have good: "page_good d" by (simp add: page_ok_True)
  from slotted.compact_then_ins [OF good td] obtain dc where dc: "CompactOnePage d = Some dc"
    "page_ok True dc" "page_records dc = page_records d"
    "length td + 4 \<le> free_bytes dc \<longleftrightarrow> room_for (length td) (page_records d)" by (metis page_ok_True)
  note iff = HasEnoughSpaceForInsert_iff [OF dc(2) td]
  show ?case
  proof (cases "length td + 4 \<le> free_bytes dc")
    case True
    from InsertTuple_page_ok [OF dc(2) td True] obtain s d' where d':
      "InsertTuple td (word_of_nat (length td)) dc = Some (Some s, d')" "unat s = cnt dc" "page_ok True d'"
      "page_records d' = page_records dc @ [Some td]" by blast
    have "cnt dc = cnt d" using dc(3) by (metis length_page_records)
    with keeps_appended [OF w [OF d'(3)] p f(3), of td s] d' dc(3) show ?thesis
      using True iff f(1-3) dc(1) by simp
  next
    case False
    let ?bp2 = "snd (UnpinPage p True (set_frame_data f dc bp1))"
    note k = w [OF dc(2)]
    have sr: "same_recs True K bp ?bp2"
      using k f(3) dc(3) by (auto simp: same_recs_def keeps_recs_update) (auto simp: keeps_def recs_of_def)
    then have "pages_ok True K ?bp2" by (simp add: same_recs_def)
    moreover have "\<not> room_for (length td) (recs_of bp p)" using False dc(4) f(3) by (simp add: recs_of_def)
    moreover have "recs_of ?bp2 q = recs_of bp q" if "q \<in> set pids" for q
      using sr that Cons.prems(2) by (auto simp: same_recs_def)
    ultimately show ?thesis
      using Cons.IH [of ?bp2] Cons.prems(2) False iff f(1,2) dc(1) same_recs_trans [OF sr] same_recs_appended [OF sr] by auto
  qed
qed

lemma appended_heap:
  assumes inv: "rm_inv b rm" and ap: "appended b (set (page_ids rm)) td rid (buffer_pool_manager rm) bp'"
  defines "rm' \<equiv> rm\<lparr>buffer_pool_manager := bp'\<rparr>"
  shows "rm_inv b rm'" and "heap_of rm' = heap_append (rid_page_id rid) td (heap_of rm)"
    and "unat (rid_slot_id rid) = length (recs_at (heap_of rm) (rid_page_id rid))"
    and "rid_page_id rid \<in> set (page_ids rm)" and "rm_GetNextPageId rm' = rm_GetNextPageId rm"
proof -
  have "heap_of rm' = AList.update (rid_page_id rid)
      (recs_of (buffer_pool_manager rm) (rid_page_id rid) @ [Some td]) (heap_of rm)"
    by (rule heap_of_update) (use inv ap in \<open>auto simp: rm_inv_def appended_def rm'_def\<close>)
  then show "heap_of rm' = heap_append (rid_page_id rid) td (heap_of rm)"
    using ap by (simp add: heap_append_def appended_def)
qed (use inv ap in \<open>auto simp: rm_inv_def appended_def rm'_def rm_GetNextPageId_def\<close>)

lemma same_recs_heap:
  assumes inv: "rm_inv b rm" and sr: "same_recs b (set (page_ids rm)) (buffer_pool_manager rm) bp'"
  defines "rm' \<equiv> rm\<lparr>buffer_pool_manager := bp'\<rparr>"
  shows "rm_inv b rm'" and "heap_of rm' = heap_of rm" and "rm_GetNextPageId rm' = rm_GetNextPageId rm"
proof -
  show "heap_of rm' = heap_of rm" using sr by (intro heap_of_cong) (simp_all add: rm'_def same_recs_def)
qed (use inv sr in \<open>simp_all add: rm_inv_def same_recs_def rm'_def rm_GetNextPageId_def\<close>)

lemma free_bytes_InitializePage: "length d = PAGE_SIZE \<Longrightarrow> free_bytes (InitializePage pid d) = 4088"
  by (simp add: free_bytes_def InitializePage_spec(2,3) PAGE_SIZE_def)

text \<open>The last resort: a fresh page, which takes any record of at most 4084 bytes.\<close>

lemma insert_new_page_spec:
  assumes inv: "rm_inv b rm" and td: "storable_tuple td" and next_ok: "page_addr (rm_GetNextPageId rm)"
  defines "n \<equiv> rm_GetNextPageId rm"
  shows "\<exists>rm'. insert_new_page td (word_of_nat (length td)) rm =
      Some (if length td \<le> 4084 then \<lparr>rid_page_id = n, rid_slot_id = 0\<rparr> else invalid_rid, rm') \<and>
    rm_inv b rm' \<and> rm_GetNextPageId rm' = n + 1 \<and> n \<notin> set (page_ids rm) \<and>
    page_ids rm' = (if length td \<le> 4084 then page_ids rm @ [n] else page_ids rm) \<and>
    heap_of rm' = (if length td \<le> 4084 then heap_of rm @ [(n, [Some td])] else heap_of rm)"
proof -
  let ?bp = "buffer_pool_manager rm" and ?K = "set (page_ids rm)"
  have n: "n = next_page_id ?bp" by (simp add: n_def rm_GetNextPageId_def)
  from inv have ok: "pages_ok b ?K ?bp" by (simp add: rm_inv_def)
  then have q: "quiet ?K ?bp" by (simp add: pages_ok_def)
  have "page_addr (next_page_id ?bp)" using next_ok by (simp add: rm_GetNextPageId_def)
  from pool.alloc_access [OF q this] obtain f s1 where new: "NewPage ?bp = Some (Some (n, f), s1)"
      "frame_data f s1 = replicate PAGE_SIZE 0" and fresh: "n \<notin> ?K"
    and w: "\<And>d'. length d' = PAGE_SIZE \<Longrightarrow> \<exists>s2. UnpinPage n True (set_frame_data f d' s1) = (True, s2) \<and>
      quiet (insert n ?K) s2 \<and> (\<forall>q \<in> insert n ?K. page_view s2 q = ((page_view ?bp)(n \<mapsto> d')) q) \<and>
      next_page_id s2 = n + 1"
    and r: "\<And>d'. length d' = PAGE_SIZE \<Longrightarrow> \<exists>s2. UnpinPage n False (set_frame_data f d' s1) = (True, s2) \<and>
      quiet ?K s2 \<and> (\<forall>q \<in> ?K. page_view s2 q = page_view ?bp q) \<and> next_page_id s2 = n + 1"
    unfolding n by blast
  define d0 where "d0 = InitializePage n (frame_data f s1)"
  have l: "length (frame_data f s1) = PAGE_SIZE" by (simp add: new(2))
  have d0: "page_ok b d0" "page_records d0 = []" "free_bytes d0 = 4088" "cnt d0 = 0"
    using InitializePage_spec [OF l] free_bytes_InitializePage [OF l] by (simp_all add: d0_def page_ok_def)
  show ?thesis
  proof (cases "length td \<le> 4084")
    case True
    then have room: "length td + 4 \<le> free_bytes d0" using d0(3) by simp
    from InsertTuple_page_ok [OF d0(1) td room] obtain s d' where d':
      "InsertTuple td (word_of_nat (length td)) d0 = Some (Some s, d')" "unat s = cnt d0" "page_ok b d'"
      "page_records d' = page_records d0 @ [Some td]" by blast
    from w [OF page_ok_length [OF d'(3)]] obtain s2
      where s2: "UnpinPage n True (set_frame_data f d' s1) = (True, s2)" "quiet (insert n ?K) s2"
        "\<forall>q \<in> insert n ?K. page_view s2 q = ((page_view ?bp)(n \<mapsto> d')) q" "next_page_id s2 = n + 1" by blast
    let ?rm = "rm\<lparr>buffer_pool_manager := s2, page_ids := page_ids rm @ [n]\<rparr>"
    have "s = 0" using d'(2) d0(4) by (simp add: unsigned_eq_0_iff)
    then have "insert_new_page td (word_of_nat (length td)) rm = Some (\<lparr>rid_page_id = n, rid_slot_id = 0\<rparr>, ?rm)"
      using new(1) d'(1) s2(1) by (simp add: insert_new_page_def d0_def [symmetric])
    moreover have "rm_inv b ?rm"
      using inv s2 fresh d'(3) by (auto simp: rm_inv_def pages_ok_def)
    moreover have "heap_of ?rm = heap_of rm @ [(n, [Some td])]"
      using s2(3) fresh d'(4) d0(2) by (auto simp: heap_of_def recs_of_def)
    ultimately show ?thesis using True s2(4) fresh by (simp add: rm_GetNextPageId_def)
  next
    case False
    then have "\<not> length td + 4 \<le> free_bytes d0" using d0(3) by simp
    then have ins: "InsertTuple td (word_of_nat (length td)) d0 = Some (None, d0)"
      using InsertTuple_refines(2) [OF page_okD [OF d0(1)] storable_size [OF td]] td
      by (auto simp: storable_tuple_def)
    from r [OF page_ok_length [OF d0(1)]] obtain s2
      where s2: "UnpinPage n False (set_frame_data f d0 s1) = (True, s2)" "quiet ?K s2"
        "\<forall>q \<in> ?K. page_view s2 q = page_view ?bp q" "next_page_id s2 = n + 1" by blast
    have "insert_new_page td (word_of_nat (length td)) rm = Some (invalid_rid, rm\<lparr>buffer_pool_manager := s2\<rparr>)"
      using new(1) ins s2(1) by (simp add: insert_new_page_def d0_def [symmetric])
    moreover have "rm_inv b (rm\<lparr>buffer_pool_manager := s2\<rparr>)"
      using inv s2 by (auto simp: rm_inv_def pages_ok_def)
    moreover have "heap_of (rm\<lparr>buffer_pool_manager := s2\<rparr>) = heap_of rm"
      using s2(3) by (auto simp: heap_of_def recs_of_def)
    ultimately show ?thesis using False s2(4) fresh by (simp add: rm_GetNextPageId_def)
  qed
qed

text \<open>The two loops run one after the other, from the caller's point of view.\<close>

lemma rm_Insert_cases:
  assumes inv: "rm_inv True rm" and td: "storable_tuple td"
  obtains (reuse) rid bp where "rm_Insert (Some td) (length td) rm = Some (rid, rm\<lparr>buffer_pool_manager := bp\<rparr>)"
      and "appended True (set (page_ids rm)) td rid (buffer_pool_manager rm) bp"
    | (fresh) bp where "rm_Insert (Some td) (length td) rm =
        insert_new_page td (word_of_nat (length td)) (rm\<lparr>buffer_pool_manager := bp\<rparr>)"
      and "same_recs True (set (page_ids rm)) (buffer_pool_manager rm) bp"
      and "find (has_room (length td) (buffer_pool_manager rm)) (page_ids rm) = None"
      and "\<forall>q \<in> set (page_ids rm). \<not> room_for (length td) (recs_at (heap_of rm) q)"
proof -
  let ?bp = "buffer_pool_manager rm" and ?K = "set (page_ids rm)"
  from inv have ok: "pages_ok True ?K ?bp" by (simp add: rm_inv_def)
  have sz: "\<not> (length td = 0 \<or> 65535 < length td)" using td by (auto simp: storable_tuple_def)
  note ff = insert_first_fit_spec [OF ok subset_refl td]
  show ?thesis
  proof (cases "find (has_room (length td) ?bp) (page_ids rm)")
    case (Some p)
    with ff obtain rid bp' where "insert_first_fit td (word_of_nat (length td)) (page_ids rm) ?bp = Some (Some rid, bp')"
      "appended True ?K td rid ?bp bp'" by auto
    with sz show ?thesis by (intro reuse [of rid bp']) (auto simp: rm_Insert_def)
  next
    case None
    with ff obtain bp1 where 1: "insert_first_fit td (word_of_nat (length td)) (page_ids rm) ?bp = Some (None, bp1)"
      and sr1: "same_recs True ?K ?bp bp1" by auto
    then have "pages_ok True ?K bp1" by (simp add: same_recs_def)
    from insert_after_compact_spec [OF this subset_refl td] show ?thesis
    proof (elim disjE exE conjE)
      fix bp2 assume 2: "insert_after_compact td (word_of_nat (length td)) (page_ids rm) bp1 = Some (None, bp2)"
        and sr2: "same_recs True ?K bp1 bp2" and full: "\<forall>q \<in> ?K. \<not> room_for (length td) (recs_of bp1 q)"
      have "\<forall>q \<in> ?K. \<not> room_for (length td) (recs_at (heap_of rm) q)"
        using full sr1 by (auto simp: same_recs_def)
      with 1 2 sz same_recs_trans [OF sr1 sr2] None show ?thesis
        by (intro fresh [of bp2]) (auto simp: rm_Insert_def)
    next
      fix rid bp2 assume 2: "insert_after_compact td (word_of_nat (length td)) (page_ids rm) bp1 = Some (Some rid, bp2)"
        and ap: "appended True ?K td rid bp1 bp2"
      from 1 2 sz same_recs_appended [OF sr1 ap] show ?thesis
        by (intro reuse [of rid bp2]) (auto simp: rm_Insert_def)
    qed
  qed
qed

lemma rm_Insert_spec:
  assumes inv: "rm_inv True rm" and td: "0 < length td" "length td \<le> 4084"
    and next_ok: "page_addr (rm_GetNextPageId rm)"
  shows "\<exists>rid rm'. rm_Insert (Some td) (length td) rm = Some (rid, rm') \<and> rm_inv True rm' \<and>
    rid_page_id rid \<noteq> INVALID_PAGE_ID \<and> rid_page_id rid \<in> set (page_ids rm') \<and>
    unat (rid_slot_id rid) = length (recs_at (heap_of rm) (rid_page_id rid)) \<and>
    heap_of rm' = heap_append (rid_page_id rid) td (heap_of rm) \<and>
    (page_ids rm' = page_ids rm \<and> rm_GetNextPageId rm' = rm_GetNextPageId rm \<or>
     page_ids rm' = page_ids rm @ [rid_page_id rid] \<and> rid_page_id rid = rm_GetNextPageId rm \<and>
     rm_GetNextPageId rm' = rm_GetNextPageId rm + 1)"
proof -
  have st: "storable_tuple td" using td by (simp add: storable_tuple_def)
  from inv have ok: "pages_ok True (set (page_ids rm)) (buffer_pool_manager rm)" by (simp add: rm_inv_def)
  show ?thesis
  proof (rule rm_Insert_cases [OF inv st])
    fix rid bp assume r: "rm_Insert (Some td) (length td) rm = Some (rid, rm\<lparr>buffer_pool_manager := bp\<rparr>)"
      and ap: "appended True (set (page_ids rm)) td rid (buffer_pool_manager rm) bp"
    note h = appended_heap [OF inv ap]
    show ?thesis using r h page_ok_addr [OF ok h(4)] by auto
  next
    fix bp assume r: "rm_Insert (Some td) (length td) rm =
        insert_new_page td (word_of_nat (length td)) (rm\<lparr>buffer_pool_manager := bp\<rparr>)"
      and sr: "same_recs True (set (page_ids rm)) (buffer_pool_manager rm) bp"
    let ?rm1 = "rm\<lparr>buffer_pool_manager := bp\<rparr>" and ?n = "rm_GetNextPageId rm"
    note h = same_recs_heap [OF inv sr]
    from insert_new_page_spec [OF h(1) st] next_ok td(2) obtain rm'
      where n: "insert_new_page td (word_of_nat (length td)) ?rm1 = Some (\<lparr>rid_page_id = ?n, rid_slot_id = 0\<rparr>, rm')"
        "rm_inv True rm'" "rm_GetNextPageId rm' = ?n + 1" "?n \<notin> set (page_ids rm)"
        "page_ids rm' = page_ids rm @ [?n]" "heap_of rm' = heap_of rm @ [(?n, [Some td])]"
      by (auto simp: h)
    have "heap_of rm' = heap_append ?n td (heap_of rm)"
      using n(4,6) by (simp add: heap_append_def heap_of_def map_pair_append recs_at_def map_of_map_restrict)
    moreover have "?n \<noteq> INVALID_PAGE_ID" using next_ok by (rule page_addr_valid)
    ultimately show ?thesis using r n by simp
  qed
qed

text \<open>Stored records have 1 to 4084 bytes: the tuple area is what the header and one slot leave.\<close>

lemma record_size_bound:
  assumes inv: "page_inv d" and r: "Some td \<in> set (page_records d)"
  shows "0 < length td \<and> length td \<le> 4084"
proof -
  from r obtain s where s: "s \<in> set (page_slots d)" "live s" "td = slice (s_off s) (s_len s) d"
    by (auto simp: page_records_def slot_record_def split: if_splits)
  from s(1) have "page_slots d \<noteq> []" by auto
  then have "0 < cnt d" using length_page_slots [of d] by (metis length_greater_0_conv)
  with live_slot_bounds [OF inv s(1,2)] page_inv_room [OF inv] page_inv_length [OF inv] s(3)
  show ?thesis using s(2) by (simp add: s_len_pos PAGE_SIZE_def)
qed

lemma appended_size:
  assumes "appended b K td rid bp bp'"
  shows "0 < length td \<and> length td \<le> 4084"
proof -
  let ?p = "rid_page_id rid"
  from assms have p: "?p \<in> K" "pages_ok b K bp'" "recs_of bp' ?p = recs_of bp ?p @ [Some td]"
    by (auto simp: appended_def)
  then obtain d where "page_view bp' ?p = Some d" "page_inv d" by (auto simp: pages_ok_def page_ok_def)
  with p(3) show ?thesis by (intro record_size_bound) (auto simp: recs_of_def)
qed

text \<open>A larger record (below the wrap of the space check) is refused; no record is touched, but a
  page id is used up.\<close>

lemma rm_Insert_too_big:
  assumes inv: "rm_inv True rm" and td: "4084 < length td" "length td < 65532"
    and next_ok: "page_addr (rm_GetNextPageId rm)"
  shows "\<exists>rm'. rm_Insert (Some td) (length td) rm = Some (invalid_rid, rm') \<and> rm_inv True rm' \<and>
    heap_of rm' = heap_of rm \<and> page_ids rm' = page_ids rm \<and> rm_GetNextPageId rm' = rm_GetNextPageId rm + 1"
proof -
  have st: "storable_tuple td" using td by (auto simp: storable_tuple_def)
  show ?thesis
  proof (rule rm_Insert_cases [OF inv st])
    fix rid bp assume "appended True (set (page_ids rm)) td rid (buffer_pool_manager rm) bp"
    from appended_size [OF this] td(1) show ?thesis by simp
  next
    fix bp assume r: "rm_Insert (Some td) (length td) rm =
        insert_new_page td (word_of_nat (length td)) (rm\<lparr>buffer_pool_manager := bp\<rparr>)"
      and sr: "same_recs True (set (page_ids rm)) (buffer_pool_manager rm) bp"
    note h = same_recs_heap [OF inv sr]
    from insert_new_page_spec [OF h(1) st] next_ok td(1) r show ?thesis by (auto simp: h)
  qed
qed

text \<open>First fit: if a page has room, the first such page gets the record and none is allocated.\<close>

lemma rm_Insert_first_fit:
  assumes inv: "rm_inv b rm" and td: "storable_tuple td"
    and p: "find (has_room (length td) (buffer_pool_manager rm)) (page_ids rm) = Some p"
  shows "\<exists>rid rm'. rm_Insert (Some td) (length td) rm = Some (rid, rm') \<and> rid_page_id rid = p \<and>
    rm_inv b rm' \<and> page_ids rm' = page_ids rm \<and> heap_of rm' = heap_append p td (heap_of rm)"
proof -
  let ?bp = "buffer_pool_manager rm"
  from inv have ok: "pages_ok b (set (page_ids rm)) ?bp" by (simp add: rm_inv_def)
  have sz: "\<not> (length td = 0 \<or> 65535 < length td)" using td by (auto simp: storable_tuple_def)
  from insert_first_fit_spec [OF ok subset_refl td] p obtain rid bp'
    where i: "insert_first_fit td (word_of_nat (length td)) (page_ids rm) ?bp = Some (Some rid, bp')"
      "rid_page_id rid = p" and ap: "appended b (set (page_ids rm)) td rid ?bp bp'" by auto
  from i sz appended_heap [OF inv ap] show ?thesis by (auto simp: rm_Insert_def)
qed

subsection \<open>Flush and start-up\<close>

lemma rm_inv_new: "rm_inv b (new_RecordManager dm)" and heap_of_new: "heap_of (new_RecordManager dm) = []"
  using quiet_new [of kDefaultPoolSize dm]
  by (simp_all add: rm_inv_def pages_ok_def new_RecordManager_def kDefaultPoolSize_def heap_of_def)

end
