(* ===== verification/Record_Update.thy ===== *)
theory Record_Update
  imports Record_Heap
begin

section \<open>Updating a record in place or at the free end of its page\<close>

text \<open>
  \<open>Update\<close> overwrites a record when the new value is not longer, and otherwise writes it at the
  free end of the page, leaving the old bytes as a hole. Either way the record list changes in one
  place only. The in-place case keeps the tuples in slot order; the growing case does not.
\<close>

lemma page_update_slot:
  assumes inv: "page_inv d" and i: "i < cnt d" and l: "length d' = PAGE_SIZE"
    and lo: "fso d' \<le> fso d" "8 + 4 * cnt d \<le> fso d' + 1"
    and ss: "page_slots d' = (page_slots d)[i := t]"
    and t: "live t" "fso d' < s_off t" "s_off t + s_len t \<le> PAGE_SIZE" "slice (s_off t) (s_len t) d' = td"
    and others: "\<And>j. j < cnt d \<Longrightarrow> j \<noteq> i \<Longrightarrow> live (page_slots d ! j) \<Longrightarrow>
      (below t (page_slots d ! j) \<or> below (page_slots d ! j) t) \<and>
      slot_record d' (page_slots d ! j) = slot_record d (page_slots d ! j)"
  shows "page_inv d'" and "page_records d' = (page_records d)[i := Some td]"
proof -
  have c: "cnt d' = cnt d" using ss by (metis length_list_update length_page_slots)
  have n: "page_slots d' ! j = (if j = i then t else page_slots d ! j)" if "j < cnt d" for j
    using that by (simp add: ss nth_list_update)
  show "page_records d' = (page_records d)[i := Some td]"
  proof (rule nth_equalityI)
    fix j assume "j < length (page_records d')"
    then have j: "j < cnt d" by (simp add: c)
    then have "slot_record d' (page_slots d' ! j) = (if j = i then Some td else slot_record d (page_slots d ! j))"
      using others [OF j] t by (cases "live (page_slots d ! j)") (auto simp: n slot_record_def)
    with j c show "page_records d' ! j = (page_records d)[i := Some td] ! j"
      by (auto simp: page_records_def nth_list_update)
  qed (simp add: c)
  have lp: "below (page_slots d ! j) (page_slots d ! k) \<or> below (page_slots d ! k) (page_slots d ! j)"
    if "j < k" "k < cnt d" "live (page_slots d ! j)" "live (page_slots d ! k)" for j k
    using inv that by (auto simp: page_inv_def layout_ok_def live_pairs_def)
  have "live_pairs (\<lambda>s t. below t s \<or> below s t) (page_slots d')"
    unfolding live_pairs_def
  proof (intro allI impI)
    fix j k assume jk: "j < k" "k < length (page_slots d')" "live (page_slots d' ! j)" "live (page_slots d' ! k)"
    then have k: "j < cnt d" "k < cnt d" using c by auto
    with jk others [OF k(1)] others [OF k(2)] lp [OF jk(1) k(2)]
    show "below (page_slots d' ! k) (page_slots d' ! j) \<or> below (page_slots d' ! j) (page_slots d' ! k)"
      by (auto simp: n split: if_splits)
  qed
  moreover have "s_off s + s_len s \<le> PAGE_SIZE \<and> (live s \<longrightarrow> fso d' < s_off s)" if "s \<in> set (page_slots d')" for s
  proof -
    from that have "s = t \<or> s \<in> set (page_slots d)" unfolding ss by (meson set_update_subset_insert subsetD insertE)
    then show ?thesis
    proof
      assume s: "s \<in> set (page_slots d)"
      then have "s_off s + s_len s \<le> PAGE_SIZE" "live s \<longrightarrow> fso d < s_off s"
        using inv by (auto simp: page_inv_def layout_ok_def)
      with lo show ?thesis by auto
    qed (use t in auto)
  qed
  moreover have "8 + 4 * cnt d' \<le> fso d' + 1 \<and> fso d' < PAGE_SIZE"
    using lo page_inv_room [OF inv] c by auto
  ultimately show "page_inv d'" using l by (auto simp: page_inv_def layout_ok_def)
qed

text \<open>The other live tuples of a page lie clear of the bytes of slot \<open>i\<close>.\<close>

lemma other_slot_clear:
  assumes inv: "page_inv d" and ij: "i < cnt d" "j < cnt d" "j \<noteq> i"
    and lv: "live (page_slots d ! i)" "live (page_slots d ! j)"
  shows "below (page_slots d ! i) (page_slots d ! j) \<or> below (page_slots d ! j) (page_slots d ! i)"
  using assms by (cases "i < j") (auto simp: page_inv_def layout_ok_def live_pairs_def)

lemma update_in_place:
  assumes ok: "page_ok b d" and i: "unat i < cnt d" and lv: "live (page_slots d ! unat i)"
    and ts: "unat ts = length td" "td \<noteq> []" and n: "length td \<le> s_len (page_slots d ! unat i)"
  shows "\<exists>d'. update_tuple i td ts d = Some (True, d') \<and> page_ok b d' \<and>
    page_records d' = (page_records d)[unat i := Some td]"
proof -
  let ?s = "page_slots d ! unat i" and ?a = "slot_addr (unat i)"
  note inv = page_okD [OF ok] note r = page_inv_room [OF inv] and l = page_inv_length [OF inv]
  have s: "fso d < s_off ?s" "s_off ?s + s_len ?s \<le> PAGE_SIZE"
    using live_slot_bounds [OF inv _ lv] i by simp_all
  define t where "t = ?s\<lparr>slot_length := ts\<rparr>"
  have t: "s_off t = s_off ?s" "s_len t = length td" "live t"
    using ts by (auto simp: t_def s_off_def s_len_def live_def)
  define d1 where "d1 = splice_at (s_off ?s) td d"
  define d2 where "d2 = splice_at (?a + 2) (le16 ts) d1"
  have a: "?a + 4 \<le> 8 + 4 * cnt d" using i by (rule slot_addr_bound)
  have l1: "length d1 = PAGE_SIZE" using l s n by (simp add: d1_def)
  have "8 + 4 * cnt d \<le> s_off ?s" "s_off ?s + length td \<le> length d" using r s n l by auto
  note p1 = page_slots_splice [OF this, folded d1_def]
  have "load_slot ?a d1 = Some ?s" using load_slot_page_slots [OF l1] i r p1 by simp
  then have ld: "load_slot ?a d2 = Some t"
    using a l1 r unfolding d2_def t_def by (intro load_slot_splice_length) auto
  note p2 = page_slots_set_slot [OF _ _ _ _ ld [unfolded d2_def], folded d2_def]
  have ss: "page_slots d2 = (page_slots d)[unat i := t]" and h2: "load_header d2 = load_header d"
    using p2 i r l1 p1 by auto
  have l2: "length d2 = PAGE_SIZE" using l1 a r by (simp add: d2_def)
  have f2: "fso d2 = fso d" using h2 by (simp add: fso_def)
  have sl: "slice x m d2 = slice x m d1" if "fso d < x" "x + m \<le> PAGE_SIZE" for x m
    using that a r l1 unfolding d2_def by (intro slice_splice_at_disjoint) auto
  have new: "slice (s_off t) (s_len t) d2 = td"
    using sl [of "s_off ?s" "length td"] s n t l by (simp add: d1_def slice_splice_at_same)
  have oth: "(below t (page_slots d ! j) \<or> below (page_slots d ! j) t) \<and>
      slot_record d2 (page_slots d ! j) = slot_record d (page_slots d ! j)"
    if j: "j < cnt d" "j \<noteq> unat i" "live (page_slots d ! j)" for j
  proof -
    have b: "fso d < s_off (page_slots d ! j) \<and> s_off (page_slots d ! j) + s_len (page_slots d ! j) \<le> PAGE_SIZE"
      using live_slot_bounds [OF inv _ j(3)] j(1) by simp
    have c: "below ?s (page_slots d ! j) \<or> below (page_slots d ! j) ?s"
      by (rule other_slot_clear [OF inv i j(1,2) lv j(3)])
    then have "slice (s_off (page_slots d ! j)) (s_len (page_slots d ! j)) d1 =
        slice (s_off (page_slots d ! j)) (s_len (page_slots d ! j)) d"
      using b n l s unfolding d1_def below_def by (intro slice_splice_at_disjoint) auto
    with b c n t sl show ?thesis by (auto simp: below_def slot_record_def)
  qed
  have "page_inv d2" "page_records d2 = (page_records d)[unat i := Some td]"
    by (rule page_update_slot [OF inv i l2 _ _ ss]; use t new oth f2 r s n in auto)+
  moreover have "page_ordered d2" if o: "page_ordered d"
    unfolding page_ordered_def live_pairs_def
  proof (intro allI impI)
    fix j k assume jk: "j < k" "k < length (page_slots d2)" "live (page_slots d2 ! j)" "live (page_slots d2 ! k)"
    have nth: "page_slots d2 ! m = (if m = unat i then t else page_slots d ! m)" if "m < cnt d" for m
      using that by (simp add: ss nth_list_update)
    have k: "j < cnt d" "k < cnt d" using jk(1,2) by (simp_all add: ss)
    then have "below (page_slots d ! k) (page_slots d ! j)"
      using o jk lv by (auto simp: page_ordered_def live_pairs_def nth split: if_splits)
    with t(1,2) n k show "below (page_slots d2 ! k) (page_slots d2 ! j)"
      by (auto simp: below_def nth)
  qed
  moreover have "update_tuple i td ts d = Some (True, d2)"
  proof -
    have bs: "mem_read 0 (unat ts) td = Some td" using ts slice_full [of td] by (simp add: mem_read_def)
    have w1: "mem_write (unat (slot_offset ?s)) td d = Some d1"
      using s n l by (simp add: mem_write_def d1_def s_off_def)
    have w2: "store_slot_length ?a ts d1 = Some d2"
      using a l1 r by (simp add: store_slot_length_def mem_write_def d2_def)
    have le: "ts \<le> slot_length ?s" using n ts(1) by (simp add: word_le_nat_alt s_len_def)
    show ?thesis
      using i lv load_slot_inv [OF inv i] le bs w1 w2
      by (simp add: update_tuple_def slot_id_iff live_def Let_def)
  qed
  ultimately show ?thesis using ok by (auto simp: page_ok_def)
qed

lemma update_grow_layout:
  assumes inv: "page_inv d" and i: "unat i < cnt d" and lv: "live (page_slots d ! unat i)"
    and ts: "unat ts = length td" "td \<noteq> []" and n: "s_len (page_slots d ! unat i) < length td"
    and room: "length td \<le> free_bytes d" and lo_def: "lo = fso d - length td"
  shows "\<exists>d' nn. update_tuple i td ts d = Some (True, d') \<and> length d' = PAGE_SIZE \<and> fso d' = lo \<and> cnt d' = cnt d \<and>
    unat nn = lo + 1 \<and> page_slots d' = (page_slots d)[unat i := \<lparr>slot_offset = nn, slot_length = ts\<rparr>] \<and>
    slice (lo + 1) (length td) d' = td \<and>
    (\<forall>a n. fso d < a \<and> a + n \<le> PAGE_SIZE \<longrightarrow> slice a n d' = slice a n d)"
proof -
  let ?s = "page_slots d ! unat i" and ?a = "slot_addr (unat i)"
  note r = page_inv_room [OF inv] and l = page_inv_length [OF inv]
  have lo: "8 + 4 * cnt d \<le> lo + 1" "lo + length td = fso d"
    using room r by (auto simp: free_bytes_def lo_def)
  define nn where "nn = free_space_offset (load_header d) - ts + 1"
  have nn: "unat nn = lo + 1"
    using lo ts r unat_u16_sub [of ts "free_space_offset (load_header d)"] unfolding nn_def
    by (subst unat_u16_add) (auto simp: fso_def PAGE_SIZE_def)
  have nn1: "unat (nn - 1) = lo" using nn by (subst unat_u16_sub) auto
  define t where "t = \<lparr>slot_offset = nn, slot_length = ts\<rparr>"
  define d1 where "d1 = splice_at (lo + 1) td d"
  define d2 where "d2 = splice_at ?a (le16 nn) d1"
  define d3 where "d3 = splice_at (?a + 2) (le16 ts) d2"
  define d4 where "d4 = store_header ((load_header d3)\<lparr>free_space_offset := nn - 1\<rparr>) d3"
  have a: "?a + 4 \<le> 8 + 4 * cnt d" using i by (rule slot_addr_bound)
  have l1: "length d1 = PAGE_SIZE" using l lo r by (simp add: d1_def)
  have "8 + 4 * cnt d \<le> lo + 1" "lo + 1 + length td \<le> length d" using r lo l by auto
  note p1 = page_slots_splice [OF this, folded d1_def]
  have "load_slot ?a d1 = Some ?s" using load_slot_page_slots [OF l1] i r p1 by simp
  then have ld2: "load_slot ?a d2 = Some (?s\<lparr>slot_offset := nn\<rparr>)"
    using a l1 r unfolding d2_def by (intro load_slot_splice_offset) auto
  note p2 = page_slots_set_slot [OF _ _ _ _ ld2 [unfolded d2_def], folded d2_def]
  have ss2: "page_slots d2 = (page_slots d)[unat i := ?s\<lparr>slot_offset := nn\<rparr>]" and h2: "load_header d2 = load_header d"
    using p2 i r l1 p1 by auto
  have l2: "length d2 = PAGE_SIZE" using l1 a r by (simp add: d2_def)
  have c2: "cnt d2 = cnt d" using h2 by (simp add: cnt_def)
  have "load_slot ?a d3 = Some ((?s\<lparr>slot_offset := nn\<rparr>)\<lparr>slot_length := ts\<rparr>)"
    using a l2 r ld2 unfolding d3_def by (intro load_slot_splice_length) auto
  then have ld3: "load_slot ?a d3 = Some t" by (simp add: t_def)
  note p3 = page_slots_set_slot [OF _ _ _ _ ld3 [unfolded d3_def], folded d3_def]
  have ss3: "page_slots d3 = (page_slots d)[unat i := t]" and h3: "load_header d3 = load_header d"
    using p3 i r l2 ss2 c2 h2 by auto
  have l3: "length d3 = PAGE_SIZE" using l2 a r by (simp add: d3_def)
  have l4: "length d4 = PAGE_SIZE" using l3 by (simp add: d4_def)
  have f4: "fso d4 = lo" and c4: "cnt d4 = cnt d"
    unfolding d4_def store_header_counts [OF l3] using nn1 by (simp_all add: h3 cnt_def)
  have "cnt d3 = cnt d" using h3 by (simp add: cnt_def)
  then have "page_slots d4 = page_slots d3"
    unfolding page_slots_def c4 using l3 by (simp add: d4_def load_slot_store_header)
  with ss3 have ss4: "page_slots d4 = (page_slots d)[unat i := t]" by simp
  have sl: "slice x m d4 = slice x m d1" if "lo < x" "x + m \<le> PAGE_SIZE" for x m
  proof -
    have "slice x m d4 = slice x m d3" unfolding d4_def using that l3 lo by (intro slice_store_header) auto
    also have "\<dots> = slice x m d2"
      using that a lo l2 unfolding d3_def by (intro slice_splice_at_disjoint) auto
    also have "\<dots> = slice x m d1"
      using that a lo l1 unfolding d2_def by (intro slice_splice_at_disjoint) auto
    finally show ?thesis .
  qed
  have new: "slice (lo + 1) (length td) d4 = td"
    using sl [of "lo + 1" "length td"] lo r l by (simp add: d1_def slice_splice_at_same)
  have old: "slice x m d4 = slice x m d" if "fso d < x" "x + m \<le> PAGE_SIZE" for x m
    using sl [of x m] that lo l r by (simp add: d1_def slice_splice_at_disjoint)
  have "update_tuple i td ts d = Some (True, d4)"
  proof -
    have bs: "mem_read 0 (unat ts) td = Some td" using ts slice_full [of td] by (simp add: mem_read_def)
    have w: "mem_write (unat nn) td d = Some d1" "store_slot_offset ?a nn d1 = Some d2"
      "store_slot_length ?a ts d2 = Some d3"
      using nn lo r l l1 l2 a
      by (simp_all add: mem_write_def store_slot_offset_def store_slot_length_def d1_def d2_def d3_def)
    have nle: "\<not> ts \<le> slot_length ?s" using n ts(1) by (simp add: word_le_nat_alt s_len_def)
    have av: "\<not> (free_space_offset (load_header d) + 1) - (8 + slot_count (load_header d) * 4) < ts"
      using room ts(1) available_space_free [OF inv] by (simp add: word_less_nat_alt)
    show ?thesis
      unfolding update_tuple_def Let_def nn_def [symmetric]
      using i lv load_slot_inv [OF inv i] nle av bs w by (simp add: slot_id_iff live_def d4_def)
  qed
  with l4 f4 c4 nn ss4 new old show ?thesis by (auto simp: t_def)
qed

lemma update_grow:
  assumes inv: "page_inv d" and i: "unat i < cnt d" and lv: "live (page_slots d ! unat i)"
    and ts: "unat ts = length td" "td \<noteq> []" and n: "s_len (page_slots d ! unat i) < length td"
    and room: "length td \<le> free_bytes d"
  shows "\<exists>d'. update_tuple i td ts d = Some (True, d') \<and> page_inv d' \<and>
    page_records d' = (page_records d)[unat i := Some td] \<and> free_bytes d' = free_bytes d - length td"
proof -
  note r = page_inv_room [OF inv]
  define lo where "lo = fso d - length td"
  have lo: "8 + 4 * cnt d \<le> lo + 1" "lo + length td = fso d"
    using room r by (auto simp: free_bytes_def lo_def)
  from update_grow_layout [OF inv i lv ts n room lo_def] obtain d' nn where
    u: "update_tuple i td ts d = Some (True, d')" and d': "length d' = PAGE_SIZE" "fso d' = lo" "cnt d' = cnt d"
    and nn: "unat nn = lo + 1"
    and ss: "page_slots d' = (page_slots d)[unat i := \<lparr>slot_offset = nn, slot_length = ts\<rparr>]"
    and new: "slice (lo + 1) (length td) d' = td"
    and old: "\<And>a n. fso d < a \<Longrightarrow> a + n \<le> PAGE_SIZE \<Longrightarrow> slice a n d' = slice a n d" by blast
  let ?t = "\<lparr>slot_offset = nn, slot_length = ts\<rparr>"
  have t: "s_off ?t = lo + 1" "s_len ?t = length td" "live ?t"
    using ts nn by (auto simp: s_off_def s_len_def live_def)
  have oth: "(below ?t (page_slots d ! j) \<or> below (page_slots d ! j) ?t) \<and>
      slot_record d' (page_slots d ! j) = slot_record d (page_slots d ! j)"
    if j: "j < cnt d" "j \<noteq> unat i" "live (page_slots d ! j)" for j
    using live_slot_bounds [OF inv _ j(3)] j(1) t lo old by (simp add: below_def slot_record_def)
  have "page_inv d'" "page_records d' = (page_records d)[unat i := Some td]"
    by (rule page_update_slot [OF inv i d'(1) _ _ ss]; use t new oth d' r lo in auto)+
  moreover have "free_bytes d' = free_bytes d - length td"
    using d' lo by (simp add: free_bytes_def)
  ultimately show ?thesis using u by blast
qed

lemma update_refused:
  assumes inv: "page_inv d" and ts: "unat ts = length td"
    and no: "cnt d \<le> unat i \<or> \<not> live (page_slots d ! unat i) \<or>
      s_len (page_slots d ! unat i) < length td \<and> free_bytes d < length td"
  shows "update_tuple i td ts d = Some (False, d)"
proof (cases "unat i < cnt d \<and> live (page_slots d ! unat i)")
  case True
  with no ts have "\<not> ts \<le> slot_length (page_slots d ! unat i)"
    "(free_space_offset (load_header d) + 1) - (8 + slot_count (load_header d) * 4) < ts"
    using available_space_free [OF inv] by (auto simp: word_le_nat_alt word_less_nat_alt s_len_def)
  with True load_slot_inv [OF inv, of "unat i"] show ?thesis
    by (simp add: update_tuple_def slot_id_iff live_def Let_def)
next
  case False
  with load_slot_inv [OF inv, of "unat i"] show ?thesis
    by (auto simp: update_tuple_def slot_id_iff live_def Let_def)
qed

lemma s_len_record:
  assumes "page_inv d" and "i < cnt d" and "page_records d ! i = Some r"
  shows "live (page_slots d ! i)" and "s_len (page_slots d ! i) = length r"
proof -
  let ?s = "page_slots d ! i"
  show lv: "live ?s" using assms by (auto simp: page_records_def slot_record_def split: if_splits)
  then show "s_len ?s = length r"
    using assms live_slot_bounds [OF assms(1) _ lv] page_inv_length [OF assms(1)]
    by (auto simp: page_records_def slot_record_def)
qed

definition free_at :: "BufferPool \<Rightarrow> int \<Rightarrow> nat" where
  "free_at bp p = (case page_view bp p of None \<Rightarrow> 0 | Some d \<Rightarrow> free_bytes d)"

lemma rm_Update_spec:
  assumes inv: "rm_inv b rm" and p: "rid_page_id rid \<in> set (page_ids rm)"
    and td: "0 < length td" "length td \<le> 65535"
  shows "\<exists>ok rm'. rm_Update rid (Some td) (length td) rm = Some (ok, rm') \<and> rm_inv False rm' \<and>
    page_ids rm' = page_ids rm \<and> rm_GetNextPageId rm' = rm_GetNextPageId rm \<and>
    heap_of rm' = (if ok then heap_put rid (Some td) (heap_of rm) else heap_of rm) \<and>
    (ok \<longleftrightarrow> (\<exists>old. heap_get (heap_of rm) rid = Some old \<and>
       (length td \<le> length old \<or> length td \<le> free_at (buffer_pool_manager rm) (rid_page_id rid)))) \<and>
    (\<not> ok \<longrightarrow> rm_inv b rm') \<and>
    (\<forall>old. heap_get (heap_of rm) rid = Some old \<and> length td \<le> length old \<longrightarrow> ok \<and> rm_inv b rm')"
proof -
  let ?bp = "buffer_pool_manager rm" and ?p = "rid_page_id rid" and ?i = "unat (rid_slot_id rid)"
  let ?K = "set (page_ids rm)" and ?ts = "word_of_nat (length td) :: u16"
  have ts: "unat ?ts = length td" using td by (simp add: unat_u16_of_nat)
  from inv have ok: "pages_ok b ?K ?bp" by (simp add: rm_inv_def)
  from page_bracket [OF ok p] obtain f bp1 d where f: "FetchPage ?p ?bp = Some (Some f, bp1)"
    "frame_data f bp1 = d" "page_view ?bp ?p = Some d" "page_ok b d"
    and w: "\<And>d'. page_ok b d' \<Longrightarrow> keeps b ?K ((page_view ?bp)(?p \<mapsto> d')) (next_page_id ?bp)
           (snd (UnpinPage ?p True (set_frame_data f d' bp1)))"
    and k: "keeps b ?K (page_view ?bp) (next_page_id ?bp) (snd (UnpinPage ?p False bp1))"
    by blast
  from page_bracket [OF pages_ok_weaken [OF ok] p] f(1)
  have w': "\<And>d'. page_ok False d' \<Longrightarrow> keeps False ?K ((page_view ?bp)(?p \<mapsto> d')) (next_page_id ?bp)
           (snd (UnpinPage ?p True (set_frame_data f d' bp1)))" by auto
  note d = page_okD [OF f(4)]
  have get: "heap_get (heap_of rm) rid = (if ?i < cnt d then page_records d ! ?i else None)"
    and recs: "recs_at (heap_of rm) ?p = page_records d"
    using f(3) p by (simp_all add: heap_get_def recs_of_def lookup_rec_def)
  have run: "rm_Update rid (Some td) (length td) rm = Some (r, rm\<lparr>buffer_pool_manager :=
      snd (UnpinPage ?p r (set_frame_data f d' bp1))\<rparr>)"
    if "update_tuple (rid_slot_id rid) td ?ts d = Some (r, d')" for r d'
    using that f(1,2) td page_ok_addr [OF ok p] by (simp add: rm_Update_def)
  have fr: "free_at ?bp ?p = free_bytes d" using f(3) by (simp add: free_at_def)
  have same: "set_frame_data f d bp1 = bp1" using set_frame_data_same [of f bp1] f(2) by simp
  have nx: "rm_GetNextPageId (rm\<lparr>buffer_pool_manager := bp\<rparr>) = rm_GetNextPageId rm"
    if "keeps b' ?K v (next_page_id ?bp) bp" for b' v bp
    using that by (simp add: rm_GetNextPageId_def keeps_def)
  show ?thesis
  proof (cases "heap_get (heap_of rm) rid")
    case None
    then have "cnt d \<le> ?i \<or> \<not> live (page_slots d ! ?i)"
      using get by (auto simp: page_records_def slot_record_def split: if_splits)
    then have "update_tuple (rid_slot_id rid) td ?ts d = Some (False, d)"
      using update_refused [OF d ts] by blast
    from run [OF this] None rm_inv_keeps [OF inv k] rm_inv_weaken [OF rm_inv_keeps [OF inv k]]
      heap_of_keeps_same [OF k] nx [OF k]
    show ?thesis unfolding same fr by (intro exI [of _ False]) simp
  next
    case (Some old)
    then have i: "?i < cnt d" "page_records d ! ?i = Some old" using get by (auto split: if_splits)
    note s = s_len_record [OF d i]
    consider (inplace) "length td \<le> length old" | (grow) "length old < length td" "length td \<le> free_bytes d"
      | (full) "length old < length td" "free_bytes d < length td" by linarith
    then show ?thesis
    proof cases
      case inplace
      with update_in_place [OF f(4) i(1) s(1) ts] td s(2) obtain d' where d':
        "update_tuple (rid_slot_id rid) td ?ts d = Some (True, d')" "page_ok b d'"
        "page_records d' = (page_records d)[?i := Some td]" by auto
      note k' = w [OF d'(2)]
      from run [OF d'(1)] rm_inv_keeps [OF inv k'] rm_inv_weaken [OF rm_inv_keeps [OF inv k']]
        heap_of_keeps_update [OF inv p k', unfolded d'(3)] nx [OF k'] Some recs inplace
      show ?thesis unfolding fr by (intro exI [of _ True]) (simp add: heap_put_def)
    next
      case grow
      with update_grow [OF d i(1) s(1) ts] td s(2) obtain d' where d':
        "update_tuple (rid_slot_id rid) td ?ts d = Some (True, d')" "page_ok False d'"
        "page_records d' = (page_records d)[?i := Some td]" by (auto simp: page_ok_def)
      note k' = w' [OF d'(2)]
      from run [OF d'(1)] rm_inv_keeps [OF inv k']
        heap_of_keeps_update [OF inv p k', unfolded d'(3)] nx [OF k'] Some recs grow
      show ?thesis unfolding fr by (intro exI [of _ True]) (simp add: heap_put_def)
    next
      case full
      then have "update_tuple (rid_slot_id rid) td ?ts d = Some (False, d)"
        using update_refused [OF d ts] s(2) by simp
      from run [OF this] Some full rm_inv_keeps [OF inv k] rm_inv_weaken [OF rm_inv_keeps [OF inv k]]
      heap_of_keeps_same [OF k] nx [OF k]
      show ?thesis unfolding same fr by (intro exI [of _ False]) simp
    qed
  qed
qed

end
