(* ===== verification/Page_Properties.thy ===== *)
theory Page_Properties
  imports Slotted_Page
begin

section \<open>Properties of slotted pages\<close>

text \<open>
  What the operations on a page do to the records that \<open>GetTuple\<close> reads, and the sizes at which the
  space check is wrong.
\<close>

text \<open>A fresh page, on which the properties are instantiated.\<close>

definition fresh_page :: "byte list" where
  "fresh_page = InitializePage 0 (replicate PAGE_SIZE 0)"

lemma fresh_page: "page_inv fresh_page" "page_ordered fresh_page" "free_bytes fresh_page = 4088"
  "cnt fresh_page = 0" "page_records fresh_page = []" "length fresh_page = PAGE_SIZE"
  using InitializePage_spec [of "replicate PAGE_SIZE 0" 0]
  by (simp_all add: fresh_page_def free_bytes_def PAGE_SIZE_def)

lemma GetTuple_records:
  assumes "page_inv d" and "page_inv d'" and "cnt d' = cnt d" and "page_records d' = page_records d"
  shows "GetTuple PAGE_SIZE i d' = GetTuple PAGE_SIZE i d"
  using assms by (simp add: GetTuple_refines)

lemma GetTuple_record:
  assumes "page_inv d" and "unat i < cnt d" and "page_records d ! unat i = Some td"
  shows "GetTuple PAGE_SIZE i d = Some (Some (td, word_of_nat (length td)))"
  using assms by (simp add: GetTuple_refines)

text \<open>A page with two tuples, the first of them deleted.\<close>

lemma holed_page: "\<exists>d. page_inv d \<and> page_ordered d \<and> page_records d = [None, Some [5]]"
proof -
  from InsertTuple_refines(1) [OF fresh_page(1), of 3 "[7, 8, 9]"] fresh_page obtain d1
    where 1: "page_inv d1" "page_records d1 = [Some [7, 8, 9]]" "free_bytes d1 = 4081" "page_ordered d1" by auto
  from InsertTuple_refines(1) [OF 1(1), of 1 "[5]"] 1 obtain d2
    where 2: "page_inv d2" "page_records d2 = [Some [7, 8, 9], Some [5]]" "page_ordered d2" by auto
  have "cnt d2 = 2" using arg_cong [OF 2(2), of length] by simp
  then have "unat (0 :: u16) < cnt d2" by simp
  from DeleteTuple_refines [OF 2(1) this] 2 show ?thesis by auto
qed

text \<open>C8. A tuple stored on a page can be read back under the slot id it was given, with its bytes and
  its length; every slot that was there before reads as before; and the page loses exactly the bytes
  of the tuple and of one slot.\<close>
theorem InsertTuple_GetTuple:
  assumes inv: "page_inv d" and td: "storable_tuple td" and room: "length td + 4 \<le> free_bytes d"
  shows "\<exists>slot d'. InsertTuple td (word_of_nat (length td)) d = Some (Some slot, d') \<and>
    unat slot = cnt d \<and> page_inv d' \<and>
    GetTuple PAGE_SIZE slot d' = Some (Some (td, word_of_nat (length td))) \<and>
    (\<forall>i. unat i < cnt d \<longrightarrow> GetTuple PAGE_SIZE i d' = GetTuple PAGE_SIZE i d) \<and>
    free_bytes d' = free_bytes d - (length td + 4)"
proof -
  have td': "td \<noteq> []" "length td < 65532" using td by (auto simp: storable_tuple_def)
  from InsertTuple_refines(1) [OF inv storable_size [OF td] td' room] obtain d'
    where d': "InsertTuple td (word_of_nat (length td)) d = Some (Some (word_of_nat (cnt d)), d')" "page_inv d'"
      "page_records d' = page_records d @ [Some td]" "free_bytes d' = free_bytes d - (length td + 4)" by blast
  have c: "cnt d' = cnt d + 1" using arg_cong [OF d'(3), of length] by simp
  have s: "unat (word_of_nat (cnt d) :: u16) = cnt d" using cnt_bound by (simp add: unat_u16_of_nat)
  have "GetTuple PAGE_SIZE i d' = GetTuple PAGE_SIZE i d" if "unat i < cnt d" for i
    using that inv d'(2,3) c by (simp add: GetTuple_refines nth_append)
  moreover have "GetTuple PAGE_SIZE (word_of_nat (cnt d)) d' = Some (Some (td, word_of_nat (length td)))"
    by (rule GetTuple_record [OF d'(2)]) (simp_all add: s c d'(3) nth_append)
  ultimately show ?thesis using d' s by auto
qed

lemma InsertTuple_GetTuple_witness:
  "\<exists>slot d'. InsertTuple [7, 8, 9] 3 fresh_page = Some (Some slot, d') \<and>
    GetTuple PAGE_SIZE slot d' = Some (Some ([7, 8, 9], 3)) \<and> free_bytes d' = 4081"
  using InsertTuple_GetTuple [OF fresh_page(1), of "[7, 8, 9]"]
  by (auto simp: storable_tuple_def fresh_page)

text \<open>C15. The space check is exact below its wrap: a tuple of 1 to 65531 bytes is accepted just when
  it and its slot fit into the gap between slot array and tuple area, and a refused insertion leaves
  the page as it was.\<close>
theorem InsertTuple_accepts_iff:
  assumes inv: "page_inv d" and td: "storable_tuple td"
  shows "(HasEnoughSpace d (word_of_nat (length td)) \<longleftrightarrow> length td + 4 \<le> free_bytes d) \<and>
    (InsertTuple td (word_of_nat (length td)) d = Some (None, d) \<longleftrightarrow> free_bytes d < length td + 4)"
proof -
  have td': "td \<noteq> []" "length td < 65532" using td by (auto simp: storable_tuple_def)
  note i = InsertTuple_refines [OF inv storable_size [OF td] td']
  have "InsertTuple td (word_of_nat (length td)) d = Some (None, d) \<longleftrightarrow> \<not> length td + 4 \<le> free_bytes d"
    using i by (cases "length td + 4 \<le> free_bytes d") auto
  then show ?thesis
    using HasEnoughSpace_iff [OF inv, of "word_of_nat (length td)"] storable_size [OF td] td'(2) by auto
qed

lemma InsertTuple_accepts_iff_witness:
  "HasEnoughSpace fresh_page (word_of_nat 4084) \<and> \<not> HasEnoughSpace fresh_page (word_of_nat 4085)"
  using InsertTuple_accepts_iff [OF fresh_page(1), of "replicate 4084 0"]
    InsertTuple_accepts_iff [OF fresh_page(1), of "replicate 4085 0"]
  by (simp add: storable_tuple_def fresh_page)

text \<open>C40. The check wraps for the four largest 16-bit sizes: on any page with three free bytes it lets a
  tuple of 65532 to 65535 bytes pass, and the copy then leaves the page (undefined behaviour).\<close>
theorem InsertTuple_wrap_overruns:
  assumes inv: "page_inv d" and td: "65532 \<le> length td" "length td \<le> 65535" and room: "3 \<le> free_bytes d"
  shows "HasEnoughSpace d (word_of_nat (length td)) \<and> InsertTuple td (word_of_nat (length td)) d = None"
proof -
  let ?ts = "word_of_nat (length td) :: u16"
  let ?nn = "free_space_offset (load_header d) - ?ts + 1"
  have ts: "unat ?ts = length td" using td(2) by (simp add: unat_u16_of_nat)
  have has: "HasEnoughSpace d ?ts" using HasEnoughSpace_wraps [OF inv _ room] ts td(1) by simp
  have bs: "mem_read 0 (unat ?ts) td = Some td" using ts slice_full [of td] by (simp add: mem_read_def)
  have "mem_write (unat ?nn) td d = None"
    using page_inv_length [OF inv] td(1) by (simp add: mem_write_def PAGE_SIZE_def)
  with has bs have "InsertTuple td ?ts d = None" by (simp add: InsertTuple_def Let_def)
  with has show ?thesis by blast
qed

lemma InsertTuple_wrap_overruns_witness:
  "InsertTuple (replicate 65532 0) (word_of_nat 65532) fresh_page = None"
  using InsertTuple_wrap_overruns [OF fresh_page(1), of "replicate 65532 0"] by (simp add: fresh_page)

text \<open>C12. Deleting a tuple turns its slot into a hole (read as zero bytes) and touches nothing else: all
  other slots read as before, the space bookkeeping and the slot count stay, and slot ids are not
  reused. A slot id the page does not have is refused and the page left as it was.\<close>
theorem DeleteTuple_isolated:
  assumes inv: "page_inv d"
  shows "\<exists>d'. DeleteTuple i d = Some (unat i < cnt d, d') \<and> page_inv d' \<and> cnt d' = cnt d \<and>
    free_bytes d' = free_bytes d \<and>
    (\<forall>j. GetTuple PAGE_SIZE j d' =
       (if j = i \<and> unat i < cnt d then Some (Some ([], 0)) else GetTuple PAGE_SIZE j d))"
proof (cases "unat i < cnt d")
  case True
  from DeleteTuple_refines [OF inv True] obtain d' where d': "DeleteTuple i d = Some (True, d')" "page_inv d'"
    "page_records d' = (page_records d)[unat i := None]" "fso d' = fso d" "cnt d' = cnt d" by blast
  note g = GetTuple_refines [OF inv order_refl] GetTuple_refines [OF d'(2) order_refl]
  have "GetTuple PAGE_SIZE j d' = (if j = i then Some (Some ([], 0)) else GetTuple PAGE_SIZE j d)" for j
  proof (cases "j = i")
    case False
    then have "unat j \<noteq> unat i" by (auto dest: unsigned_word_eqI)
    then show ?thesis using False unfolding g d'(3,5) by simp
  qed (use True in \<open>simp add: g d'(3,5)\<close>)
  with True d' show ?thesis by (simp add: free_bytes_def)
next
  case False
  with inv show ?thesis by (auto simp: DeleteTuple_no_slot)
qed

lemma DeleteTuple_isolated_witness:
  "\<exists>d d'. page_records d = [None, Some [5]] \<and> DeleteTuple 1 d = Some (True, d') \<and>
    GetTuple PAGE_SIZE 1 d' = Some (Some ([], 0))"
proof -
  from holed_page obtain d where d: "page_inv d" "page_records d = [None, Some [5]]" by blast
  have "cnt d = 2" using arg_cong [OF d(2), of length] by simp
  with DeleteTuple_isolated [OF d(1), of 1] d(2) show ?thesis by auto
qed

text \<open>C7. Compaction of a page whose live tuples lie in slot order loses nothing: every slot id reads as
  before, and afterwards the free gap is all of the page but its header, its slots and the live
  tuples.\<close>
theorem CompactOnePage_keeps_records:
  assumes inv: "page_inv d" and ord: "page_ordered d"
  shows "\<exists>d'. CompactOnePage d = Some d' \<and> page_inv d' \<and> page_ordered d' \<and>
    (\<forall>i. GetTuple PAGE_SIZE i d' = GetTuple PAGE_SIZE i d) \<and>
    free_bytes d' + (8 + 4 * cnt d + record_bytes (page_records d)) = PAGE_SIZE"
proof -
  from CompactOnePage_spec [OF inv ord] obtain d' where d': "CompactOnePage d = Some d'" "page_inv d'"
    "page_ordered d'" "page_records d' = page_records d" "fso d' + used_bytes d + 1 = PAGE_SIZE" by blast
  have c: "cnt d' = cnt d" using d'(4) by (metis length_page_records)
  have "free_bytes d' + (8 + 4 * cnt d + record_bytes (page_records d)) = PAGE_SIZE"
    using d'(5) page_inv_room [OF d'(2)] c used_bytes_records [OF inv] by (simp add: free_bytes_def)
  with d' GetTuple_records [OF inv d'(2) c d'(4)] show ?thesis by blast
qed

lemma CompactOnePage_keeps_records_witness:
  "\<exists>d d'. page_records d = [None, Some [5]] \<and> CompactOnePage d = Some d' \<and> free_bytes d' = 4079 \<and>
    GetTuple PAGE_SIZE 1 d' = Some (Some ([5], 1))"
proof -
  from holed_page obtain d where d: "page_inv d" "page_ordered d" "page_records d = [None, Some [5]]" by blast
  have c: "cnt d = 2" using arg_cong [OF d(3), of length] by simp
  have "GetTuple PAGE_SIZE 1 d = Some (Some ([5], 1))"
    using GetTuple_record [OF d(1), of 1 "[5]"] c d(3) by simp
  with CompactOnePage_keeps_records [OF d(1,2)] c d(3) show ?thesis
    by (auto simp: record_bytes_def PAGE_SIZE_def)
qed

end
