(* ===== verification/Page_Overlap.thy ===== *)
theory Page_Overlap
  imports Record_Update Page_Properties
begin

section \<open>Compaction after a record has grown\<close>

text \<open>
  A growing \<open>Update\<close> leaves a page whose live tuples are not in slot order. \<open>CompactOnePage\<close> then
  moves the first tuple to the end of the page while the second still lies there.
\<close>

lemma slice_append: "slice a (m + n) d = slice a m d @ slice (a + m) n d"
  by (simp add: slice_def take_add add.commute)

lemma slice_prefix: "m \<le> n \<Longrightarrow> slice a m d = take m (slice a n d)"
  by (simp add: slice_def min_def)

text \<open>Two live tuples, of which the second reaches \<open>k\<close> bytes into the place the first is moved to: these bytes
  of the second record are replaced by the first \<open>k\<close> bytes of the first.\<close>

lemma compact_overlap:
  assumes l: "length d = PAGE_SIZE" and c: "cnt d = 2"
    and s: "s_off (page_slots d ! 0) + s_len (page_slots d ! 0) \<le> PAGE_SIZE"
      "s_off (page_slots d ! 1) + s_len (page_slots d ! 1) + s_len (page_slots d ! 0) = PAGE_SIZE + k"
    and k: "k \<le> s_len (page_slots d ! 0)" "k \<le> s_len (page_slots d ! 1)"
    and room: "16 + s_len (page_slots d ! 0) + s_len (page_slots d ! 1) \<le> PAGE_SIZE" "16 \<le> s_off (page_slots d ! 1)"
    and r: "slot_record d (page_slots d ! 0) = Some x" "slot_record d (page_slots d ! 1) = Some y"
  shows "\<exists>d'. CompactOnePage d = Some d' \<and> page_records d' = [Some x, Some (take (length y - k) y @ take k x)]"
proof -
  let ?s = "page_slots d ! 0" and ?t = "page_slots d ! 1"
  from r have lv: "live ?s" "live ?t" and x: "x = slice (s_off ?s) (s_len ?s) d" and y: "y = slice (s_off ?t) (s_len ?t) d"
    by (auto simp: slot_record_def split: if_splits)
  define v where "v = PAGE_SIZE - 1 - s_len ?s"
  define w where "w = v - s_len ?t"
  have vw: "v + 1 + s_len ?s = PAGE_SIZE" "w + 1 + s_len ?t = v + 1" "16 \<le> w + 1" "16 \<le> v + 1" "v < PAGE_SIZE"
    using room by (auto simp: v_def w_def PAGE_SIZE_def)
  have "8 + 4 * cnt d \<le> v + 1" "PAGE_SIZE - 1 < PAGE_SIZE" "v + 1 + s_len ?s = PAGE_SIZE - 1 + 1"
    "0 < cnt d" "1 < cnt d" "8 + 4 * cnt d \<le> PAGE_SIZE" using vw c by (auto simp: PAGE_SIZE_def)
  note a = this
  from compact_step [OF l a(4,2) s(1) a(3,1)] obtain d1 d2 where
    m: "mem_move (int (PAGE_SIZE - 1) - int (s_len ?s) + 1) (s_off ?s) (s_len ?s) d = Some d1"
      "store_slot_offset (slot_addr 0) (word_of_int (int (PAGE_SIZE - 1) - int (s_len ?s) + 1)) d1 = Some d2"
    and l2: "length d2 = PAGE_SIZE" and h2: "load_header d2 = load_header d"
    and ss2: "page_slots d2 = (page_slots d)[0 := ?s\<lparr>slot_offset := word_of_nat (v + 1)\<rparr>]"
    and x2: "slice (v + 1) (s_len ?s) d2 = x"
    and keep2: "\<And>b n. 8 + 4 * cnt d \<le> b \<Longrightarrow> b + n \<le> PAGE_SIZE \<Longrightarrow> b + n \<le> v + 1 \<or> PAGE_SIZE - 1 < b \<Longrightarrow>
        slice b n d2 = slice b n d"
    unfolding x by blast
  have c2: "cnt d2 = 2" using h2 c by (simp add: cnt_def)
  have t2: "page_slots d2 ! 1 = ?t" using c by (simp add: ss2)
  have b: "1 < cnt d2" "s_off (page_slots d2 ! 1) + s_len (page_slots d2 ! 1) \<le> PAGE_SIZE"
    "w + 1 + s_len (page_slots d2 ! 1) = v + 1" "8 + 4 * cnt d2 \<le> w + 1" "8 + 4 * cnt d2 \<le> PAGE_SIZE"
    unfolding t2 using vw s k c2 by auto
  from compact_step [OF l2 b(1) vw(5) b(2,3,4), unfolded t2] obtain d3 d4 where
    n: "mem_move (int v - int (s_len ?t) + 1) (s_off ?t) (s_len ?t) d2 = Some d3"
      "store_slot_offset (slot_addr 1) (word_of_int (int v - int (s_len ?t) + 1)) d3 = Some d4"
    and l4: "length d4 = PAGE_SIZE" and h4: "load_header d4 = load_header d2"
    and ss4: "page_slots d4 = (page_slots d2)[1 := ?t\<lparr>slot_offset := word_of_nat (w + 1)\<rparr>]"
    and y4: "slice (w + 1) (s_len ?t) d4 = slice (s_off ?t) (s_len ?t) d2"
    and keep4: "\<And>b n. 8 + 4 * cnt d2 \<le> b \<Longrightarrow> b + n \<le> PAGE_SIZE \<Longrightarrow> b + n \<le> w + 1 \<or> v < b \<Longrightarrow>
        slice b n d4 = slice b n d2" by blast
  have c4: "cnt d4 = 2" using h4 c2 by (simp add: cnt_def)
  have run: "compact_loop 0 (int (PAGE_SIZE - 1)) d = Some (int w, d4)"
  proof -
    have e: "int (PAGE_SIZE - 1) - int (s_len ?s) + 1 - 1 = int v" "int v - int (s_len ?t) + 1 - 1 = int w"
      using vw by (auto simp: PAGE_SIZE_def)
    have "compact_loop 0 (int (PAGE_SIZE - 1)) d = compact_loop 1 (int v) d2"
      unfolding compact_loop_slot [OF l a(6,4)] m(1) Option.bind_lunit m(2) e(1) using lv(1) by (simp add: live_def)
    also have "\<dots> = compact_loop 2 (int w) d4"
      unfolding compact_loop_slot [OF l2 b(5,1)] t2 n(1) Option.bind_lunit n(2) e(2) using lv(2) by (simp add: live_def numeral_2_eq_2)
    also have "\<dots> = Some (int w, d4)" using c4 by (subst compact_loop.simps) (simp add: cnt_def)
    finally show ?thesis .
  qed
  have "w < PAGE_SIZE" using vw by simp
  then obtain d' where cp: "CompactOnePage d = Some d'" and s': "page_slots d' = page_slots d4"
    and sl: "\<And>b n. 8 \<le> b \<Longrightarrow> b + n \<le> PAGE_SIZE \<Longrightarrow> slice b n d' = slice b n d4"
    using compact_finish [OF run l4] by blast
  have "page_slots d = [?s, ?t]" using c by (intro nth_equalityI) (auto simp: less_2_cases_iff)
  then have slots: "page_slots d' = [?s\<lparr>slot_offset := word_of_nat (v + 1)\<rparr>, ?t\<lparr>slot_offset := word_of_nat (w + 1)\<rparr>]"
    unfolding s' ss4 ss2 by (metis One_nat_def list_update_code(2,3))
  have off: "unat (word_of_nat (v + 1) :: u16) = v + 1" "unat (word_of_nat (w + 1) :: u16) = w + 1"
    by (rule unat_u16_of_nat; use vw in \<open>simp add: PAGE_SIZE_def\<close>)+
  have rx: "slice (v + 1) (s_len ?s) d' = x"
    using sl [of "v + 1" "s_len ?s"] keep4 [of "v + 1" "s_len ?s"] vw c2 x2 by simp
  have ry: "slice (w + 1) (s_len ?t) d' = take (length y - k) y @ take k x"
  proof -
    have ly: "length y = s_len ?t" using s k l y by simp
    have o: "s_off ?t + (s_len ?t - k) = v + 1" using s(2) k vw by simp
    have "slice (w + 1) (s_len ?t) d' = slice (s_off ?t) (s_len ?t) d2"
      using sl [of "w + 1" "s_len ?t"] vw y4 by simp
    also have "\<dots> = slice (s_off ?t) (s_len ?t - k) d2 @ slice (v + 1) k d2"
      using slice_append [of "s_off ?t" "s_len ?t - k" k d2] k o by simp
    also have "slice (v + 1) k d2 = take k x" using slice_prefix [OF k(1), of "v + 1" d2] x2 by simp
    also have "slice (s_off ?t) (s_len ?t - k) d2 = take (length y - k) y" unfolding ly
      using keep2 [of "s_off ?t" "s_len ?t - k"] o room c vw slice_prefix [of "s_len ?t - k" "s_len ?t" "s_off ?t" d]
      by (simp add: y)
    finally show ?thesis .
  qed
  have "page_records d' = [Some x, Some (take (length y - k) y @ take k x)]"
    using rx ry off lv by (simp add: page_records_def slots slot_record_def s_off_def s_len_def live_def)
  with cp show ?thesis by blast
qed

text \<open>C30. A record that an update has grown is moved, by the next compaction of its page, over a record that was
  stored after it: of two records on a fresh page, the second ends in the first bytes of the first.\<close>
theorem grown_record_overwrites:
  assumes pg: "length pg = PAGE_SIZE" and a: "storable_tuple a" and b: "storable_tuple b"
    and c: "length a < length c" "length c \<le> length a + length b" "length a + length b + length c + 16 \<le> PAGE_SIZE"
  shows "\<exists>d1 d2 d3 d4. InsertTuple a (word_of_nat (length a)) (InitializePage pid pg) = Some (Some 0, d1) \<and>
    InsertTuple b (word_of_nat (length b)) d1 = Some (Some 1, d2) \<and>
    update_tuple 0 c (word_of_nat (length c)) d2 = Some (True, d3) \<and> page_records d3 = [Some c, Some b] \<and>
    CompactOnePage d3 = Some d4 \<and>
    page_records d4 = [Some c, Some (take (length a + length b - length c) b @ take (length c - length a) c)]"
proof -
  let ?d0 = "InitializePage pid pg"
  note a' = storable_size [OF a] and b' = storable_size [OF b]
  have c': "unat (word_of_nat (length c) :: u16) = length c"
    by (rule unat_u16_of_nat) (use c in \<open>simp add: PAGE_SIZE_def\<close>)
  have pos: "0 < length a" "0 < length b" "length a < 65532" "length b < 65532" using a b by (simp_all add: storable_tuple_def)
  then have ne: "a \<noteq> []" "b \<noteq> []" "c \<noteq> []" using c by auto
  have i0: "page_inv ?d0" "cnt ?d0 = 0" "fso ?d0 = 4095" "page_slots ?d0 = []" "page_records ?d0 = []"
    using InitializePage_spec [OF pg, of pid] by (auto simp: PAGE_SIZE_def)
  have f0: "length a + 4 \<le> free_bytes ?d0" using i0 c by (simp add: free_bytes_def PAGE_SIZE_def)
  from InsertTuple_spec [OF i0(1) a' pos(3) f0 refl] InsertTuple_refines(1) [OF i0(1) a' ne(1) pos(3) f0] i0 obtain d1 n1 where
    1: "InsertTuple a (word_of_nat (length a)) ?d0 = Some (Some 0, d1)" "page_inv d1" "cnt d1 = 1"
      "fso d1 + length a = 4095" "unat n1 = fso d1 + 1" "page_records d1 = [Some a]"
      "page_slots d1 = [\<lparr>slot_offset = n1, slot_length = word_of_nat (length a)\<rparr>]"
    using c by (auto simp: PAGE_SIZE_def)
  have f1: "length b + 4 \<le> free_bytes d1" using 1 c by (simp add: free_bytes_def PAGE_SIZE_def)
  from InsertTuple_spec [OF 1(2) b' pos(4) f1 refl] InsertTuple_refines(1) [OF 1(2) b' ne(2) pos(4) f1] 1 obtain d2 n2 where
    2: "InsertTuple b (word_of_nat (length b)) d1 = Some (Some 1, d2)" "page_inv d2" "cnt d2 = 2"
      "fso d2 + length b = fso d1" "unat n2 = fso d2 + 1" "page_records d2 = [Some a, Some b]"
      "page_slots d2 = [\<lparr>slot_offset = n1, slot_length = word_of_nat (length a)\<rparr>,
        \<lparr>slot_offset = n2, slot_length = word_of_nat (length b)\<rparr>]"
    using c by (auto simp: PAGE_SIZE_def numeral_2_eq_2)
  let ?i = "0 :: u16"
  have u: "unat ?i < cnt d2" "live (page_slots d2 ! unat ?i)" "s_len (page_slots d2 ! unat ?i) < length c"
    "length c \<le> free_bytes d2"
    using 2 1 c pos a' by (auto simp: live_def s_len_def free_bytes_def PAGE_SIZE_def simp flip: unat_gt_0)
  from update_grow_layout [OF 2(2) u(1,2) c' ne(3) u(3,4) refl] update_grow [OF 2(2) u(1,2) c' ne(3) u(3,4)] 2 obtain d3 n3 where
    3: "update_tuple 0 c (word_of_nat (length c)) d2 = Some (True, d3)" "page_inv d3" "cnt d3 = 2"
      "fso d3 + length c = fso d2" "unat n3 = fso d3 + 1" "page_records d3 = [Some c, Some b]"
      "page_slots d3 = [\<lparr>slot_offset = n3, slot_length = word_of_nat (length c)\<rparr>,
        \<lparr>slot_offset = n2, slot_length = word_of_nat (length b)\<rparr>]"
    using c 1 by (auto simp: PAGE_SIZE_def)
  have o: "\<exists>d4. CompactOnePage d3 = Some d4 \<and> page_records d4 =
      [Some c, Some (take (length b - (length c - length a)) b @ take (length c - length a) c)]"
    by (rule compact_overlap)
      (use 1 2 3 c a' b' c' page_inv_length [OF 3(2)] in \<open>simp_all add: s_off_def s_len_def page_records_def PAGE_SIZE_def\<close>)
  have "length b - (length c - length a) = length a + length b - length c" using c by simp
  with o 1 2 3 show ?thesis by auto
qed

lemma grown_record_overwrites_witness:
  "\<exists>d3 d4. page_records d3 = [Some [1, 2], Some [8, 9]] \<and> CompactOnePage d3 = Some d4 \<and>
    page_records d4 = [Some [1, 2], Some [8, 1]]"
  using grown_record_overwrites [of "replicate PAGE_SIZE 0" "[7]" "[8, 9]" "[1, 2]" 0]
  by (simp add: storable_tuple_def PAGE_SIZE_def) blast

end
