(* ===== verification/Pool_Flush.thy ===== *)
theory Pool_Flush
  imports Pool_Protocol
begin

section \<open>Flushing, deleting and restarting\<close>

text \<open>
  \<open>FlushPage\<close> writes one dirty page back; \<open>FlushAllPages\<close> walks the page table in its iteration
  order. Between brackets (\<open>quiet\<close>) a flush changes nothing a client sees and leaves every known
  page on disk, so that a new pool over the same file shows the same pages.
\<close>

definition clean_of :: "int \<Rightarrow> BufferPool \<Rightarrow> BufferPool \<Rightarrow> bool" where
  "clean_of pid bp bp' \<longleftrightarrow> page_table bp' = page_table bp \<and> next_page_id bp' = next_page_id bp \<and>
     (\<forall>k < pool_size bp. data (pages bp' ! k) = data (pages bp ! k) \<and>
        page_id (pages bp' ! k) = page_id (pages bp ! k) \<and>
        pin_count (pages bp' ! k) = pin_count (pages bp ! k) \<and>
        is_dirty (pages bp' ! k) = (is_dirty (pages bp ! k) \<and> frame_of bp pid \<noteq> Some k))"

lemma FlushPage_missing: "frame_of bp pid = None \<Longrightarrow> FlushPage pid bp = Some (False, bp)"
  by (simp add: FlushPage_def)

lemma coherentD:
  "coherent K bp \<Longrightarrow> k \<in> set (lru_list bp) \<Longrightarrow> page_id (pages bp ! k) \<in> K \<Longrightarrow> \<not> is_dirty (pages bp ! k) \<Longrightarrow>
    disk_page (disk_manager bp) (page_id (pages bp ! k)) = Some (data (pages bp ! k))"
  by (simp add: coherent_def)

lemma bp_inv_clean:
  assumes inv: "bp_inv bp" and f: "f < pool_size bp"
  shows "bp_inv (upd_page f (\<lambda>p. p\<lparr>is_dirty := False\<rparr>) (bp\<lparr>disk_manager := dm\<rparr>))"
proof -
  let ?b = "upd_page f (\<lambda>p. p\<lparr>is_dirty := False\<rparr>) (bp\<lparr>disk_manager := dm\<rparr>)"
  have fl: "f < length (pages bp)" using inv f by (simp add: bp_inv_defs)
  have p: "page_id (pages ?b ! k) = page_id (pages bp ! k)" "pin_count (pages ?b ! k) = pin_count (pages bp ! k)" for k
    using fl by (cases "k = f"; simp)+
  have fr: "frame_of ?b = frame_of bp" by (simp add: frame_of_def)
  have "frames_ok ?b"
    using inv fl by (auto simp: bp_inv_defs dest!: set_update_subset_insert [THEN subsetD])
  moreover have "table_ok ?b" "lists_ok ?b"
    using inv unfolding bp_inv_def table_ok_def lists_ok_def p fr by (simp_all add: frame_of_def)
  ultimately show ?thesis by (simp add: bp_inv_def)
qed

lemma FlushPage_dirty:
  assumes inv: "bp_inv bp" and f: "frame_of bp pid = Some f" and a: "page_addr pid" and d: "is_dirty (pages bp ! f)"
  shows "\<exists>dm. FlushPage pid bp = Some (True, upd_page f (\<lambda>p. p\<lparr>is_dirty := False\<rparr>) (bp\<lparr>disk_manager := dm\<rparr>)) \<and>
    (disk_page (disk_manager bp))(pid \<mapsto> data (pages bp ! f)) \<subseteq>\<^sub>m disk_page dm"
  using disk.wr_extends [OF a length_frame_data [OF inv], of f "disk_manager bp"] frame_of_SomeD [OF inv f] f d
  by (auto simp: FlushPage_def)

lemma FlushPage_quiet:
  assumes qt: "quiet K bp"
  shows "\<exists>bp'. FlushPage pid bp = Some (frame_of bp pid \<noteq> None, bp') \<and> quiet K bp' \<and>
    (\<forall>q \<in> K. page_view bp' q = page_view bp q) \<and> clean_of pid bp bp' \<and> pool_size bp' = pool_size bp"
proof (cases "frame_of bp pid")
  case None
  then show ?thesis using qt by (simp add: FlushPage_missing clean_of_def)
next
  case (Some f)
  from qt have inv: "bp_inv bp" and ok: "pool_ok K bp" and coh: "coherent K bp"
    by (auto simp: quiet_def pool_ok_def)
  note f = frame_of_SomeD [OF inv Some]
  show ?thesis
  proof (cases "is_dirty (pages bp ! f)")
    case False
    then have "FlushPage pid bp = Some (True, bp)" using Some by (simp add: FlushPage_def)
    then show ?thesis using qt Some False by (auto simp: clean_of_def)
  next
    case True
    have a: "page_addr pid" using pool_ok_resident [OF ok, of pid] Some by auto
    from FlushPage_dirty [OF inv Some a True] obtain dm
      where fl: "FlushPage pid bp = Some (True, upd_page f (\<lambda>p. p\<lparr>is_dirty := False\<rparr>) (bp\<lparr>disk_manager := dm\<rparr>))"
        and le: "(disk_page (disk_manager bp))(pid \<mapsto> data (pages bp ! f)) \<subseteq>\<^sub>m disk_page dm" by blast
    define b where "b = upd_page f (\<lambda>p. p\<lparr>is_dirty := False\<rparr>) (bp\<lparr>disk_manager := dm\<rparr>)"
    have fr: "frame_of b = frame_of bp" by (simp add: b_def frame_of_def)
    have p: "page_id (pages b ! k) = page_id (pages bp ! k)" "data (pages b ! k) = data (pages bp ! k)"
      "pin_count (pages b ! k) = pin_count (pages bp ! k)"
      "is_dirty (pages b ! k) = (is_dirty (pages bp ! k) \<and> k \<noteq> f)" for k
      using f by (cases "k = f"; simp add: b_def)+
    have b: "pool_size b = pool_size bp" "lru_list b = lru_list bp" "disk_manager b = dm"
      "next_page_id b = next_page_id bp" "page_table b = page_table bp" by (simp_all add: b_def)
    have keep: "disk_page dm q = Some e" if "disk_page (disk_manager bp) q = Some e" "q \<noteq> pid" for q e
      by (rule map_le_Some [OF le]) (use that in simp)
    have new: "disk_page dm pid = Some (data (pages bp ! f))" by (rule map_le_Some [OF le]) simp
    have view: "page_view b q = page_view bp q" if q: "q \<in> K" for q
    proof (cases "frame_of bp q")
      case None
      then have "q \<noteq> pid" using Some by auto
      with None pool_ok_known [OF ok q] keep show ?thesis by (auto simp: page_view_def fr b)
    qed (simp add: page_view_def fr p)
    have "coherent K b"
      unfolding coherent_def b p
    proof (intro ballI impI)
      fix k assume k: "k \<in> set (lru_list bp)"
        and c: "page_id (pages bp ! k) \<in> K \<and> \<not> (is_dirty (pages bp ! k) \<and> k \<noteq> f)"
      show "disk_page dm (page_id (pages bp ! k)) = Some (data (pages bp ! k))"
      proof (cases "k = f")
        case True
        then show ?thesis using new f by simp
      next
        case False
        have "k < pool_size bp" using k inv by (auto simp: bp_inv_defs)
        then have "page_id (pages bp ! k) \<noteq> pid" using frame_inj [OF inv, of k f] f False by auto
        with keep coherentD [OF coh k] c False show ?thesis by blast
      qed
    qed
    moreover have "bp_inv b" unfolding b_def by (rule bp_inv_clean [OF inv]) (use f in simp)
    ultimately have "quiet K b"
      using qt view unfolding quiet_def pool_ok_def by (simp add: b p fr)
    moreover have "clean_of pid bp b" using Some p by (auto simp: clean_of_def b)
    ultimately show ?thesis using fl Some view b by (auto simp: b_def [symmetric])
  qed
qed

lemma flush_pages_quiet:
  assumes "quiet K bp"
  shows "\<exists>bp'. flush_pages pids bp = Some bp' \<and> quiet K bp' \<and> (\<forall>q \<in> K. page_view bp' q = page_view bp q) \<and>
    page_table bp' = page_table bp \<and> next_page_id bp' = next_page_id bp \<and> pool_size bp' = pool_size bp \<and>
    (\<forall>k < pool_size bp. is_dirty (pages bp' ! k) = (is_dirty (pages bp ! k) \<and> (\<forall>pid \<in> set pids. frame_of bp pid \<noteq> Some k)))"
  using assms
proof (induction pids arbitrary: bp)
  case (Cons pid pids)
  from FlushPage_quiet [OF Cons.prems, of pid] obtain bp1
    where 1: "FlushPage pid bp = Some (frame_of bp pid \<noteq> None, bp1)" "quiet K bp1"
      "\<forall>q \<in> K. page_view bp1 q = page_view bp q" "clean_of pid bp bp1" "pool_size bp1 = pool_size bp" by blast
  from Cons.IH [OF 1(2)] obtain bp2
    where 2: "flush_pages pids bp1 = Some bp2" "quiet K bp2" "\<forall>q \<in> K. page_view bp2 q = page_view bp1 q"
      "page_table bp2 = page_table bp1" "next_page_id bp2 = next_page_id bp1" "pool_size bp2 = pool_size bp1"
      "\<forall>k < pool_size bp1. is_dirty (pages bp2 ! k) = (is_dirty (pages bp1 ! k) \<and> (\<forall>pid \<in> set pids. frame_of bp1 pid \<noteq> Some k))"
    by blast
  have "frame_of bp1 = frame_of bp" using 1(4) by (simp add: clean_of_def frame_of_def)
  with 1 2 show ?case by (simp add: clean_of_def)
qed simp

text \<open>After \<open>FlushAllPages\<close> no resident page is dirty, and every known page is on disk.\<close>

lemma FlushAllPages_quiet:
  assumes qt: "quiet K bp"
  shows "\<exists>bp'. FlushAllPages bp = Some bp' \<and> quiet K bp' \<and> (\<forall>q \<in> K. page_view bp' q = page_view bp q) \<and>
    (\<forall>q \<in> K. disk_page (disk_manager bp') q = page_view bp q) \<and> next_page_id bp' = next_page_id bp \<and>
    page_table bp' = page_table bp \<and> (\<forall>pid f. frame_of bp' pid = Some f \<longrightarrow> \<not> is_dirty (pages bp' ! f))"
proof -
  from flush_pages_quiet [OF qt, of "map fst (page_table bp)"] obtain bp'
    where r: "FlushAllPages bp = Some bp'" "quiet K bp'" "\<forall>q \<in> K. page_view bp' q = page_view bp q"
      "page_table bp' = page_table bp" "next_page_id bp' = next_page_id bp" "pool_size bp' = pool_size bp"
      and d: "\<forall>k < pool_size bp. is_dirty (pages bp' ! k) =
        (is_dirty (pages bp ! k) \<and> (\<forall>pid \<in> set (map fst (page_table bp)). frame_of bp pid \<noteq> Some k))"
    unfolding FlushAllPages_def by blast
  from qt r(2) have inv: "bp_inv bp" "bp_inv bp'" and ok': "pool_ok K bp'" and coh: "coherent K bp'"
    and pins: "\<forall>f < pool_size bp'. pin_count (pages bp' ! f) = 0"
    by (auto simp: quiet_def pool_ok_def)
  have fr: "frame_of bp' = frame_of bp" using r(4) by (simp add: frame_of_def)
  have clean: "\<not> is_dirty (pages bp' ! f)" if "frame_of bp' pid = Some f" for pid f
  proof -
    have "pid \<in> set (map fst (page_table bp))" using that fr by (force simp: frame_of_def dest: map_of_SomeD)
    with that fr d frame_of_SomeD [OF inv(1)] show ?thesis by metis
  qed
  have "disk_page (disk_manager bp') q = page_view bp q" if q: "q \<in> K" for q
  proof (cases "frame_of bp' q")
    case None
    with q r(3) show ?thesis by (auto simp: page_view_def)
  next
    case (Some f)
    note f = frame_of_SomeD [OF inv(2) Some]
    have "f \<in> set (lru_list bp')" using f pins inv(2) by (auto simp: bp_inv_defs)
    from coherentD [OF coh this] clean [OF Some] f q Some r(3) show ?thesis by (auto simp: page_view_def)
  qed
  with r clean show ?thesis by blast
qed

text \<open>A new pool over the file, told the next page id, shows the pages that are on disk.\<close>

lemma quiet_restart:
  assumes n: "0 < n" and K: "\<forall>q \<in> K. page_addr q \<and> q < m \<and> disk_page dm q \<noteq> None"
  shows "quiet K (SetNextPageId m (new_BufferPool n dm))"
    and "page_view (SetNextPageId m (new_BufferPool n dm)) q = disk_page dm q"
proof -
  let ?b = "SetNextPageId m (new_BufferPool n dm)"
  have b: "pool_size ?b = n" "disk_manager ?b = dm" "page_table ?b = []" "frame_of ?b = Map.empty"
    "lru_list ?b = []" "next_page_id ?b = m" "pages ?b = replicate n empty_Page"
    by (simp_all add: SetNextPageId_def new_BufferPool_def frame_of_def fun_eq_iff)
  show v: "page_view ?b q = disk_page dm q" for q by (simp add: page_view_def b)
  have "bp_inv ?b" by (auto simp: bp_inv_defs SetNextPageId_def new_BufferPool_def frame_of_def empty_Page_def)
  moreover have "coherent K ?b" by (simp add: coherent_def b)
  ultimately show "quiet K ?b"
    using n K unfolding quiet_def pool_ok_def v by (simp add: b empty_Page_def)
qed

text \<open>Deleting a page from the pool writes it back and frees its frame; the page stays readable.\<close>

lemma DeletePage_missing: "frame_of bp pid = None \<Longrightarrow> DeletePage pid bp = Some (False, bp)"
  by (simp add: DeletePage_def)

lemma DeletePage_pinned:
  "frame_of bp pid = Some f \<Longrightarrow> 0 < pin_count (pages bp ! f) \<Longrightarrow> DeletePage pid bp = Some (False, bp)"
  by (simp add: DeletePage_def)

lemma bp_inv_drop:
  fixes dm :: DiskManager
  assumes inv: "bp_inv bp" and f: "frame_of bp pid = Some f" and pin: "\<not> 0 < pin_count (pages bp ! f)"
  defines "b \<equiv> upd_page f (\<lambda>p. p\<lparr>page_id := INVALID_PAGE_ID, pin_count := 0, is_dirty := False\<rparr>)
           (bp\<lparr>disk_manager := dm, page_table := AList.delete pid (page_table bp)\<rparr>)"
  shows "bp_inv (b\<lparr>free_list := free_list b @ [f]\<rparr>)" and "frame_of (b\<lparr>free_list := free_list b @ [f]\<rparr>) = (frame_of bp)(pid := None)"
proof -
  let ?b = "b\<lparr>free_list := free_list b @ [f]\<rparr>"
  note fx = frame_of_SomeD [OF inv f]
  show fr: "frame_of ?b = (frame_of bp)(pid := None)" by (simp add: b_def frame_of_def delete_conv')
  have p: "page_id (pages ?b ! k) = (if k = f then INVALID_PAGE_ID else page_id (pages bp ! k))"
    "pin_count (pages ?b ! k) = (if k = f then 0 else pin_count (pages bp ! k))" for k
    using fx by (simp_all add: b_def nth_list_update)
  have b: "pool_size ?b = pool_size bp" "lru_list ?b = lru_list bp" "lru_pos ?b = lru_pos bp"
    "free_list ?b = free_list bp @ [f]" "page_table ?b = AList.delete pid (page_table bp)"
    by (simp_all add: b_def)
  have "frames_ok ?b"
    using inv fx by (auto simp: b_def bp_inv_defs dest!: set_update_subset_insert [THEN subsetD])
  moreover have "table_ok ?b"
  proof -
    have "distinct (map fst (AList.delete pid (page_table bp)))"
      using inv by (simp add: bp_inv_def table_ok_def distinct_delete)
    moreover have "k = f" if "k < pool_size bp" "page_id (pages bp ! k) = pid" for k
      using frame_inj [OF inv that(1), of f] fx that(2) by simp
    ultimately show ?thesis using fx unfolding table_ok_def fr p b by (auto simp: table_ok_iff [OF inv])
  qed
  moreover have "lists_ok ?b"
    using inv fx unfolding bp_inv_def lists_ok_def p b by auto
  ultimately show "bp_inv ?b" by (simp add: bp_inv_def)
qed

lemma DeletePage_quiet:
  assumes qt: "quiet K bp"
  shows "\<exists>bp'. DeletePage pid bp = Some (frame_of bp pid \<noteq> None, bp') \<and> quiet K bp' \<and>
    (\<forall>q \<in> K. page_view bp' q = page_view bp q) \<and> frame_of bp' = (frame_of bp)(pid := None) \<and>
    next_page_id bp' = next_page_id bp"
proof (cases "frame_of bp pid")
  case None
  then show ?thesis using qt by (auto simp: DeletePage_missing fun_upd_idem)
next
  case (Some f)
  from qt have inv: "bp_inv bp" and ok: "pool_ok K bp" and coh: "coherent K bp"
    and pins: "\<forall>f < pool_size bp. pin_count (pages bp ! f) = 0"
    by (auto simp: quiet_def pool_ok_def)
  note f = frame_of_SomeD [OF inv Some]
  have a: "page_addr pid" using pool_ok_resident [OF ok, of pid] Some by auto
  have fl: "f \<in> set (lru_list bp)" using f pins inv by (auto simp: bp_inv_defs)
  from disk.wr_extends [OF a length_frame_data [OF inv], of f "disk_manager bp"] f
  obtain dm1 where dm1: "WritePage pid (data (pages bp ! f)) (disk_manager bp) = Some dm1"
      "(disk_page (disk_manager bp))(pid \<mapsto> data (pages bp ! f)) \<subseteq>\<^sub>m disk_page dm1" by auto
  define dm where "dm = (if is_dirty (pages bp ! f) then dm1 else disk_manager bp)"
  have keep: "disk_page dm q = Some e" if "disk_page (disk_manager bp) q = Some e" "q \<noteq> pid" for q e
    using map_le_Some [OF dm1(2), of q e] that by (simp add: dm_def)
  have new: "disk_page dm pid = Some (data (pages bp ! f))" if "pid \<in> K"
    using map_le_Some [OF dm1(2), of pid] coherentD [OF coh fl] f that by (auto simp: dm_def)
  define b0 where "b0 = upd_page f (\<lambda>p. p\<lparr>page_id := INVALID_PAGE_ID, pin_count := 0, is_dirty := False\<rparr>)
           (bp\<lparr>disk_manager := dm, page_table := AList.delete pid (page_table bp)\<rparr>)"
  define b where "b = b0\<lparr>free_list := free_list b0 @ [f]\<rparr>"
  have del: "DeletePage pid bp = Some (True, b)"
    using Some pins f dm1(1) by (simp add: DeletePage_def b_def b0_def dm_def Let_def)
  note drop = bp_inv_drop [OF inv Some, of dm, folded b0_def, folded b_def]
  have inv': "bp_inv b" and fr: "frame_of b = (frame_of bp)(pid := None)" using drop pins f by simp_all
  have b: "pool_size b = pool_size bp" "lru_list b = lru_list bp" "disk_manager b = dm"
    "next_page_id b = next_page_id bp" by (simp_all add: b_def b0_def)
  have p: "pages b ! k = pages bp ! k" if "k \<noteq> f" for k using that by (simp add: b_def b0_def)
  have pf: "page_id (pages b ! f) = INVALID_PAGE_ID" "pin_count (pages b ! f) = 0"
    using f by (simp_all add: b_def b0_def)
  have view: "page_view b q = page_view bp q" if q: "q \<in> K" for q
  proof (cases "frame_of bp q")
    case None
    then have "q \<noteq> pid" using Some by auto
    with None pool_ok_known [OF ok q] keep show ?thesis by (auto simp: page_view_def fr b)
  next
    case (Some k)
    note k = frame_of_SomeD [OF inv Some]
    show ?thesis
    proof (cases "q = pid")
      case True
      with new q Some \<open>frame_of bp pid = Some f\<close> show ?thesis by (simp add: page_view_def fr b)
    next
      case False
      with k f have "k \<noteq> f" by auto
      with False Some p show ?thesis by (simp add: page_view_def fr)
    qed
  qed
  have Kv: "INVALID_PAGE_ID \<notin> K" using pool_ok_known [OF ok, of INVALID_PAGE_ID] page_addr_valid by auto
  have "coherent K b"
    unfolding coherent_def b
  proof (intro ballI impI)
    fix k assume k: "k \<in> set (lru_list bp)" and c: "page_id (pages b ! k) \<in> K \<and> \<not> is_dirty (pages b ! k)"
    then have kf: "k \<noteq> f" using pf Kv by auto
    have "k < pool_size bp" using k inv by (auto simp: bp_inv_defs)
    then have "page_id (pages bp ! k) \<noteq> pid" using frame_inj [OF inv, of k f] f kf by auto
    with keep coherentD [OF coh k] c kf p show "disk_page dm (page_id (pages b ! k)) = Some (data (pages b ! k))"
      by simp
  qed
  moreover have "pin_count (pages b ! k) = 0" if "k < pool_size bp" for k
    using that pins p pf by (cases "k = f") auto
  moreover have "page_addr q \<and> q < next_page_id bp" if "q \<in> dom (frame_of b)" for q
    using that fr pool_ok_resident [OF ok, of q] by (auto split: if_splits)
  ultimately have "quiet K b"
    using ok inv' view unfolding quiet_def pool_ok_def by (simp add: b)
  with del view fr b Some show ?thesis by auto
qed

end
