(* ===== verification/Flush_Order.thy ===== *)
theory Flush_Order
  imports Pool_Flush "HOL-Library.Multiset"
begin

section \<open>The order of a flush does not matter\<close>

text \<open>
  \<open>FlushAllPages\<close> loops over a hash map, whose order C++ leaves open; the model takes the order of its
  association list. Here it is shown that any other order leaves the same pool and the same bytes in the file.
\<close>

lemma nth_file_write:
  "k < length (file_write off bs f) \<Longrightarrow> file_write off bs f ! k =
    (if off \<le> k \<and> k < off + length bs then bs ! (k - off) else if k < length f then f ! k else 0)"
  by (auto simp: file_write_def nth_splice_at nth_append)

lemma file_write_swap:
  assumes "a + length xs \<le> b \<or> b + length ys \<le> a"
  shows "file_write a xs (file_write b ys f) = file_write b ys (file_write a xs f)"
  using assms by (intro nth_equalityI) (auto simp: nth_file_write)

text \<open>\<open>FlushPage\<close> as a function on the pool.\<close>

definition file_bytes :: "DiskManager \<Rightarrow> byte list" where
  "file_bytes dm = (case contents dm of None \<Rightarrow> [] | Some f \<Rightarrow> f)"

definition flush_of :: "int \<Rightarrow> BufferPool \<Rightarrow> BufferPool" where
  "flush_of pid bp = (case frame_of bp pid of None \<Rightarrow> bp
   | Some f \<Rightarrow> if is_dirty (pages bp ! f)
       then upd_page f (\<lambda>p. p\<lparr>is_dirty := False\<rparr>) (bp\<lparr>disk_manager := (disk_manager bp)\<lparr>contents :=
         Some (file_write (nat pid * PAGE_SIZE) (data (pages bp ! f)) (file_bytes (disk_manager bp)))\<rparr>\<rparr>)
       else bp)"

definition flushable :: "BufferPool \<Rightarrow> bool" where
  "flushable bp \<longleftrightarrow> bp_inv bp \<and> resident_addr bp"

lemma FlushPage_flush_of:
  assumes "flushable bp"
  shows "FlushPage pid bp = Some (frame_of bp pid \<noteq> None, flush_of pid bp)" and "flushable (flush_of pid bp)"
proof -
  from assms have inv: "bp_inv bp" and a: "resident_addr bp" by (simp_all add: flushable_def)
  have "FlushPage pid bp = Some (frame_of bp pid \<noteq> None, flush_of pid bp) \<and> flushable (flush_of pid bp)"
  proof (cases "frame_of bp pid")
    case (Some f)
    note f = frame_of_SomeD [OF inv Some]
    have "page_addr pid" using a Some by (auto simp: resident_addr_def)
    from WritePage_addr [OF this length_frame_data [OF inv], of f "disk_manager bp"] f have
      "WritePage pid (data (pages bp ! f)) (disk_manager bp) = Some ((disk_manager bp)\<lparr>contents :=
        Some (file_write (nat pid * PAGE_SIZE) (data (pages bp ! f)) (file_bytes (disk_manager bp)))\<rparr>)"
      by (simp add: file_bytes_def)
    moreover have "flushable (flush_of pid bp)"
      using assms Some bp_inv_clean [OF inv, of f] f
      by (auto simp: flush_of_def flushable_def resident_addr_def frame_of_def)
    ultimately show ?thesis using Some by (simp add: FlushPage_def flush_of_def)
  qed (use assms in \<open>simp add: FlushPage_def flush_of_def\<close>)
  then show "FlushPage pid bp = Some (frame_of bp pid \<noteq> None, flush_of pid bp)" "flushable (flush_of pid bp)" by simp_all
qed

lemma flush_pages_fold: "flushable bp \<Longrightarrow> flush_pages pids bp = Some (fold flush_of pids bp)"
  by (induction pids arbitrary: bp) (simp_all add: FlushPage_flush_of)

lemma flush_of_swap:
  assumes "flushable bp"
  shows "flush_of p (flush_of q bp) = flush_of q (flush_of p bp)"
proof (cases "frame_of bp p = None \<or> frame_of bp q = None \<or> p = q")
  case True
  have "frame_of (flush_of x bp) = frame_of bp" for x
    by (simp add: flush_of_def fun_eq_iff frame_of_def split: option.split)
  then have "flush_of p (flush_of x bp) = flush_of x bp" if "frame_of bp p = None" for p x
    using that by (simp add: flush_of_def [of p])
  moreover have "flush_of p bp = bp" if "frame_of bp p = None" for p using that by (simp add: flush_of_def)
  ultimately show ?thesis using True by auto
next
  case False
  then obtain f g where fg: "frame_of bp p = Some f" "frame_of bp q = Some g" and ne: "p \<noteq> q" by auto
  from assms have inv: "bp_inv bp" and a: "page_addr p" "page_addr q"
    using fg by (auto simp: flushable_def resident_addr_def)
  note f = frame_of_SomeD [OF inv fg(1)] and g = frame_of_SomeD [OF inv fg(2)]
  have "f \<noteq> g" using f g ne by auto
  have "nat p \<noteq> nat q" using a ne by (auto simp: page_addr_def)
  from pages_disjoint [OF this] have w: "file_write (nat p * PAGE_SIZE) (data (pages bp ! f)) (file_write (nat q * PAGE_SIZE) (data (pages bp ! g)) x) =
      file_write (nat q * PAGE_SIZE) (data (pages bp ! g)) (file_write (nat p * PAGE_SIZE) (data (pages bp ! f)) x)" for x
    by (intro file_write_swap) (simp add: length_frame_data [OF inv] f g)
  show ?thesis
    using fg \<open>f \<noteq> g\<close> w by (simp add: flush_of_def frame_of_def upd_page_def file_bytes_def list_update_swap)
qed

lemma FlushAllPages_any_order:
  assumes "bp_inv bp" and "resident_addr bp" and "mset pids = mset (map fst (page_table bp))"
  shows "flush_pages pids bp = FlushAllPages bp"
proof -
  have ok: "flushable bp" using assms(1,2) by (simp add: flushable_def)
  have "fold flush_of pids bp = fold flush_of (map fst (page_table bp)) bp"
    by (rule fold_permuted_eq [where P = flushable]) (use ok assms(3) FlushPage_flush_of(2) flush_of_swap in auto)
  then show ?thesis by (simp add: FlushAllPages_def flush_pages_fold [OF ok])
qed

end
