(* ===== verification/Simulation.thy ===== *)
theory Simulation
  imports DB_Prelude
begin

section \<open>Simulation: a component behaves as its specification says\<close>

text \<open>
  A component is a partial step function from requests to responses (\<^term>\<open>None\<close> is undefined
  behaviour); its specification is a relation on abstract states. The contract \<open>simulation\<close>
  says that an admissible request in a good state is answered, that the state stays good, and that
  the answer is one the specification allows. The derived law lifts this to sequences of requests.
\<close>

fun run :: "('q \<Rightarrow> 's \<Rightarrow> ('r \<times> 's) option) \<Rightarrow> 'q list \<Rightarrow> 's \<Rightarrow> ('r list \<times> 's) option" where
  "run step [] s = Some ([], s)"
| "run step (q # qs) s = do {
     (r, s1) \<leftarrow> step q s;
     (rs, s2) \<leftarrow> run step qs s1;
     Some (r # rs, s2) }"

lemma run_append:
  "run step (qs @ qs') s = do {
     (rs, s1) \<leftarrow> run step qs s;
     (rs', s2) \<leftarrow> run step qs' s1;
     Some (rs @ rs', s2) }"
proof (induction qs arbitrary: s)
  case Nil
  then show ?case by (cases "run step qs' s") auto
next
  case (Cons q qs)
  show ?case
  proof (cases "step q s")
    case (Some rs1)
    then show ?thesis using Cons [of "snd rs1"]
      by (cases "run step qs (snd rs1)") (auto simp: case_prod_beta bind_assoc)
  qed simp
qed

lemma run_length: "run step qs s = Some (rs, s') \<Longrightarrow> length rs = length qs"
  by (induction qs arbitrary: s rs) (auto split: bind_splits)

text \<open>Every request of the sequence is admissible in the state it meets. That it is answered at all is not part of
  this: it is what \<open>run_sim\<close> shows.\<close>

fun run_adm :: "('q \<Rightarrow> 's \<Rightarrow> ('r \<times> 's) option) \<Rightarrow> ('q \<Rightarrow> 's \<Rightarrow> bool) \<Rightarrow> 'q list \<Rightarrow> 's \<Rightarrow> bool" where
  "run_adm step adm [] s \<longleftrightarrow> True"
| "run_adm step adm (q # qs) s \<longleftrightarrow> adm q s \<and>
     (case step q s of None \<Rightarrow> True | Some (_, s') \<Rightarrow> run_adm step adm qs s')"

inductive spec_run :: "('a \<Rightarrow> 'q \<Rightarrow> 'r \<Rightarrow> 'a \<Rightarrow> bool) \<Rightarrow> 'a \<Rightarrow> 'q list \<Rightarrow> 'r list \<Rightarrow> 'a \<Rightarrow> bool"
  for spec where
  spec_run_Nil: "spec_run spec a [] [] a"
| spec_run_Cons: "spec a q r a1 \<Longrightarrow> spec_run spec a1 qs rs a2 \<Longrightarrow> spec_run spec a (q # qs) (r # rs) a2"

inductive_cases spec_run_NilE: "spec_run spec a [] rs a'"
inductive_cases spec_run_ConsE: "spec_run spec a (q # qs) rs a'"
inductive_simps spec_run_simps [simp]: "spec_run spec a [] rs a'" "spec_run spec a (q # qs) rs a'"

locale simulation =
  fixes step :: "'q \<Rightarrow> 's \<Rightarrow> ('r \<times> 's) option"
    and spec :: "'a \<Rightarrow> 'q \<Rightarrow> 'r \<Rightarrow> 'a \<Rightarrow> bool"
    and abs :: "'s \<Rightarrow> 'a"
    and ok :: "'s \<Rightarrow> bool"
    and adm :: "'q \<Rightarrow> 's \<Rightarrow> bool"
  assumes step_sim: "ok s \<Longrightarrow> adm q s \<Longrightarrow>
    \<exists>r s'. step q s = Some (r, s') \<and> ok s' \<and> spec (abs s) q r (abs s')"
begin

lemma run_sim:
  assumes "ok s" and "run_adm step adm qs s"
  shows "\<exists>rs s'. run step qs s = Some (rs, s') \<and> ok s' \<and> spec_run spec (abs s) qs rs (abs s')"
  using assms
proof (induction qs arbitrary: s)
  case (Cons q qs)
  from Cons.prems have "adm q s" by simp
  from step_sim [OF Cons.prems(1) this] obtain r s1
    where 1: "step q s = Some (r, s1)" "ok s1" "spec (abs s) q r (abs s1)" by blast
  with Cons.prems have "run_adm step adm qs s1" by simp
  from Cons.IH [OF 1(2) this] obtain rs s2
    where "run step qs s1 = Some (rs, s2)" "ok s2" "spec_run spec (abs s1) qs rs (abs s2)" by blast
  with 1 show ?case by auto
qed simp

lemma run_invariant:
  assumes "ok s" and "run_adm step adm qs s" and "run step qs s = Some (rs, s')"
  shows "ok s'"
  using run_sim [OF assms(1,2)] assms(3) by auto

end

end
