(* ===== verification/Pool_Properties.thy ===== *)
theory Pool_Properties
  imports Flush_Order Simulation
begin

section \<open>Properties of the buffer pool\<close>

text \<open>
  The structure of the pool under any order of operations, what a client that brackets its accesses
  sees of it, and what happens to one that does not.
\<close>

subsection \<open>Any order of operations keeps the pool's structure\<close>

text \<open>\<open>pool_reach\<close>: what the public operations can make of a new pool of \<open>n\<close> frames, in any
  order and with any number of pins, as long as only page ids that have been handed out are fetched
  and page ids stay addressable.\<close>

inductive pool_reach :: "nat \<Rightarrow> BufferPool \<Rightarrow> bool" for n where
  reach_new: "pool_reach n (new_BufferPool n dm)"
| reach_restart: "pool_reach n bp \<Longrightarrow> next_page_id bp \<le> m \<Longrightarrow> pool_reach n (SetNextPageId m bp)"
| reach_fetch: "pool_reach n bp \<Longrightarrow> page_known bp pid \<Longrightarrow> FetchPage pid bp = Some (r, bp') \<Longrightarrow> pool_reach n bp'"
| reach_alloc: "pool_reach n bp \<Longrightarrow> page_addr (next_page_id bp) \<Longrightarrow> NewPage bp = Some (r', bp') \<Longrightarrow> pool_reach n bp'"
| reach_edit: "pool_reach n bp \<Longrightarrow> f < n \<Longrightarrow> length d = PAGE_SIZE \<Longrightarrow> pool_reach n (set_frame_data f d bp)"
| reach_unpin: "pool_reach n bp \<Longrightarrow> UnpinPage pid dirty bp = (b, bp') \<Longrightarrow> pool_reach n bp'"
| reach_flush: "pool_reach n bp \<Longrightarrow> FlushPage pid bp = Some (b, bp') \<Longrightarrow> pool_reach n bp'"
| reach_delete: "pool_reach n bp \<Longrightarrow> DeletePage pid bp = Some (b, bp') \<Longrightarrow> pool_reach n bp'"

definition pool_safe :: "nat \<Rightarrow> BufferPool \<Rightarrow> bool" where
  "pool_safe n bp \<longleftrightarrow> bp_inv bp \<and> pool_size bp = n \<and> (\<forall>p \<in> dom (frame_of bp). page_known bp p)"

lemma pool_safe_addr: "pool_safe n bp \<Longrightarrow> resident_addr bp"
  by (auto simp: pool_safe_def resident_addr_def page_known_def)

lemma pool_safe_loaded:
  assumes s: "pool_safe n bp" and ld: "loaded f p d bp bp'" and p: "page_known bp' p"
    and nx: "next_page_id bp \<le> next_page_id bp'"
  shows "pool_safe n bp'"
proof -
  have "page_known bp' q" if "q \<in> dom (frame_of bp')" for q
  proof -
    from that ld have "q = p \<or> q \<in> dom (frame_of bp)" by (auto simp: loaded_def split: if_splits)
    moreover have "page_known bp' q" if "page_known bp q" using that nx by (simp add: page_known_def)
    ultimately show ?thesis using s p by (auto simp: pool_safe_def)
  qed
  with s ld show ?thesis by (auto simp: pool_safe_def loaded_def)
qed

lemma FetchPage_safe:
  assumes s: "pool_safe n bp" and p: "page_known bp p"
  shows "\<exists>r bp'. FetchPage p bp = Some (r, bp') \<and> pool_safe n bp' \<and>
    (r = None \<longleftrightarrow> frame_of bp p = None \<and> free_list bp = [] \<and> lru_list bp = []) \<and>
    (\<forall>f. r = Some f \<longrightarrow> frame_of bp' p = Some f \<and> 0 < pin_count (pages bp' ! f))"
proof (cases "frame_of bp p")
  case (Some f)
  from s have inv: "bp_inv bp" by (simp add: pool_safe_def)
  note f = frame_of_SomeD [OF inv Some]
  then have pin: "0 \<le> pin_count (pages bp ! f)" using inv by (auto simp: bp_inv_defs)
  let ?b = "PinFrame f (upd_page f (\<lambda>p. p\<lparr>pin_count := pin_count p + 1\<rparr>) bp)"
  have "bp_inv ?b"
    by (rule bp_inv_pin [OF inv Some]) (use f pin length_frame_data [OF inv, of f] in auto)
  with s have "pool_safe n ?b" by (simp add: pool_safe_def page_known_def)
  moreover have "FetchPage p bp = Some (Some f, ?b)" using Some by (simp add: FetchPage_def)
  ultimately show ?thesis using Some f pin by auto
next
  case None
  from s have inv: "bp_inv bp" by (simp add: pool_safe_def)
  show ?thesis
  proof (cases "GetFreeFrameOrVictim bp")
    case get: None
    then have "FetchPage p bp = Some (None, bp)" using None by (simp add: FetchPage_def)
    with s None get show ?thesis by (auto simp: GetFreeFrameOrVictim_None)
  next
    case (Some x)
    then obtain f bp1 where get: "GetFreeFrameOrVictim bp = Some (f, bp1)" by (cases x) auto
    from p have a: "page_addr p" by (simp add: page_known_def)
    from FetchPage_loads [OF inv pool_safe_addr [OF s] get None a] obtain bp' d
      where b: "FetchPage p bp = Some (Some f, bp')" "loaded f p d bp bp'" "next_page_id bp' = next_page_id bp" by blast
    have "pool_safe n bp'" by (rule pool_safe_loaded [OF s b(2)]) (use p b(3) in \<open>auto simp: page_known_def\<close>)
    moreover have "\<not> (free_list bp = [] \<and> lru_list bp = [])" using get GetFreeFrameOrVictim_None [of bp] by auto
    moreover have "f < length (pages bp)" using b(2) inv by (simp add: loaded_def bp_inv_defs)
    ultimately show ?thesis using b(1,2) by (auto simp: loaded_def)
  qed
qed

lemma NewPage_safe:
  assumes s: "pool_safe n bp" and p: "page_addr (next_page_id bp)"
  shows "\<exists>r bp'. NewPage bp = Some (r, bp') \<and> pool_safe n bp' \<and>
    (r = None \<longleftrightarrow> free_list bp = [] \<and> lru_list bp = [])"
proof (cases "GetFreeFrameOrVictim bp")
  case None
  then have "NewPage bp = Some (None, bp)" by (simp add: NewPage_def)
  with s None show ?thesis by (auto simp: GetFreeFrameOrVictim_None)
next
  case (Some x)
  then obtain f bp1 where get: "GetFreeFrameOrVictim bp = Some (f, bp1)" by (cases x) auto
  from s have inv: "bp_inv bp" by (simp add: pool_safe_def)
  have new: "frame_of bp (next_page_id bp) = None" using s by (force simp: pool_safe_def page_known_def)
  from NewPage_loads [OF inv pool_safe_addr [OF s] get new p] obtain bp'
    where b: "NewPage bp = Some (Some (next_page_id bp, f), bp')"
      "loaded f (next_page_id bp) (replicate PAGE_SIZE 0) bp bp'" "next_page_id bp' = next_page_id bp + 1" by blast
  have "pool_safe n bp'" by (rule pool_safe_loaded [OF s b(2)]) (use p b(3) in \<open>auto simp: page_known_def\<close>)
  moreover have "\<not> (free_list bp = [] \<and> lru_list bp = [])" using get GetFreeFrameOrVictim_None [of bp] by auto
  ultimately show ?thesis using b(1) by auto
qed

lemma UnpinPage_safe: "pool_safe n bp \<Longrightarrow> pool_safe n (snd (UnpinPage p dirty bp))"
  using bp_inv_UnpinPage [of bp p dirty]
  by (auto simp: pool_safe_def page_known_def UnpinPage_def split: option.splits)

lemma set_frame_data_safe:
  assumes "pool_safe n bp" and "f < n" and "length d = PAGE_SIZE"
  shows "pool_safe n (set_frame_data f d bp)"
proof -
  let ?b = "set_frame_data f d bp"
  from assms have inv: "bp_inv bp" and f: "f < length (pages bp)" by (auto simp: pool_safe_def bp_inv_defs)
  have p: "page_id (pages ?b ! k) = page_id (pages bp ! k)" "pin_count (pages ?b ! k) = pin_count (pages bp ! k)" for k
    using f by (cases "k = f"; simp add: set_frame_data_def)+
  have b: "frame_of ?b = frame_of bp" "pool_size ?b = pool_size bp" "page_table ?b = page_table bp"
    "free_list ?b = free_list bp" "lru_list ?b = lru_list bp" "lru_pos ?b = lru_pos bp"
    "next_page_id ?b = next_page_id bp" by (simp_all add: set_frame_data_def)
  have "frames_ok ?b"
    using inv f assms(3) by (auto simp: set_frame_data_def bp_inv_defs dest!: set_update_subset_insert [THEN subsetD])
  moreover have "table_ok ?b" "lists_ok ?b"
    using inv unfolding bp_inv_def table_ok_def lists_ok_def p b by simp_all
  ultimately show ?thesis using assms(1) unfolding pool_safe_def bp_inv_def page_known_def b by simp
qed

lemma FlushPage_safe:
  assumes s: "pool_safe n bp"
  shows "\<exists>b bp'. FlushPage p bp = Some (b, bp') \<and> pool_safe n bp'"
proof (cases "frame_of bp p")
  case None
  with s show ?thesis using FlushPage_missing [OF None] by blast
next
  case (Some f)
  from s have inv: "bp_inv bp" by (simp add: pool_safe_def)
  from Some s have a: "page_addr p" by (auto simp: pool_safe_def page_known_def)
  show ?thesis
  proof (cases "is_dirty (pages bp ! f)")
    case True
    from FlushPage_dirty [OF inv Some a True] bp_inv_clean [OF inv, of f] frame_of_SomeD [OF inv Some] s
    show ?thesis by (auto simp: pool_safe_def page_known_def frame_of_def)
  next
    case False
    with Some have "FlushPage p bp = Some (True, bp)" by (simp add: FlushPage_def)
    with s show ?thesis by blast
  qed
qed

lemma DeletePage_safe:
  assumes s: "pool_safe n bp"
  shows "\<exists>b bp'. DeletePage p bp = Some (b, bp') \<and> pool_safe n bp'"
proof (cases "frame_of bp p")
  case None
  with s show ?thesis using DeletePage_missing [OF None] by blast
next
  case (Some f)
  from s have inv: "bp_inv bp" by (simp add: pool_safe_def)
  from Some s have a: "page_addr p" by (auto simp: pool_safe_def page_known_def)
  note f = frame_of_SomeD [OF inv Some]
  show ?thesis
  proof (cases "0 < pin_count (pages bp ! f)")
    case True
    with s show ?thesis using DeletePage_pinned [OF Some True] by blast
  next
    case False
    obtain dm where dm: "(if is_dirty (pages bp ! f) then WritePage p (data (pages bp ! f)) (disk_manager bp)
        else Some (disk_manager bp)) = Some dm"
      using disk.wr_defined [OF a length_frame_data [OF inv]] f by (cases "is_dirty (pages bp ! f)") auto
    note d = bp_inv_drop [OF inv Some False, of dm]
    let ?b = "upd_page f (\<lambda>p. p\<lparr>page_id := INVALID_PAGE_ID, pin_count := 0, is_dirty := False\<rparr>)
           (bp\<lparr>disk_manager := dm, page_table := AList.delete p (page_table bp)\<rparr>)"
    have "DeletePage p bp = Some (True, ?b\<lparr>free_list := free_list ?b @ [f]\<rparr>)"
      using Some False dm by (simp add: DeletePage_def Let_def)
    moreover have "pool_safe n (?b\<lparr>free_list := free_list ?b @ [f]\<rparr>)"
      using d s unfolding pool_safe_def by (auto simp: page_known_def split: if_splits)
    ultimately show ?thesis by blast
  qed
qed

lemma pool_reach_safe: "pool_reach n bp \<Longrightarrow> pool_safe n bp"
proof (induction rule: pool_reach.induct)
  case (reach_new dm)
  show ?case using bp_inv_new [of n dm] by (simp add: pool_safe_def) (simp add: new_BufferPool_def frame_of_def)
next
  case (reach_restart bp m)
  have fr: "frame_of (SetNextPageId m bp) = frame_of bp" by (simp add: SetNextPageId_def frame_of_def)
  moreover from reach_restart(3) have "bp_inv bp" by (simp add: pool_safe_def)
  then have "bp_inv (SetNextPageId m bp)"
    unfolding bp_inv_defs fr by (simp add: SetNextPageId_def)
  ultimately have "bp_inv (SetNextPageId m bp)" "frame_of (SetNextPageId m bp) = frame_of bp" by simp_all
  moreover have "page_known (SetNextPageId m bp) q" if "page_known bp q" for q
    using that reach_restart(2) by (simp add: page_known_def SetNextPageId_def)
  moreover have "pool_size (SetNextPageId m bp) = pool_size bp" by (simp add: SetNextPageId_def)
  ultimately show ?case using reach_restart(3) by (auto simp: pool_safe_def)
next
  case (reach_unpin bp pid dirty b bp')
  from UnpinPage_safe [OF reach_unpin(3), of pid dirty] reach_unpin(2) show ?case by simp
next
  case (reach_fetch bp pid r bp')
  from FetchPage_safe [OF reach_fetch(4,2)] reach_fetch(3) show ?case by auto
next
  case (reach_alloc bp r' bp')
  from NewPage_safe [OF reach_alloc(4,2)] reach_alloc(3) show ?case by auto
next
  case (reach_edit bp f d)
  then show ?case by (intro set_frame_data_safe)
next
  case (reach_flush bp pid b bp')
  from FlushPage_safe [OF reach_flush(3), of pid] reach_flush(2) show ?case by auto
next
  case (reach_delete bp pid b bp')
  from DeletePage_safe [OF reach_delete(3), of pid] reach_delete(2) show ?case by auto
qed

text \<open>C6. Whatever the order of operations and the number of pins: the page table always maps exactly the
  resident page ids to their frames, the free list holds exactly the frames without a page, the LRU
  list and its position map agree, every unpinned resident page is evictable, and every operation on
  a page id that was handed out is defined (no write or read outside a page, no 32-bit overflow).\<close>
theorem pool_reach_invariant:
  assumes r: "pool_reach n bp"
  shows "bp_inv bp \<and> pool_size bp = n \<and>
    (\<forall>pid. page_known bp pid \<longrightarrow> FetchPage pid bp \<noteq> None) \<and>
    (page_addr (next_page_id bp) \<longrightarrow> NewPage bp \<noteq> None) \<and>
    (\<forall>pid. FlushPage pid bp \<noteq> None \<and> DeletePage pid bp \<noteq> None)"
proof -
  note s = pool_reach_safe [OF r]
  have "FetchPage pid bp \<noteq> None" if "page_known bp pid" for pid
    using FetchPage_safe [OF s that] by auto
  moreover have "NewPage bp \<noteq> None" if "page_addr (next_page_id bp)"
    using NewPage_safe [OF s that] by auto
  moreover have "FlushPage pid bp \<noteq> None \<and> DeletePage pid bp \<noteq> None" for pid
    using FlushPage_safe [OF s, of pid] DeletePage_safe [OF s, of pid] by auto
  ultimately show ?thesis using s by (simp add: pool_safe_def)
qed

text \<open>C14. A fetch fails (null page) just when the page is not resident and there is neither a free frame
  nor an eviction candidate; in particular it succeeds whenever some frame is not pinned, and then the
  page is resident and pinned.\<close>
theorem FetchPage_available:
  assumes r: "pool_reach n bp" and p: "page_known bp pid"
    and free: "f < n" "pin_count (pages bp ! f) = 0"
  shows "\<exists>k bp'. FetchPage pid bp = Some (Some k, bp') \<and> frame_of bp' pid = Some k \<and>
    0 < pin_count (pages bp' ! k)"
proof -
  note s = pool_reach_safe [OF r]
  then have "f \<in> set (free_list bp) \<or> f \<in> set (lru_list bp)"
    using free by (cases "page_id (pages bp ! f) = INVALID_PAGE_ID") (auto simp: pool_safe_def bp_inv_defs)
  then have "\<not> (frame_of bp pid = None \<and> free_list bp = [] \<and> lru_list bp = [])" by auto
  with FetchPage_safe [OF s p] show ?thesis by auto
qed

lemma FetchPage_available_witness:
  "\<exists>k bp'. FetchPage 0 (SetNextPageId 1 (new_BufferPool 2 \<lparr>filename = ''data.db'', contents = None\<rparr>)) =
    Some (Some k, bp') \<and> frame_of bp' 0 = Some k \<and> 0 < pin_count (pages bp' ! k)"
proof (rule FetchPage_available)
  show "pool_reach 2 (SetNextPageId 1 (new_BufferPool 2 \<lparr>filename = ''data.db'', contents = None\<rparr>))"
    by (rule reach_restart [OF reach_new]) (simp add: new_BufferPool_def)
qed (auto simp: page_known_def page_addr_def MAX_PAGES_def SetNextPageId_def new_BufferPool_def
    empty_Page_def intro: zero_less_numeral)

subsection \<open>A client that brackets its accesses sees a plain store\<close>

text \<open>The requests of such a client; its state is the list of its pages and the pool. Every access is
  a fetch (or an allocation), a use of the frame, and an unpin that says whether the page changed.\<close>

datatype pool_request =
    P_Alloc "byte list"
  | P_Read int
  | P_Write int "byte list"
  | P_Flush int
  | P_FlushAll
  | P_Drop int

datatype pool_response = P_Id int | P_Data "byte list" | P_Done bool

definition pool_step :: "pool_request \<Rightarrow> int list \<times> BufferPool \<Rightarrow>
    (pool_response \<times> int list \<times> BufferPool) option" where
  "pool_step q s = (case s of (ids, bp) \<Rightarrow> (case q of
     P_Alloc d \<Rightarrow> do {
       (page, bp1) \<leftarrow> NewPage bp;
       case page of None \<Rightarrow> Some (P_Done False, ids, bp1)
       | Some (pid, f) \<Rightarrow> Some (P_Id pid, pid # ids, snd (UnpinPage pid True (set_frame_data f d bp1))) }
   | P_Read pid \<Rightarrow> do {
       (page, bp1) \<leftarrow> FetchPage pid bp;
       case page of None \<Rightarrow> Some (P_Done False, ids, bp1)
       | Some f \<Rightarrow> Some (P_Data (frame_data f bp1), ids, snd (UnpinPage pid False bp1)) }
   | P_Write pid d \<Rightarrow> do {
       (page, bp1) \<leftarrow> FetchPage pid bp;
       case page of None \<Rightarrow> Some (P_Done False, ids, bp1)
       | Some f \<Rightarrow> Some (P_Done True, ids, snd (UnpinPage pid True (set_frame_data f d bp1))) }
   | P_Flush pid \<Rightarrow> do { (b, bp1) \<leftarrow> FlushPage pid bp; Some (P_Done b, ids, bp1) }
   | P_FlushAll \<Rightarrow> do { bp1 \<leftarrow> FlushAllPages bp; Some (P_Done True, ids, bp1) }
   | P_Drop pid \<Rightarrow> do { (b, bp1) \<leftarrow> DeletePage pid bp; Some (P_Done b, ids, bp1) }))"

inductive store_step :: "(int \<Rightarrow> byte list option) \<Rightarrow> pool_request \<Rightarrow> pool_response \<Rightarrow>
    (int \<Rightarrow> byte list option) \<Rightarrow> bool" where
  store_alloc: "m pid = None \<Longrightarrow> store_step m (P_Alloc d) (P_Id pid) (m(pid \<mapsto> d))"
| store_read: "m pid = Some d \<Longrightarrow> store_step m (P_Read pid) (P_Data d) m"
| store_write: "m pid \<noteq> None \<Longrightarrow> store_step m (P_Write pid d) (P_Done True) (m(pid \<mapsto> d))"
| store_flush: "store_step m (P_Flush pid) (P_Done b) m"
| store_flush_all: "store_step m P_FlushAll (P_Done True) m"
| store_drop: "store_step m (P_Drop pid) (P_Done b) m"

inductive_simps store_step_simps [simp]:
  "store_step m (P_Alloc d) r m'"
  "store_step m (P_Read pid) r m'"
  "store_step m (P_Write pid d) r m'"
  "store_step m (P_Flush pid) r m'"
  "store_step m P_FlushAll r m'"
  "store_step m (P_Drop pid) r m'"

definition store_of :: "int list \<times> BufferPool \<Rightarrow> int \<Rightarrow> byte list option" where
  "store_of s pid = (if pid \<in> set (fst s) then page_view (snd s) pid else None)"

definition pool_quiet :: "int list \<times> BufferPool \<Rightarrow> bool" where
  "pool_quiet s \<longleftrightarrow> quiet (set (fst s)) (snd s)"

definition pool_adm :: "pool_request \<Rightarrow> int list \<times> BufferPool \<Rightarrow> bool" where
  "pool_adm q s = (case q of
     P_Alloc d \<Rightarrow> length d = PAGE_SIZE \<and> page_addr (next_page_id (snd s))
   | P_Read pid \<Rightarrow> pid \<in> set (fst s)
   | P_Write pid d \<Rightarrow> pid \<in> set (fst s) \<and> length d = PAGE_SIZE
   | _ \<Rightarrow> True)"

lemma store_of_same: "(\<forall>q \<in> set ids. page_view bp' q = page_view bp q) \<Longrightarrow> store_of (ids, bp') = store_of (ids, bp)"
  by (simp add: store_of_def fun_eq_iff)

interpretation pool_sim: simulation pool_step store_step store_of pool_quiet pool_adm
proof (unfold_locales, goal_cases)
  case (1 s q)
  obtain ids bp where s: "s = (ids, bp)" by (cases s)
  let ?K = "set ids"
  from 1(1) s have qt: "quiet ?K bp" by (simp add: pool_quiet_def)
  have known: "\<exists>d. page_view bp pid = Some d" if "pid \<in> ?K" for pid
    using pool.known_law [OF qt that] by blast
  show ?case
  proof (cases q)
    case (P_Alloc d)
    with 1(2) s have d: "length d = PAGE_SIZE" "page_addr (next_page_id bp)" by (simp_all add: pool_adm_def)
    obtain f s1 where a: "NewPage bp = Some (Some (next_page_id bp, f), s1)"
      "frame_data f s1 = replicate PAGE_SIZE 0" "next_page_id bp \<notin> ?K"
      and w: "\<And>d'. length d' = PAGE_SIZE \<Longrightarrow>
        \<exists>s2. UnpinPage (next_page_id bp) True (set_frame_data f d' s1) = (True, s2) \<and>
          quiet (insert (next_page_id bp) ?K) s2 \<and>
          (\<forall>q \<in> insert (next_page_id bp) ?K. page_view s2 q = ((page_view bp)(next_page_id bp \<mapsto> d')) q) \<and>
          next_page_id s2 = next_page_id bp + 1"
      and "\<And>d'. length d' = PAGE_SIZE \<Longrightarrow>
        \<exists>s2. UnpinPage (next_page_id bp) False (set_frame_data f d' s1) = (True, s2) \<and> quiet ?K s2 \<and>
          (\<forall>q \<in> ?K. page_view s2 q = page_view bp q) \<and> next_page_id s2 = next_page_id bp + 1"
      by (rule pool.alloc_access [OF qt d(2)]) (rule that)
    from w [OF d(1)] obtain s2 where u: "UnpinPage (next_page_id bp) True (set_frame_data f d s1) = (True, s2)"
      "quiet (insert (next_page_id bp) ?K) s2"
      "\<forall>q \<in> insert (next_page_id bp) ?K. page_view s2 q = ((page_view bp)(next_page_id bp \<mapsto> d)) q" by blast
    have "store_of (next_page_id bp # ids, s2) = (store_of s)(next_page_id bp \<mapsto> d)"
      using u(3) s by (auto simp: store_of_def fun_eq_iff)
    with P_Alloc a u(1,2) s show ?thesis by (simp add: pool_step_def pool_quiet_def) (simp add: store_of_def)
  next
    case (P_Read pid)
    with 1(2) s have p: "pid \<in> ?K" by (simp add: pool_adm_def)
    from known [OF p] obtain d where d: "page_view bp pid = Some d" ..
    obtain f s1 s2 where r: "FetchPage pid bp = Some (Some f, s1)"
      "frame_data f s1 = d" "UnpinPage pid False s1 = (True, s2)" "quiet ?K s2"
      "\<And>q. q \<in> ?K \<Longrightarrow> page_view s2 q = page_view bp q" "next_page_id s2 = next_page_id bp"
      by (rule pool.read_access [OF qt p d]) (rule that)
    from store_of_same [of ids s2 bp] r(5) P_Read r(1-4) s p d show ?thesis
      by (simp add: pool_step_def pool_quiet_def) (simp add: store_of_def)
  next
    case (P_Write pid d)
    with 1(2) s have p: "pid \<in> ?K" and l: "length d = PAGE_SIZE" by (simp_all add: pool_adm_def)
    from known [OF p] obtain e where e: "page_view bp pid = Some e" ..
    obtain f s1 where f: "FetchPage pid bp = Some (Some f, s1)" "frame_data f s1 = e"
      and w: "\<And>d'. length d' = PAGE_SIZE \<Longrightarrow> \<exists>s2. UnpinPage pid True (set_frame_data f d' s1) = (True, s2) \<and>
        quiet ?K s2 \<and> (\<forall>q \<in> ?K. page_view s2 q = ((page_view bp)(pid \<mapsto> d')) q) \<and>
        next_page_id s2 = next_page_id bp"
      and "\<exists>s2. UnpinPage pid False s1 = (True, s2) \<and> quiet ?K s2 \<and>
        (\<forall>q \<in> ?K. page_view s2 q = page_view bp q) \<and> next_page_id s2 = next_page_id bp"
      by (rule pool.write_access [OF qt p e]) (rule that)
    from w [OF l] obtain s2 where r: "UnpinPage pid True (set_frame_data f d s1) = (True, s2)" "quiet ?K s2"
      "\<forall>q \<in> ?K. page_view s2 q = ((page_view bp)(pid \<mapsto> d)) q" by blast
    have "store_of (ids, s2) = (store_of s)(pid \<mapsto> d)" using r(3) s p by (auto simp: store_of_def fun_eq_iff)
    with P_Write f r(1,2) s p e show ?thesis by (simp add: pool_step_def pool_quiet_def) (simp add: store_of_def)
  next
    case (P_Flush pid)
    from FlushPage_quiet [OF qt, of pid] obtain bp' where f: "FlushPage pid bp = Some (frame_of bp pid \<noteq> None, bp')"
      "quiet ?K bp'" "\<forall>q \<in> ?K. page_view bp' q = page_view bp q" by blast
    from store_of_same [OF f(3)] P_Flush f(1,2) s show ?thesis by (simp add: pool_step_def pool_quiet_def)
  next
    case P_FlushAll
    from FlushAllPages_quiet [OF qt] obtain bp' where f: "FlushAllPages bp = Some bp'"
      "quiet ?K bp'" "\<forall>q \<in> ?K. page_view bp' q = page_view bp q" by blast
    from store_of_same [OF f(3)] P_FlushAll f(1,2) s show ?thesis by (simp add: pool_step_def pool_quiet_def)
  next
    case (P_Drop pid)
    from DeletePage_quiet [OF qt, of pid] obtain bp' where f: "DeletePage pid bp = Some (frame_of bp pid \<noteq> None, bp')"
      "quiet ?K bp'" "\<forall>q \<in> ?K. page_view bp' q = page_view bp q" by blast
    from store_of_same [OF f(3)] P_Drop f(1,2) s show ?thesis by (simp add: pool_step_def pool_quiet_def)
  qed
qed

text \<open>C4. A client that allocates, reads, writes, flushes and drops pages under the pin protocol sees a
  plain map from page ids to pages, however many pages it uses and whatever the pool evicts meanwhile:
  a read returns what was last written, no access to another page disturbs it, and every request is
  answered.\<close>
theorem pool_runs_as_store:
  assumes q: "quiet (set ids) bp" and adm: "run_adm pool_step pool_adm qs (ids, bp)"
  shows "\<exists>rs ids' bp'. run pool_step qs (ids, bp) = Some (rs, ids', bp') \<and> quiet (set ids') bp' \<and>
    spec_run store_step (store_of (ids, bp)) qs rs (store_of (ids', bp'))"
proof -
  from q have "pool_quiet (ids, bp)" by (simp add: pool_quiet_def)
  from pool_sim.run_sim [OF this adm] obtain rs s' where r: "run pool_step qs (ids, bp) = Some (rs, s')"
    "pool_quiet s'" "spec_run store_step (store_of (ids, bp)) qs rs (store_of s')" by blast
  then show ?thesis by (cases s') (auto simp: pool_quiet_def)
qed

lemma pool_runs_as_store_witness:
  "\<exists>rs ids' bp'. run pool_step [P_Alloc (replicate PAGE_SIZE 7), P_FlushAll, P_Drop 0]
      ([], new_BufferPool 1 \<lparr>filename = ''data.db'', contents = None\<rparr>) = Some (rs, ids', bp') \<and>
    store_of (ids', bp') 0 = Some (replicate PAGE_SIZE 7)"
proof -
  let ?bp = "new_BufferPool 1 \<lparr>filename = ''data.db'', contents = None\<rparr>"
    and ?qs = "[P_Alloc (replicate PAGE_SIZE 7), P_FlushAll, P_Drop 0]"
  have qt: "quiet (set []) ?bp" by (simp add: quiet_new)
  have a: "pool_adm (P_Alloc (replicate PAGE_SIZE 7)) ([], ?bp)"
    by (simp add: pool_adm_def new_BufferPool_def page_addr_def MAX_PAGES_def)
  have adm: "run_adm pool_step pool_adm ?qs ([], ?bp)"
  proof -
    from qt have "pool_quiet ([], ?bp)" by (simp add: pool_quiet_def)
    from pool_sim.step_sim [OF this a] obtain r s1 where 1: "pool_step (P_Alloc (replicate PAGE_SIZE 7)) ([], ?bp) = Some (r, s1)"
      "pool_quiet s1" by blast
    have f: "pool_adm P_FlushAll s1" by (simp add: pool_adm_def)
    from pool_sim.step_sim [OF 1(2) f] obtain r2 s2 where 2: "pool_step P_FlushAll s1 = Some (r2, s2)" "pool_quiet s2" by blast
    have d: "pool_adm (P_Drop 0) s2" by (simp add: pool_adm_def)
    from pool_sim.step_sim [OF 2(2) d] obtain r3 s3 where 3: "pool_step (P_Drop 0) s2 = Some (r3, s3)" by blast
    from a 1 f 2 d 3 show ?thesis by simp
  qed
  obtain rs ids' bp' where r: "run pool_step ?qs ([], ?bp) = Some (rs, ids', bp')"
    "spec_run store_step (store_of ([], ?bp)) ?qs rs (store_of (ids', bp'))"
    using pool_runs_as_store [OF qt adm] by blast
  have "NewPage ?bp \<noteq> None \<and> (\<forall>pid f bp1. NewPage ?bp = Some (Some (pid, f), bp1) \<longrightarrow> pid = 0)"
    by (simp add: NewPage_def GetFreeFrameOrVictim_def new_BufferPool_def evict_def empty_Page_def int32_max_def Let_def)
  then have "hd rs = P_Id 0" using r by (auto simp: pool_step_def split: option.splits bind_splits)
  then have "store_of (ids', bp') 0 = Some (replicate PAGE_SIZE 7)"
    using r(2) by auto
  with r(1) show ?thesis by blast
qed

text \<open>C39. A page that is pinned twice becomes an eviction candidate at the first unpin: when no other
  frame is available, fetching another page takes the frame of the page that is still pinned, and the
  page's table entry is gone. (\<open>UnpinPage\<close> appends the frame to the LRU list whatever pins are left.)\<close>
theorem UnpinPage_exposes_pinned_page:
  assumes r: "pool_reach n bp" and f: "frame_of bp p = Some f" "pin_count (pages bp ! f) = 2"
    and none: "free_list bp = []" "lru_list bp = []"
    and q: "page_known bp q" "frame_of bp q = None"
  shows "\<exists>bp1 bp2. UnpinPage p dirty bp = (True, bp1) \<and> frame_of bp1 p = Some f \<and>
    0 < pin_count (pages bp1 ! f) \<and> FetchPage q bp1 = Some (Some f, bp2) \<and> frame_of bp2 p = None \<and>
    frame_of bp2 q = Some f"
proof -
  note s = pool_reach_safe [OF r]
  from s have inv: "bp_inv bp" by (simp add: pool_safe_def)
  note fx = frame_of_SomeD [OF inv f(1)]
  let ?g = "\<lambda>p. p\<lparr>is_dirty := is_dirty p \<or> dirty, pin_count := pin_count p - 1\<rparr>"
  let ?b = "UnpinFrame f (upd_page f ?g bp)"
  have u: "UnpinPage p dirty bp = (True, ?b)" using f by (simp add: UnpinPage_def)
  have s1: "pool_safe n ?b" using UnpinPage_safe [OF s, of p dirty] u by simp
  then have inv1: "bp_inv ?b" by (simp add: pool_safe_def)
  have "lru_pos bp = {}" using inv none by (simp add: bp_inv_defs)
  then have "lru_list ?b = [f]" using none by (simp add: UnpinFrame_def)
  then obtain bp1 where get: "GetFreeFrameOrVictim ?b = Some (f, bp1)"
    using none by (simp add: GetFreeFrameOrVictim_def)
  have q1: "page_addr q" "frame_of ?b q = None" using q by (auto simp: page_known_def)
  from FetchPage_loads [OF inv1 pool_safe_addr [OF s1] get q1(2,1)] obtain bp2 d
    where b: "FetchPage q ?b = Some (Some f, bp2)" "loaded f q d ?b bp2" by blast
  have "p \<noteq> q" using f q by auto
  then have "frame_of bp2 p = None" "frame_of bp2 q = Some f" using b(2) fx by (simp_all add: loaded_def)
  with u b(1) f fx show ?thesis by auto
qed

text \<open>A pool of one frame whose only page is pinned twice.\<close>

lemma twice_pinned:
  "\<exists>bp. pool_reach 1 bp \<and> frame_of bp 0 = Some 0 \<and> pin_count (pages bp ! 0) = 2 \<and> free_list bp = [] \<and>
    lru_list bp = [] \<and> page_known bp 1 \<and> frame_of bp 1 = None"
proof -
  let ?bp0 = "SetNextPageId 2 (new_BufferPool 1 \<lparr>filename = ''data.db'', contents = None\<rparr>)"
  have r0: "pool_reach 1 ?bp0" by (rule reach_restart [OF reach_new]) (simp add: new_BufferPool_def)
  note s0 = pool_reach_safe [OF r0]
  from s0 have inv0: "bp_inv ?bp0" by (simp add: pool_safe_def)
  have n0: "frame_of ?bp0 = Map.empty" "next_page_id ?bp0 = 2" "pages ?bp0 = [empty_Page]" "pool_size ?bp0 = 1"
    "lru_list ?bp0 = []" by (simp_all add: SetNextPageId_def new_BufferPool_def frame_of_def fun_eq_iff)
  have a: "page_addr 0" "page_addr 1" by (simp_all add: page_addr_def MAX_PAGES_def)
  obtain f bp' where get: "GetFreeFrameOrVictim ?bp0 = Some (f, bp')"
    by (simp add: GetFreeFrameOrVictim_def SetNextPageId_def new_BufferPool_def)
  from FetchPage_loads [OF inv0 pool_safe_addr [OF s0] get _ a(1)] n0 obtain bp1 d
    where 1: "FetchPage 0 ?bp0 = Some (Some f, bp1)" "loaded f 0 d ?bp0 bp1" "next_page_id bp1 = 2" by auto
  have r1: "pool_reach 1 bp1"
    by (rule reach_fetch [OF r0 _ 1(1)]) (use a n0 in \<open>simp add: page_known_def\<close>)
  have f: "f = 0" using 1(2) n0 by (simp add: loaded_def)
  have l1: "frame_of bp1 = [0 \<mapsto> 0]" "pages bp1 = [\<lparr>page_id = 0, pin_count = 1, is_dirty = False, data = d\<rparr>]"
    "lru_list bp1 = []" "pool_size bp1 = 1" "bp_inv bp1"
    using 1(2) n0 f by (auto simp: loaded_def)
  have fl1: "free_list bp1 = []"
  proof -
    have "set (free_list bp1) = {}" using l1(2,4,5) by (auto simp: bp_inv_defs INVALID_PAGE_ID_def)
    then show ?thesis by simp
  qed
  let ?bp2 = "PinFrame 0 (upd_page 0 (\<lambda>p. p\<lparr>pin_count := pin_count p + 1\<rparr>) bp1)"
  have 2: "FetchPage 0 bp1 = Some (Some 0, ?bp2)" using l1 by (simp add: FetchPage_def)
  have "pool_reach 1 ?bp2"
    by (rule reach_fetch [OF r1 _ 2]) (use a 1(3) in \<open>simp add: page_known_def\<close>)
  moreover have "lru_list ?bp2 = []" using l1(3) by (simp add: PinFrame_def)
  ultimately show ?thesis
    using l1 fl1 a 1(3) by (intro exI [of _ ?bp2]) (simp add: page_known_def)
qed

lemma pool_reach_invariant_witness:
  "\<exists>bp. frame_of bp 0 = Some 0 \<and> pin_count (pages bp ! 0) = 2 \<and> lru_list bp = [] \<and> bp_inv bp \<and> FetchPage 1 bp \<noteq> None \<and>
    FlushPage 0 bp \<noteq> None \<and> DeletePage 0 bp \<noteq> None"
proof -
  from twice_pinned obtain bp where b: "pool_reach 1 bp" "frame_of bp 0 = Some 0" "pin_count (pages bp ! 0) = 2"
    "lru_list bp = []" "page_known bp 1" by blast
  with pool_reach_invariant [OF b(1)] show ?thesis by blast
qed

lemma UnpinPage_exposes_pinned_page_witness:
  "\<exists>bp bp1 bp2. pool_reach 1 bp \<and> UnpinPage 0 False bp = (True, bp1) \<and> 0 < pin_count (pages bp1 ! 0) \<and>
    FetchPage 1 bp1 = Some (Some 0, bp2) \<and> frame_of bp2 0 = None"
proof -
  from twice_pinned obtain bp where b: "pool_reach 1 bp" "frame_of bp 0 = Some 0" "pin_count (pages bp ! 0) = 2"
    "free_list bp = []" "lru_list bp = []" "page_known bp 1" "frame_of bp 1 = None" by blast
  from UnpinPage_exposes_pinned_page [OF b, of False] b(1) show ?thesis by blast
qed

text \<open>C10. \<open>FlushAllPages\<close> is complete and invisible: afterwards no resident page is dirty, every page of
  the client is on disk with the bytes it had, the client sees the same pages, and a new pool of any
  size over that disk shows them too. In which order the loop visits the page table does not matter: any other
  order \<open>pids\<close> leaves the same pool and the same file.\<close>
theorem FlushAllPages_persists:
  assumes q: "quiet K bp" and n: "0 < n" and p: "mset pids = mset (map fst (page_table bp))"
  shows "\<exists>bp'. FlushAllPages bp = Some bp' \<and> flush_pages pids bp = Some bp' \<and> quiet K bp' \<and>
    (\<forall>pid f. frame_of bp' pid = Some f \<longrightarrow> \<not> is_dirty (pages bp' ! f)) \<and>
    (\<forall>pid \<in> K. page_view bp' pid = page_view bp pid \<and>
      page_view (SetNextPageId (next_page_id bp') (new_BufferPool n (disk_manager bp'))) pid = page_view bp pid) \<and>
    quiet K (SetNextPageId (next_page_id bp') (new_BufferPool n (disk_manager bp')))"
proof -
  from FlushAllPages_quiet [OF q] obtain bp' where f: "FlushAllPages bp = Some bp'" "quiet K bp'"
    "\<forall>q \<in> K. page_view bp' q = page_view bp q" "\<forall>q \<in> K. disk_page (disk_manager bp') q = page_view bp q"
    "\<forall>pid f. frame_of bp' pid = Some f \<longrightarrow> \<not> is_dirty (pages bp' ! f)" by blast
  from f(2) have ok: "pool_ok K bp'" by (simp add: quiet_def)
  have K: "\<forall>q \<in> K. page_addr q \<and> q < next_page_id bp' \<and> disk_page (disk_manager bp') q \<noteq> None"
    using pool_ok_known [OF ok] f(3,4) by auto
  note r = quiet_restart [OF n K]
  have "flush_pages pids bp = FlushAllPages bp"
    using q by (intro FlushAllPages_any_order [OF _ pool_ok_resident_addr p]) (auto simp: quiet_def pool_ok_def)
  then show ?thesis using f r by auto
qed

text \<open>A pool of two frames on which three pages were made: the first was evicted, the others are resident and dirty, the
  younger one in the first frame.\<close>

lemma three_pages:
  assumes "length d0 = PAGE_SIZE" and "length d1 = PAGE_SIZE" and "length d2 = PAGE_SIZE"
  shows "\<exists>bp. quiet {0, 1, 2} bp \<and> page_table bp = [(1, 1), (2, 0)] \<and> is_dirty (pages bp ! 0) \<and> is_dirty (pages bp ! 1) \<and>
    page_view bp 0 = Some d0 \<and> page_view bp 1 = Some d1 \<and> page_view bp 2 = Some d2"
proof -
  let ?bp = "new_BufferPool 2 \<lparr>filename = ''data.db'', contents = None\<rparr>" and ?qs = "[P_Alloc d0, P_Alloc d1, P_Alloc d2]"
  note comp = pool_step_def NewPage_def GetFreeFrameOrVictim_def new_BufferPool_def evict_def empty_Page_def int32_max_def Let_def
    UnpinPage_def UnpinFrame_def PinFrame_def upd_page_def set_frame_data_def frame_of_def INVALID_PAGE_ID_def WritePage_def
    page_offset_def mem_read_def numeral_2_eq_2
  have 0: "pool_quiet ([], ?bp)" by (simp add: pool_quiet_def quiet_new)
  obtain bp where r: "run pool_step ?qs ([], ?bp) = Some ([P_Id 0, P_Id 1, P_Id 2], [2, 1, 0], bp)" and
    bp: "page_table bp = [(1, 1), (2, 0)]" "is_dirty (pages bp ! 0)" "is_dirty (pages bp ! 1)"
    using assms by (simp add: comp)
  have "run_adm pool_step pool_adm ?qs ([], ?bp)"
    using assms by (simp add: comp pool_adm_def page_addr_def MAX_PAGES_def)
  from pool_sim.run_sim [OF 0 this] r have q: "pool_quiet ([2, 1, 0], bp)"
    "spec_run store_step (store_of ([], ?bp)) ?qs [P_Id 0, P_Id 1, P_Id 2] (store_of ([2, 1, 0], bp))" by auto
  then have "store_of ([2, 1, 0], bp) = (store_of ([], ?bp))(0 \<mapsto> d0, 1 \<mapsto> d1, 2 \<mapsto> d2)" by auto
  then have "store_of ([2, 1, 0], bp) 0 = Some d0" "store_of ([2, 1, 0], bp) 1 = Some d1" "store_of ([2, 1, 0], bp) 2 = Some d2"
    by simp_all
  then have "page_view bp 0 = Some d0" "page_view bp 1 = Some d1" "page_view bp 2 = Some d2" by (simp_all add: store_of_def)
  moreover have "quiet {0, 1, 2} bp" using q(1) by (simp add: pool_quiet_def insert_commute)
  ultimately show ?thesis using bp by blast
qed

lemma FlushAllPages_persists_witness:
  "\<exists>bp bp'. is_dirty (pages bp ! 0) \<and> is_dirty (pages bp ! 1) \<and> FlushAllPages bp = Some bp' \<and> flush_pages [2, 1] bp = Some bp' \<and>
    flush_pages [1, 2] bp = Some bp' \<and> \<not> is_dirty (pages bp' ! 0) \<and> \<not> is_dirty (pages bp' ! 1) \<and>
    map (page_view (SetNextPageId (next_page_id bp') (new_BufferPool 1 (disk_manager bp')))) [0, 1, 2] =
      map (\<lambda>b. Some (replicate PAGE_SIZE b)) [7, 8, 9]"
proof -
  from three_pages [of "replicate PAGE_SIZE 7" "replicate PAGE_SIZE 8" "replicate PAGE_SIZE 9"] obtain bp where
    bp: "quiet {0, 1, 2} bp" "page_table bp = [(1, 1), (2, 0)]" "is_dirty (pages bp ! 0)" "is_dirty (pages bp ! 1)"
    "page_view bp 0 = Some (replicate PAGE_SIZE 7)" "page_view bp 1 = Some (replicate PAGE_SIZE 8)"
    "page_view bp 2 = Some (replicate PAGE_SIZE 9)" by auto
  from FlushAllPages_persists [OF bp(1), of 1 "[2, 1]"] bp(2) obtain bp' where
    b: "FlushAllPages bp = Some bp'" "flush_pages [2, 1] bp = Some bp'" "\<forall>pid f. frame_of bp' pid = Some f \<longrightarrow> \<not> is_dirty (pages bp' ! f)"
      "\<forall>pid \<in> {0, 1, 2}. page_view (SetNextPageId (next_page_id bp') (new_BufferPool 1 (disk_manager bp'))) pid = page_view bp pid"
    by (auto simp: ac_simps)
  have "page_table bp' = page_table bp" using FlushAllPages_quiet [OF bp(1)] b(1) by auto
  then have "frame_of bp' 2 = Some 0" "frame_of bp' 1 = Some 1" using bp(2) by (simp_all add: frame_of_def)
  with b(3) have "\<not> is_dirty (pages bp' ! 0)" "\<not> is_dirty (pages bp' ! 1)" by blast+
  with b bp(2-7) show ?thesis by (intro exI [of _ bp] exI [of _ bp']) (auto simp: FlushAllPages_def)
qed

end
