(* ===== verification/Record_Store.thy ===== *)
theory Record_Store
  imports Record_Update Pool_Flush Simulation
begin

section \<open>The record manager as a finite map, and what survives a restart\<close>

text \<open>
  The operations of the record manager as steps on a finite map from record ids to records, and the
  interpretation of the locale \<open>simulation\<close>.
\<close>

subsection \<open>Flush and reopen\<close>

lemma rm_Flush_spec:
  assumes inv: "rm_inv b rm"
  shows "\<exists>rm'. rm_Flush rm = Some rm' \<and> rm_inv b rm' \<and> heap_of rm' = heap_of rm \<and>
    page_ids rm' = page_ids rm \<and> rm_GetNextPageId rm' = rm_GetNextPageId rm \<and>
    (\<forall>p \<in> set (page_ids rm). disk_page (disk_manager (buffer_pool_manager rm')) p =
       page_view (buffer_pool_manager rm) p)"
proof -
  let ?bp = "buffer_pool_manager rm" and ?K = "set (page_ids rm)"
  from inv have qt: "quiet ?K ?bp" by (simp add: rm_inv_def pages_ok_def)
  from FlushAllPages_quiet [OF qt] obtain bp' where f: "FlushAllPages ?bp = Some bp'" "quiet ?K bp'"
    "\<forall>q \<in> ?K. page_view bp' q = page_view ?bp q"
    "\<forall>q \<in> ?K. disk_page (disk_manager bp') q = page_view ?bp q" "next_page_id bp' = next_page_id ?bp" by blast
  have k: "keeps b ?K (page_view ?bp) (next_page_id ?bp) bp'"
    using f inv by (auto simp: keeps_def rm_inv_def pages_ok_def)
  show ?thesis
    using f rm_inv_keeps [OF inv k] heap_of_keeps_same [OF k]
    by (simp add: rm_Flush_def rm_GetNextPageId_def)
qed

text \<open>What the catalog does at start-up: a new manager over the table's file, told its page list
  and its next page id.\<close>

definition rm_reopen :: "DiskManager \<Rightarrow> int list \<Rightarrow> int \<Rightarrow> RecordManager" where
  "rm_reopen dm ids n = rm_SetNextPageId n (SetPageIds ids (new_RecordManager dm))"

lemma rm_reopen_spec:
  assumes inv: "rm_inv b rm" and fl: "rm_Flush rm = Some rm'"
  defines "rm2 \<equiv> rm_reopen (disk_manager (buffer_pool_manager rm')) (page_ids rm) (rm_GetNextPageId rm)"
  shows "rm_inv b rm2" and "heap_of rm2 = heap_of rm" and "page_ids rm2 = page_ids rm"
    and "rm_GetNextPageId rm2 = rm_GetNextPageId rm"
proof -
  let ?bp = "buffer_pool_manager rm" and ?K = "set (page_ids rm)"
  let ?dm = "disk_manager (buffer_pool_manager rm')" and ?n = "rm_GetNextPageId rm"
  from inv have ok: "pool_ok ?K ?bp" by (simp add: rm_inv_def pages_ok_def quiet_def)
  from rm_Flush_spec [OF inv] fl have d: "\<forall>p \<in> ?K. disk_page ?dm p = page_view ?bp p" by auto
  have K: "\<forall>q \<in> ?K. page_addr q \<and> q < ?n \<and> disk_page ?dm q \<noteq> None"
    using pool_ok_known [OF ok] d by (auto simp: rm_GetNextPageId_def)
  have b2: "buffer_pool_manager rm2 = SetNextPageId ?n (new_BufferPool kDefaultPoolSize ?dm)"
    and ids: "page_ids rm2 = page_ids rm"
    by (simp_all add: rm2_def rm_reopen_def rm_SetNextPageId_def SetPageIds_def new_RecordManager_def)
  note r = quiet_restart [OF _ K, of kDefaultPoolSize]
  have v: "page_view (buffer_pool_manager rm2) q = page_view ?bp q" if "q \<in> ?K" for q
    using that d r(2) by (simp add: b2 kDefaultPoolSize_def)
  have "keeps b ?K (page_view ?bp) ?n (buffer_pool_manager rm2)"
    using inv r(1) v b2 by (auto simp: keeps_def rm_inv_def pages_ok_def kDefaultPoolSize_def SetNextPageId_def)
  then have k: "keeps b ?K (page_view ?bp) ?n (buffer_pool_manager rm2)" .
  have "rm2 = rm\<lparr>buffer_pool_manager := buffer_pool_manager rm2\<rparr>" using ids by (cases rm; cases rm2) simp
  then show "rm_inv b rm2" "heap_of rm2 = heap_of rm"
    using rm_inv_keeps [OF inv k] heap_of_keeps_same [OF k] by simp_all
  show "page_ids rm2 = page_ids rm" by (rule ids)
  show "rm_GetNextPageId rm2 = ?n" using k by (simp add: rm_GetNextPageId_def keeps_def)
qed

subsection \<open>Requests to a record manager\<close>

datatype request =
    Req_Insert "byte list"
  | Req_Get RecordId
  | Req_Delete RecordId
  | Req_Update RecordId "byte list"

datatype response = Resp_Id RecordId | Resp_Data "byte list option" | Resp_Bool bool

text \<open>One request on the model; a reader passes a buffer of a page's size, as the table iterator does.\<close>

definition rm_step :: "request \<Rightarrow> RecordManager \<Rightarrow> (response \<times> RecordManager) option" where
  "rm_step q rm = (case q of
     Req_Insert td \<Rightarrow> do { (rid, rm') \<leftarrow> rm_Insert (Some td) (length td) rm; Some (Resp_Id rid, rm') }
   | Req_Get rid \<Rightarrow> do { (r, rm') \<leftarrow> rm_Get rid (Some PAGE_SIZE) rm; Some (Resp_Data (map_option fst r), rm') }
   | Req_Delete rid \<Rightarrow> do { (b, rm') \<leftarrow> rm_Delete rid rm; Some (Resp_Bool b, rm') }
   | Req_Update rid td \<Rightarrow> do { (b, rm') \<leftarrow> rm_Update rid (Some td) (length td) rm; Some (Resp_Bool b, rm') })"

text \<open>The specification: a finite map from record ids to records. An insertion chooses an unused
  id; deleting what is not there may be answered either way; an update of a stored record may be
  refused for lack of room, and then changes nothing.\<close>

inductive map_step :: "(RecordId \<Rightarrow> byte list option) \<Rightarrow> request \<Rightarrow> response \<Rightarrow>
    (RecordId \<Rightarrow> byte list option) \<Rightarrow> bool" where
  map_insert: "m rid = None \<Longrightarrow> map_step m (Req_Insert td) (Resp_Id rid) (m(rid \<mapsto> td))"
| map_get: "map_step m (Req_Get rid) (Resp_Data (m rid)) m"
| map_delete: "(m rid \<noteq> None \<Longrightarrow> b) \<Longrightarrow> map_step m (Req_Delete rid) (Resp_Bool b) (m(rid := None))"
| map_update: "m rid \<noteq> None \<Longrightarrow> map_step m (Req_Update rid td) (Resp_Bool True) (m(rid \<mapsto> td))"
| map_refuse: "map_step m (Req_Update rid td) (Resp_Bool False) m"

inductive_simps map_step_simps [simp]:
  "map_step m (Req_Insert td) r m'"
  "map_step m (Req_Get rid) r m'"
  "map_step m (Req_Delete rid) r m'"
  "map_step m (Req_Update rid td) r m'"

text \<open>Requests within the contract: records of 1 to 4084 bytes while page ids remain, record ids of
  the manager's own pages, and updates that do not grow the record.\<close>

definition rm_adm :: "request \<Rightarrow> RecordManager \<Rightarrow> bool" where
  "rm_adm q rm = (case q of
     Req_Insert td \<Rightarrow> 0 < length td \<and> length td \<le> 4084 \<and> page_addr (rm_GetNextPageId rm)
   | Req_Get rid \<Rightarrow> rid_page_id rid \<in> set (page_ids rm)
   | Req_Delete rid \<Rightarrow> rid_page_id rid \<in> set (page_ids rm)
   | Req_Update rid td \<Rightarrow> rid_page_id rid \<in> set (page_ids rm) \<and> 0 < length td \<and>
       (case heap_get (heap_of rm) rid of None \<Rightarrow> length td \<le> 65535 | Some old \<Rightarrow> length td \<le> length old))"

lemma heap_record_size:
  assumes inv: "rm_inv b rm" and g: "heap_get (heap_of rm) rid = Some r"
  shows "0 < length r \<and> length r \<le> 4084"
proof -
  let ?p = "rid_page_id rid" and ?bp = "buffer_pool_manager rm"
  from g have p: "?p \<in> set (page_ids rm)" by (auto simp: heap_get_def lookup_rec_def split: if_splits)
  with inv obtain d where d: "page_view ?bp ?p = Some d" "page_inv d"
    by (auto simp: rm_inv_def pages_ok_def page_ok_def)
  from g p d(1) have "Some r \<in> set (page_records d)"
    by (auto simp: heap_get_def lookup_rec_def recs_of_def in_set_conv_nth split: if_splits)
  from record_size_bound [OF d(2) this] show ?thesis .
qed

lemma heap_get_bound:
  "heap_get (heap_of rm) rid = Some r \<Longrightarrow> unat (rid_slot_id rid) < length (recs_at (heap_of rm) (rid_page_id rid))"
  by (auto simp: heap_get_def lookup_rec_def split: if_splits)

interpretation rm: simulation rm_step map_step "\<lambda>rm. heap_get (heap_of rm)" "rm_inv True" rm_adm
proof (unfold_locales, goal_cases)
  case (1 s q)
  show ?case
  proof (cases q)
    case (Req_Insert td)
    with 1(2) have td: "0 < length td" "length td \<le> 4084" "page_addr (rm_GetNextPageId s)"
      by (simp_all add: rm_adm_def)
    from rm_Insert_spec [OF 1(1) td] obtain rid s' where i: "rm_Insert (Some td) (length td) s = Some (rid, s')"
      "rm_inv True s'" "heap_of s' = heap_append (rid_page_id rid) td (heap_of s)"
      "unat (rid_slot_id rid) = length (recs_at (heap_of s) (rid_page_id rid))" by blast
    with heap_get_append [OF refl i(4)] Req_Insert show ?thesis by (auto simp: rm_step_def)
  next
    case (Req_Get rid)
    with 1(2) have p: "rid_page_id rid \<in> set (page_ids s)" by (simp add: rm_adm_def)
    from rm_Get_spec [OF 1(1) p order_refl] Req_Get show ?thesis
      by (auto simp: rm_step_def option.map_comp comp_def option.map_ident)
  next
    case (Req_Delete rid)
    with 1(2) have p: "rid_page_id rid \<in> set (page_ids s)" by (simp add: rm_adm_def)
    from rm_Delete_spec [OF 1(1) p] Req_Delete show ?thesis
      by (auto simp: rm_step_def heap_get_delete simp del: recs_at_heap_of dest: heap_get_bound)
  next
    case (Req_Update rid td)
    with 1(2) have p: "rid_page_id rid \<in> set (page_ids s)" "0 < length td" by (simp_all add: rm_adm_def)
    have le: "length td \<le> 65535"
      using 1(2) Req_Update heap_record_size [OF 1(1), of rid] by (fastforce simp: rm_adm_def split: option.splits)
    from rm_Update_spec [OF 1(1) p le] obtain b s' where
      u: "rm_Update rid (Some td) (length td) s = Some (b, s')" "rm_inv False s'"
        "heap_of s' = (if b then heap_put rid (Some td) (heap_of s) else heap_of s)"
        "b \<longleftrightarrow> (\<exists>old. heap_get (heap_of s) rid = Some old \<and>
          (length td \<le> length old \<or> length td \<le> free_at (buffer_pool_manager s) (rid_page_id rid)))" "\<not> b \<longrightarrow> rm_inv True s'"
        "\<forall>old. heap_get (heap_of s) rid = Some old \<and> length td \<le> length old \<longrightarrow> b \<and> rm_inv True s'" by blast
    show ?thesis
    proof (cases "heap_get (heap_of s) rid")
      case None
      then have nb: "\<not> b" using u(4) by simp
      with u nb Req_Update show ?thesis by (auto simp: rm_step_def)
    next
      case (Some old)
      then have "length td \<le> length old" using 1(2) Req_Update by (simp add: rm_adm_def)
      with u(6) Some have "b" "rm_inv True s'" by auto
      with u(1,3) Some heap_get_put [of "heap_of s" rid "Some td"] Req_Update show ?thesis
        by (auto simp: rm_step_def)
    qed
  qed
qed

end
