(* ===== verification/Value_Types.thy ===== *)
theory Value_Types
  imports DB_Prelude "HOL-Library.Char_ord"
begin

section \<open>Values (src/type, src/factory)\<close>

text \<open>
  \<open>TypeId\<close>, \<open>Value\<close>, \<open>DsFactory\<close> and \<open>ValueFactory\<close>. A \<^verbatim>\<open>std::any\<close> is a datatype of the
  types the program stores in it; \<^verbatim>\<open>int32_t\<close> and \<^verbatim>\<open>int8_t\<close> are words read as signed.
  Exceptions are values: an operation that may throw returns \<^verbatim>\<open>exn + 'a\<close>. The conversions of
  the C++ library (\<^verbatim>\<open>std::stoi\<close>, \<^verbatim>\<open>std::to_string\<close>, \<^verbatim>\<open>toupper\<close>) are written out for
  the C locale.
\<close>

datatype exn =
    Runtime_error string
  | Invalid_argument
  | Out_of_range
  | Bad_any_cast

type_synonym 'a result = "exn + 'a"

abbreviation throw :: "exn \<Rightarrow> 'a result" where
  "throw \<equiv> Inl"

text \<open>Undefined behaviour outside, an exception inside.\<close>

type_synonym 'a outcome = "(exn + 'a) option"

subsection \<open>Types and dynamic values\<close>

text \<open>A \<^verbatim>\<open>static_cast\<close> to the enum can make a value without a name: the last constructor.\<close>

datatype TypeId = INVALID | BOOLEAN | INTEGER | UNNAMED u32

definition TypeId_of :: "u32 \<Rightarrow> TypeId" where
  "TypeId_of w = (if w = 0 then INVALID else if w = 1 then BOOLEAN else if w = 2 then INTEGER else UNNAMED w)"

definition TypeId_raw :: "TypeId \<Rightarrow> u32" where
  "TypeId_raw t = (case t of INVALID \<Rightarrow> 0 | BOOLEAN \<Rightarrow> 1 | INTEGER \<Rightarrow> 2 | UNNAMED w \<Rightarrow> w)"

datatype any = Empty | Int32 "32 word" | Int8 "8 word"

definition any_cast_int32 :: "any \<Rightarrow> (32 word) result" where
  "any_cast_int32 a = (case a of Int32 w \<Rightarrow> Inr w | _ \<Rightarrow> throw Bad_any_cast)"

definition any_cast_int8 :: "any \<Rightarrow> (8 word) result" where
  "any_cast_int8 a = (case a of Int8 w \<Rightarrow> Inr w | _ \<Rightarrow> throw Bad_any_cast)"

record Value =
  type_id :: TypeId
  vdata :: any

definition get_structure :: "TypeId \<Rightarrow> any" where
  "get_structure t = (case t of INTEGER \<Rightarrow> Int32 0 | BOOLEAN \<Rightarrow> Int8 0 | _ \<Rightarrow> Empty)"

definition new_Value :: "TypeId \<Rightarrow> Value" where
  "new_Value t = \<lparr>type_id = t, vdata = get_structure t\<rparr>"

text \<open>The bytes \<open>SerializeToChar\<close> puts at its destination.\<close>

definition SerializeToChar :: "Value \<Rightarrow> byte list result" where
  "SerializeToChar v = (case type_id v of
     INTEGER \<Rightarrow> (case any_cast_int32 (vdata v) of Inl e \<Rightarrow> throw e | Inr w \<Rightarrow> Inr (le32 w))
   | BOOLEAN \<Rightarrow> (case any_cast_int8 (vdata v) of Inl e \<Rightarrow> throw e | Inr w \<Rightarrow> Inr [w])
   | _ \<Rightarrow> Inr [])"

text \<open>\<open>DeserializeFromChar\<close> from an offset of a buffer.\<close>

definition DeserializeFromChar :: "nat \<Rightarrow> byte list \<Rightarrow> TypeId \<Rightarrow> Value \<Rightarrow> Value option" where
  "DeserializeFromChar off buf t v = (case t of
     INTEGER \<Rightarrow> do { bs \<leftarrow> mem_read off 4 buf; Some \<lparr>type_id = t, vdata = Int32 (de32 bs)\<rparr> }
   | BOOLEAN \<Rightarrow> do { bs \<leftarrow> mem_read off 1 buf; Some \<lparr>type_id = t, vdata = Int8 (bs ! 0)\<rparr> }
   | _ \<Rightarrow> Some (v\<lparr>type_id := t\<rparr>))"

subsection \<open>Characters and numbers\<close>

definition char_code :: "char \<Rightarrow> nat" where
  "char_code c = of_char c"

definition is_space :: "char \<Rightarrow> bool" where
  "is_space c \<longleftrightarrow> char_code c \<in> {9, 10, 11, 12, 13, 32}"

definition is_digit :: "char \<Rightarrow> bool" where
  "is_digit c \<longleftrightarrow> 48 \<le> char_code c \<and> char_code c \<le> 57"

definition to_upper :: "char \<Rightarrow> char" where
  "to_upper c = (if 97 \<le> char_code c \<and> char_code c \<le> 122 then char_of (char_code c - 32) else c)"

definition upper :: "string \<Rightarrow> string" where
  "upper s = map to_upper s"

definition digit_char :: "nat \<Rightarrow> char" where
  "digit_char n = char_of (48 + n)"

definition digits_value :: "string \<Rightarrow> nat" where
  "digits_value ds = foldl (\<lambda>n c. 10 * n + (char_code c - 48)) 0 ds"

fun show_nat :: "nat \<Rightarrow> string" where
  "show_nat n = (if n < 10 then [digit_char n] else show_nat (n div 10) @ [digit_char (n mod 10)])"

declare show_nat.simps [simp del]

definition to_string :: "int \<Rightarrow> string" where
  "to_string i = (if i < 0 then CHR ''-'' # show_nat (nat (- i)) else show_nat (nat i))"

text \<open>\<^verbatim>\<open>std::stoi\<close>: leading white space, an optional sign, digits; what follows is ignored.\<close>

definition stoi :: "string \<Rightarrow> int result" where
  "stoi s = (let t = dropWhile is_space s;
     neg = (t \<noteq> [] \<and> hd t = CHR ''-'');
     u = (if t \<noteq> [] \<and> (hd t = CHR ''-'' \<or> hd t = CHR ''+'') then tl t else t);
     ds = takeWhile is_digit u;
     n = int (digits_value ds);
     i = (if neg then - n else n) in
   if ds = [] then throw Invalid_argument
   else if i < - (2 ^ 31) \<or> 2 ^ 31 \<le> i then throw Out_of_range
   else Inr i)"

subsection \<open>ValueFactory\<close>

definition quoted :: "string \<Rightarrow> string" where
  "quoted s = char_of (39 :: nat) # s @ [char_of (39 :: nat)]"

definition FromString :: "string \<Rightarrow> TypeId \<Rightarrow> Value result" where
  "FromString raw t = (case t of
     INTEGER \<Rightarrow> (case stoi raw of Inl e \<Rightarrow> throw e
       | Inr i \<Rightarrow> Inr ((new_Value t)\<lparr>vdata := Int32 (word_of_int i)\<rparr>))
   | BOOLEAN \<Rightarrow> (let up = upper raw in
       if up \<noteq> ''TRUE'' \<and> up \<noteq> ''FALSE'' then throw (Runtime_error
         (''ValueFactory::FromString: expected '' @ quoted ''true'' @ '' or '' @ quoted ''false'' @
          '', got '' @ quoted raw))
       else Inr ((new_Value t)\<lparr>vdata := Int8 (if up = ''TRUE'' then 1 else 0)\<rparr>))
   | _ \<Rightarrow> throw (Runtime_error (''ValueFactory::FromString: unsupported TypeId for raw value '' @ quoted raw)))"

definition ToString :: "Value \<Rightarrow> TypeId \<Rightarrow> string result" where
  "ToString v t = (case t of
     INTEGER \<Rightarrow> (case any_cast_int32 (vdata v) of Inl e \<Rightarrow> throw e | Inr w \<Rightarrow> Inr (to_string (sint w)))
   | BOOLEAN \<Rightarrow> (case any_cast_int8 (vdata v) of Inl e \<Rightarrow> throw e
       | Inr w \<Rightarrow> Inr (if w \<noteq> 0 then ''true'' else ''false''))
   | _ \<Rightarrow> throw (Runtime_error ''ValueFactory::ToString: unsupported TypeId''))"

subsection \<open>Numbers are printed and read back\<close>

lemma char_code_digit: "n < 10 \<Longrightarrow> char_code (digit_char n) = 48 + n"
  by (simp add: char_code_def digit_char_def)

lemma is_digit_digit: "n < 10 \<Longrightarrow> is_digit (digit_char n)"
  by (simp add: is_digit_def char_code_digit)

lemma digits_value_snoc [simp]: "digits_value (ds @ [c]) = 10 * digits_value ds + (char_code c - 48)"
  by (simp add: digits_value_def)

lemma show_nat_digits: "\<forall>c \<in> set (show_nat n). is_digit c"
  by (induction n rule: show_nat.induct) (subst show_nat.simps, auto simp: is_digit_digit)

lemma show_nat_nonempty [simp]: "show_nat n \<noteq> []"
  by (subst show_nat.simps) simp

lemma show_nat_length: "n < 10 ^ Suc k \<Longrightarrow> length (show_nat n) \<le> Suc k"
proof (induction k arbitrary: n)
  case (Suc k)
  then have "n div 10 < 10 ^ Suc k" by (simp add: less_mult_imp_div_less)
  from Suc.IH [OF this] show ?case by (subst show_nat.simps) simp
qed (simp add: show_nat.simps)

lemma digits_value_show_nat [simp]: "digits_value (show_nat n) = n"
proof (induction n rule: show_nat.induct)
  case (1 n)
  then show ?case
    by (subst show_nat.simps) (auto simp: char_code_digit digits_value_def [of "[x]" for x])
qed

lemma digit_not_space: "is_digit c \<Longrightarrow> \<not> is_space c"
  by (auto simp: is_digit_def is_space_def)

lemma digit_no_sign: "is_digit c \<Longrightarrow> c \<noteq> CHR ''-'' \<and> c \<noteq> CHR ''+''"
  by (auto simp: is_digit_def char_code_def)

lemma takeWhile_show_nat [simp]: "takeWhile is_digit (show_nat n) = show_nat n"
  using show_nat_digits [of n] by (simp add: takeWhile_eq_all_conv)

lemma dropWhile_show_nat [simp]: "dropWhile is_space (show_nat n) = show_nat n"
  using show_nat_digits [of n] digit_not_space by (cases "show_nat n") auto

lemma hd_show_nat: "hd (show_nat n) \<noteq> CHR ''-''" "hd (show_nat n) \<noteq> CHR ''+''"
  using show_nat_digits [of n] digit_no_sign by (cases "show_nat n"; auto)+

lemma stoi_show_nat:
  assumes "int n < 2 ^ 31"
  shows "stoi (show_nat n) = Inr (int n)"
  using assms hd_show_nat [of n] by (simp add: stoi_def Let_def)

lemma stoi_show_neg:
  assumes "int n \<le> 2 ^ 31"
  shows "stoi (CHR ''-'' # show_nat n) = Inr (- int n)"
  using assms by (simp add: stoi_def Let_def is_space_def char_code_def)

lemma stoi_to_string:
  assumes "- (2 ^ 31) \<le> i" and "i < 2 ^ 31"
  shows "stoi (to_string i) = Inr i"
  using assms stoi_show_nat [of "nat i"] stoi_show_neg [of "nat (- i)"] by (auto simp: to_string_def)

lemma sint32_range: "- (2 ^ 31) \<le> sint (w :: 32 word)" "sint (w :: 32 word) < 2 ^ 31"
  using sint_greater_eq [of w] sint_less [of w] by simp_all

lemma TypeId_of_raw: "TypeId_of (TypeId_raw t) = t \<longleftrightarrow> (\<forall>w. t = UNNAMED w \<longrightarrow> 2 < w)"
proof (cases t)
  case (UNNAMED w)
  have "2 < w \<longleftrightarrow> w \<noteq> 0 \<and> w \<noteq> 1 \<and> w \<noteq> 2" by unat_arith
  with UNNAMED show ?thesis by (auto simp: TypeId_of_def TypeId_raw_def)
qed (simp_all add: TypeId_of_def TypeId_raw_def)

end
