(* ===== verification/Schema_Tuple.thy ===== *)
theory Schema_Tuple
  imports Value_Types
begin

section \<open>Columns, schemas and tuples (src/catalog/column.cpp, schema.cpp, src/type/tuple.cpp)\<close>

text \<open>
  A schema gives every column a byte offset; a tuple is the bytes of its values at these offsets.
  Lengths and offsets are \<^verbatim>\<open>uint32_t\<close>. A tuple object is its byte vector.
\<close>

record Column =
  column_name :: string
  column_type :: TypeId
  column_length :: u32

definition new_Column :: "string \<Rightarrow> TypeId \<Rightarrow> Column" where
  "new_Column name t = \<lparr>column_name = name, column_type = t,
     column_length = (if t = INTEGER then 4 else if t = BOOLEAN then 1 else 0)\<rparr>"

record Schema =
  schema_length :: u32
  columns :: "Column list"
  offsets :: "u32 list"

text \<open>The constructor's loop: the offsets from a given length on, and the final length.\<close>

fun column_offsets :: "Column list \<Rightarrow> u32 \<Rightarrow> u32 list \<times> u32" where
  "column_offsets [] len = ([], len)"
| "column_offsets (col # cols) len = (let (offs, len') = column_offsets cols (len + column_length col)
     in (len # offs, len'))"

definition new_Schema :: "Column list \<Rightarrow> Schema" where
  "new_Schema cols = (let (offs, len) = column_offsets cols 0
     in \<lparr>schema_length = len, columns = cols, offsets = offs\<rparr>)"

definition GetColumn :: "Schema \<Rightarrow> nat \<Rightarrow> Column option" where
  "GetColumn sch i = vec_at (columns sch) i"

definition GetColOffset :: "Schema \<Rightarrow> nat \<Rightarrow> u32 option" where
  "GetColOffset sch i = vec_at (offsets sch) i"

definition GetColumnCount :: "Schema \<Rightarrow> u32" where
  "GetColumnCount sch = word_of_nat (length (columns sch))"

type_synonym Tuple = "byte list"

fun serialize_values :: "Schema \<Rightarrow> nat \<Rightarrow> Value list \<Rightarrow> byte list \<Rightarrow> Tuple outcome" where
  "serialize_values sch i [] d = Some (Inr d)"
| "serialize_values sch i (v # vs) d = do {
     off \<leftarrow> GetColOffset sch i;
     case SerializeToChar v of
       Inl e \<Rightarrow> Some (throw e)
     | Inr bs \<Rightarrow> do {
         d' \<leftarrow> mem_write (unat off) bs d;
         serialize_values sch (i + 1) vs d' } }"

definition new_Tuple :: "Value list \<Rightarrow> Schema \<Rightarrow> Tuple outcome" where
  "new_Tuple values sch = serialize_values sch 0 values (replicate (unat (schema_length sch)) 0)"

definition GetValue :: "Schema \<Rightarrow> nat \<Rightarrow> Tuple \<Rightarrow> Value option" where
  "GetValue sch i d = do {
     col \<leftarrow> GetColumn sch i;
     off \<leftarrow> GetColOffset sch i;
     DeserializeFromChar (unat off) d (column_type col) (new_Value INVALID) }"

subsection \<open>Offsets\<close>

text \<open>A table's columns: built by the constructor, with one of the two types, and few enough that no
  offset wraps.\<close>

definition good_column :: "Column \<Rightarrow> bool" where
  "good_column c \<longleftrightarrow> column_type c = INTEGER \<and> column_length c = 4 \<or>
     column_type c = BOOLEAN \<and> column_length c = 1"

definition good_columns :: "Column list \<Rightarrow> bool" where
  "good_columns cols \<longleftrightarrow> (\<forall>c \<in> set cols. good_column c) \<and> length cols < 2 ^ 30"

definition clen :: "Column \<Rightarrow> nat" where
  "clen c = unat (column_length c)"

definition offset_at :: "Column list \<Rightarrow> nat \<Rightarrow> nat" where
  "offset_at cols i = sum_list (map clen (take i cols))"

lemma good_new_Column: "t \<in> {INTEGER, BOOLEAN} \<Longrightarrow> good_column (new_Column name t)"
  by (auto simp: good_column_def new_Column_def)

lemma clen_bound: "good_column c \<Longrightarrow> 1 \<le> clen c \<and> clen c \<le> 4"
  by (auto simp: good_column_def clen_def)

lemma offset_at_Suc: "i < length cols \<Longrightarrow> offset_at cols (Suc i) = offset_at cols i + clen (cols ! i)"
  by (simp add: offset_at_def take_Suc_conv_app_nth)

lemma offset_at_Cons: "offset_at (c # cols) (Suc i) = clen c + offset_at cols i"
  by (simp add: offset_at_def)

lemma offset_at_0 [simp]: "offset_at cols 0 = 0"
  by (simp add: offset_at_def)

lemma offset_at_mono: "i \<le> j \<Longrightarrow> offset_at cols i \<le> offset_at cols j"
proof (induction j)
  case (Suc j)
  have "offset_at cols j \<le> offset_at cols (Suc j)"
    by (cases "j < length cols") (simp_all add: offset_at_Suc, simp add: offset_at_def)
  with Suc show ?case by (auto simp: le_Suc_eq)
qed simp

lemma total_length_bound: "\<forall>c \<in> set cols. good_column c \<Longrightarrow> sum_list (map clen cols) \<le> 4 * length cols"
proof (induction cols)
  case (Cons c cols)
  with clen_bound [of c] show ?case by simp
qed simp

lemma column_offsets_spec:
  assumes "unat len + sum_list (map clen cols) < 2 ^ 32"
  shows "length (fst (column_offsets cols len)) = length cols \<and>
    (\<forall>i < length cols. unat (fst (column_offsets cols len) ! i) = unat len + offset_at cols i) \<and>
    unat (snd (column_offsets cols len)) = unat len + sum_list (map clen cols)"
  using assms
proof (induction cols arbitrary: len)
  case (Cons c cols)
  have u: "unat (len + column_length c) = unat len + clen c"
    using Cons.prems by (simp add: clen_def unat_word_ariths)
  obtain offs len' where r: "column_offsets cols (len + column_length c) = (offs, len')"
    by (cases "column_offsets cols (len + column_length c)") auto
  from Cons.IH [of "len + column_length c"] Cons.prems u r have ih: "length offs = length cols"
    "\<forall>i < length cols. unat (offs ! i) = unat len + clen c + offset_at cols i"
    "unat len' = unat len + clen c + sum_list (map clen cols)" by simp_all
  then show ?case using r by (auto simp: nth_Cons offset_at_Cons split: nat.splits)
qed simp

lemma new_Schema_spec:
  assumes "good_columns cols"
  shows "columns (new_Schema cols) = cols" and "length (offsets (new_Schema cols)) = length cols"
    and "i < length cols \<Longrightarrow> unat (offsets (new_Schema cols) ! i) = offset_at cols i"
    and "unat (schema_length (new_Schema cols)) = sum_list (map clen cols)"
proof -
  have "sum_list (map clen cols) < 2 ^ 32"
    using total_length_bound [of cols] assms by (auto simp: good_columns_def)
  then have "unat (0 :: u32) + sum_list (map clen cols) < 2 ^ 32" by simp
  note s = column_offsets_spec [OF this]
  show "columns (new_Schema cols) = cols" "length (offsets (new_Schema cols)) = length cols"
    "i < length cols \<Longrightarrow> unat (offsets (new_Schema cols) ! i) = offset_at cols i"
    "unat (schema_length (new_Schema cols)) = sum_list (map clen cols)"
    using s by (auto simp: new_Schema_def split: prod.splits)
qed

subsection \<open>Serialised values\<close>

text \<open>A value of a column type, and the bytes that stand for it.\<close>

definition typed :: "TypeId \<Rightarrow> Value \<Rightarrow> bool" where
  "typed t v \<longleftrightarrow> type_id v = t \<and>
     (t = INTEGER \<and> (\<exists>w. vdata v = Int32 w) \<or> t = BOOLEAN \<and> (\<exists>w. vdata v = Int8 w))"

definition value_bytes :: "Value \<Rightarrow> byte list" where
  "value_bytes v = (case vdata v of Int32 w \<Rightarrow> le32 w | Int8 w \<Rightarrow> [w] | Empty \<Rightarrow> [])"

lemma SerializeToChar_typed: "typed t v \<Longrightarrow> SerializeToChar v = Inr (value_bytes v)"
  by (auto simp: typed_def SerializeToChar_def value_bytes_def any_cast_int32_def any_cast_int8_def)

lemma length_value_bytes: "good_column c \<Longrightarrow> typed (column_type c) v \<Longrightarrow> length (value_bytes v) = clen c"
  by (auto simp: typed_def value_bytes_def good_column_def clen_def)

lemma Deserialize_typed:
  assumes "good_column c" and "typed (column_type c) v" and "off + clen c \<le> length d"
    and "slice off (clen c) d = value_bytes v"
  shows "DeserializeFromChar off d (column_type c) u = Some v"
proof (cases "column_type c = INTEGER")
  case True
  with assms(1,2) obtain w where w: "vdata v = Int32 w" "type_id v = INTEGER" "clen c = 4"
    by (auto simp: typed_def good_column_def clen_def)
  with assms(3,4) True show ?thesis
    by (cases v) (simp add: DeserializeFromChar_def mem_read_def value_bytes_def)
next
  case False
  with assms(1,2) obtain w where w: "vdata v = Int8 w" "type_id v = BOOLEAN" "clen c = 1" "column_type c = BOOLEAN"
    by (auto simp: typed_def good_column_def clen_def)
  with assms(3,4) show ?thesis
    by (cases v) (simp add: DeserializeFromChar_def mem_read_def value_bytes_def)
qed

text \<open>The value of a column that no value was given for.\<close>

lemma typed_default: "good_column c \<Longrightarrow> typed (column_type c) (new_Value (column_type c))"
  by (auto simp: typed_def good_column_def new_Value_def get_structure_def)

lemma replicate_4: "replicate 4 x = [x, x, x, x]"
  by (simp add: numeral_eq_Suc)

lemma default_bytes: "good_column c \<Longrightarrow> value_bytes (new_Value (column_type c)) = replicate (clen c) 0"
  by (auto simp: good_column_def new_Value_def get_structure_def value_bytes_def clen_def le32_def replicate_4)

subsection \<open>A tuple holds its values\<close>

definition fits_columns :: "Column list \<Rightarrow> Value list \<Rightarrow> bool" where
  "fits_columns cols vs \<longleftrightarrow> length vs \<le> length cols \<and> (\<forall>i < length vs. typed (column_type (cols ! i)) (vs ! i))"

definition col_slice :: "Column list \<Rightarrow> nat \<Rightarrow> byte list \<Rightarrow> byte list" where
  "col_slice cols i d = slice (offset_at cols i) (clen (cols ! i)) d"

lemma column_end: "i < length cols \<Longrightarrow> offset_at cols i + clen (cols ! i) \<le> sum_list (map clen cols)"
  using offset_at_Suc [of i cols] offset_at_mono [of "Suc i" "length cols" cols] by (simp add: offset_at_def)

lemma column_disjoint:
  assumes "i < length cols" and "j < length cols" and "i \<noteq> j"
  shows "offset_at cols i + clen (cols ! i) \<le> offset_at cols j \<or>
    offset_at cols j + clen (cols ! j) \<le> offset_at cols i"
  using assms offset_at_Suc [of i cols] offset_at_Suc [of j cols]
    offset_at_mono [of "Suc i" j cols] offset_at_mono [of "Suc j" i cols]
  by (cases "i < j") auto

lemma serialize_values_spec:
  assumes good: "good_columns cols" and "length d = sum_list (map clen cols)"
    and "i + length vs \<le> length cols" and "\<forall>k < length vs. typed (column_type (cols ! (i + k))) (vs ! k)"
  shows "\<exists>d'. serialize_values (new_Schema cols) i vs d = Some (Inr d') \<and> length d' = length d \<and>
    (\<forall>j < length cols. col_slice cols j d' =
       (if i \<le> j \<and> j < i + length vs then value_bytes (vs ! (j - i)) else col_slice cols j d))"
  using assms(2-4)
proof (induction vs arbitrary: i d)
  case (Cons v vs)
  note ns = new_Schema_spec [OF good]
  from Cons.prems have i: "i < length cols" and t: "typed (column_type (cols ! i)) v" by auto
  from good i have gc: "good_column (cols ! i)" by (simp add: good_columns_def)
  let ?off = "offset_at cols i"
  have lb: "length (value_bytes v) = clen (cols ! i)" by (rule length_value_bytes [OF gc t])
  have fit: "?off + length (value_bytes v) \<le> length d" using column_end [OF i] lb Cons.prems(1) by simp
  define d1 where "d1 = splice_at ?off (value_bytes v) d"
  have l1: "length d1 = length d" using fit by (simp add: d1_def)
  have "typed (column_type (cols ! (Suc i + k))) (vs ! k)" if "k < length vs" for k
    using Cons.prems(3) [rule_format, of "Suc k"] that by simp
  with Cons.IH [of d1 "Suc i"] Cons.prems l1 obtain d' where
    r: "serialize_values (new_Schema cols) (Suc i) vs d1 = Some (Inr d')" "length d' = length d1"
      "\<forall>j < length cols. col_slice cols j d' =
       (if Suc i \<le> j \<and> j < Suc i + length vs then value_bytes (vs ! (j - Suc i)) else col_slice cols j d1)"
    by auto
  have w: "mem_write ?off (value_bytes v) d = Some d1" using fit by (simp add: mem_write_def d1_def)
  have s1: "col_slice cols j d1 = (if j = i then value_bytes v else col_slice cols j d)" if j: "j < length cols" for j
    using column_end [OF j] column_disjoint [OF i j] fit lb Cons.prems(1)
    by (auto simp: col_slice_def d1_def slice_splice_at_same slice_splice_at_disjoint)
  have off: "GetColOffset (new_Schema cols) i = Some (offsets (new_Schema cols) ! i)"
    using i ns(2) by (simp add: GetColOffset_def)
  have "serialize_values (new_Schema cols) i (v # vs) d = Some (Inr d')"
    using r(1) w off ns(3) [OF i] SerializeToChar_typed [OF t] by simp
  moreover have "col_slice cols j d' =
      (if i \<le> j \<and> j < i + length (v # vs) then value_bytes ((v # vs) ! (j - i)) else col_slice cols j d)"
    if j: "j < length cols" for j
    using r(3) j s1 [OF j] by (auto simp: nth_Cons' Suc_le_eq Suc_diff_Suc)
  ultimately show ?case using r(2) l1 by auto
qed auto

text \<open>What column \<open>i\<close> of a tuple made from \<open>vs\<close> reads as.\<close>

definition column_value :: "Column list \<Rightarrow> Value list \<Rightarrow> nat \<Rightarrow> Value" where
  "column_value cols vs i = (if i < length vs then vs ! i else new_Value (column_type (cols ! i)))"

lemma slice_replicate: "off + n \<le> m \<Longrightarrow> slice off n (replicate m x) = replicate n x"
  by (simp add: slice_def)

lemma new_Tuple_spec:
  assumes good: "good_columns cols" and fit: "fits_columns cols vs"
  shows "\<exists>d. new_Tuple vs (new_Schema cols) = Some (Inr d) \<and> length d = sum_list (map clen cols) \<and>
    (\<forall>i < length cols. GetValue (new_Schema cols) i d = Some (column_value cols vs i))"
proof -
  note ns = new_Schema_spec [OF good]
  let ?n = "sum_list (map clen cols)"
  from serialize_values_spec [OF good, of "replicate ?n 0" 0 vs] fit obtain d where
    d: "serialize_values (new_Schema cols) 0 vs (replicate ?n 0) = Some (Inr d)" "length d = ?n"
      "\<forall>j < length cols. col_slice cols j d =
         (if j < length vs then value_bytes (vs ! j) else col_slice cols j (replicate ?n 0))"
    by (auto simp: fits_columns_def)
  have "GetValue (new_Schema cols) i d = Some (column_value cols vs i)" if i: "i < length cols" for i
  proof -
    from good i have gc: "good_column (cols ! i)" by (simp add: good_columns_def)
    have t: "typed (column_type (cols ! i)) (column_value cols vs i)"
      using fit i typed_default [OF gc] by (simp add: column_value_def fits_columns_def)
    have "col_slice cols i d = value_bytes (column_value cols vs i)"
      using d(3) i column_end [OF i] default_bytes [OF gc]
      by (simp add: column_value_def col_slice_def slice_replicate)
    then have "DeserializeFromChar (offset_at cols i) d (column_type (cols ! i)) (new_Value INVALID) =
        Some (column_value cols vs i)"
      using Deserialize_typed [OF gc t, of "offset_at cols i" d] column_end [OF i] d(2) by (simp add: col_slice_def)
    then show ?thesis using i ns by (simp add: GetValue_def GetColumn_def GetColOffset_def)
  qed
  with d(1,2) ns(4) show ?thesis by (auto simp: new_Tuple_def)
qed

end
