(* ===== verification/Table_Manager.thy ===== *)
theory Table_Manager
  imports Record_Store Schema_Tuple
begin

section \<open>Tables and their iterator (src/manager/table_manager.cpp, src/utils/table_iterator.cpp)\<close>

text \<open>
  A table manager is a record manager that stores tuples. An iterator is a record id and an index
  into the page list; the end iterator has the invalid page id. Reading through an iterator goes
  through the buffer pool, so every operation returns the record manager it leaves.
\<close>

type_synonym TableManager = RecordManager

record TableIterator =
  it_rid :: RecordId
  it_page_idx :: nat

text \<open>\<^verbatim>\<open>Tuple(raw_data, size)\<close>: the first bytes of a buffer.\<close>

definition raw_Tuple :: "byte list \<Rightarrow> nat \<Rightarrow> Tuple" where [simp]:
  "raw_Tuple raw_data sz = take sz raw_data"

definition tuple_GetLength :: "Tuple \<Rightarrow> u32" where
  "tuple_GetLength t = word_of_nat (length t)"

definition tm_InsertTuple :: "Tuple \<Rightarrow> TableManager \<Rightarrow> (RecordId \<times> TableManager) option" where
  "tm_InsertTuple t tm = rm_Insert (Some t) (unat (tuple_GetLength t)) tm"

definition tm_DeleteTuple :: "RecordId \<Rightarrow> TableManager \<Rightarrow> (bool \<times> TableManager) option" where
  "tm_DeleteTuple rid tm = rm_Delete rid tm"

text \<open>What the table manager hands on to its record manager.\<close>

definition tm_Flush :: "TableManager \<Rightarrow> TableManager option" where [simp]:
  "tm_Flush tm = rm_Flush tm"

definition tm_SetPageIds :: "int list \<Rightarrow> TableManager \<Rightarrow> TableManager" where [simp]:
  "tm_SetPageIds ids tm = SetPageIds ids tm"

definition tm_GetPageIds :: "TableManager \<Rightarrow> int list" where [simp]:
  "tm_GetPageIds tm = page_ids tm"

definition tm_GetNextPageId :: "TableManager \<Rightarrow> int" where [simp]:
  "tm_GetNextPageId tm = rm_GetNextPageId tm"

definition tm_SetNextPageId :: "int \<Rightarrow> TableManager \<Rightarrow> TableManager" where [simp]:
  "tm_SetNextPageId n tm = rm_SetNextPageId n tm"

text \<open>Both readers pass a 4096-byte buffer and make a tuple of the bytes read, none when the read
  fails.\<close>

definition tm_GetTuple :: "RecordId \<Rightarrow> TableManager \<Rightarrow> (Tuple \<times> TableManager) option" where
  "tm_GetTuple rid tm = do {
     (r, tm') \<leftarrow> rm_Get rid (Some 4096) tm;
     Some (case r of Some (buf, sz) \<Rightarrow> raw_Tuple buf (unat sz) | None \<Rightarrow> [], tm') }"

definition it_deref :: "TableIterator \<Rightarrow> RecordManager \<Rightarrow> (Tuple \<times> RecordManager) option" where
  "it_deref it rm = do {
     (r, rm') \<leftarrow> rm_Get (it_rid it) (Some 4096) rm;
     Some (case r of Some (buf, sz) \<Rightarrow> raw_Tuple buf (unat sz) | None \<Rightarrow> [], rm') }"

text \<open>The inner loop of \<open>operator++\<close>: the first slot from \<open>slot\<close> on that holds a tuple.\<close>

function scan_slots :: "int \<Rightarrow> u16 \<Rightarrow> u16 \<Rightarrow> RecordManager \<Rightarrow> (u16 option \<times> RecordManager) option" where
  "scan_slots pid slot slot_cnt rm = (if slot < slot_cnt then do {
       (r, rm1) \<leftarrow> rm_Get \<lparr>rid_page_id = pid, rid_slot_id = slot\<rparr> (Some 4096) rm;
       if r \<noteq> None then Some (Some slot, rm1) else scan_slots pid (slot + 1) slot_cnt rm1 }
     else Some (None, rm))"
  by pat_completeness auto
termination
proof (relation "measure (\<lambda>(_, slot, slot_cnt, _). unat slot_cnt - unat slot)", goal_cases)
  case (2 pid slot slot_cnt rm)
  then have "unat slot < unat slot_cnt" by (simp add: word_less_nat_alt)
  moreover from this have "unat (slot + 1) = unat slot + 1"
    using unat_u16_less [of slot_cnt] by (subst unat_u16_add) auto
  ultimately show ?case by simp
qed simp

declare scan_slots.simps [simp del]

text \<open>The outer loop, from a page index and a slot on.\<close>

function it_seek :: "int list \<Rightarrow> RecordId \<Rightarrow> nat \<Rightarrow> RecordManager \<Rightarrow> (TableIterator \<times> RecordManager) option" where
  "it_seek ids rid page_idx rm = do {
     (slot_cnt, rm1) \<leftarrow> GetSlotCount (rid_page_id rid) rm;
     (found, rm2) \<leftarrow> scan_slots (rid_page_id rid) (rid_slot_id rid) slot_cnt rm1;
     case found of
       Some slot \<Rightarrow> Some (\<lparr>it_rid = rid\<lparr>rid_slot_id := slot\<rparr>, it_page_idx = page_idx\<rparr>, rm2)
     | None \<Rightarrow>
         if length ids \<le> page_idx + 1 then Some (\<lparr>it_rid = invalid_rid, it_page_idx = page_idx + 1\<rparr>, rm2)
         else it_seek ids \<lparr>rid_page_id = ids ! (page_idx + 1), rid_slot_id = 0\<rparr> (page_idx + 1) rm2 }"
  by pat_completeness auto
termination
  by (relation "measure (\<lambda>(ids, _, page_idx, _). length ids - page_idx)") auto

declare it_seek.simps [simp del]

definition it_next :: "TableIterator \<Rightarrow> RecordManager \<Rightarrow> (TableIterator \<times> RecordManager) option" where
  "it_next it rm = it_seek (page_ids rm) ((it_rid it)\<lparr>rid_slot_id := rid_slot_id (it_rid it) + 1\<rparr>)
     (it_page_idx it) rm"

definition tm_End :: "TableIterator" where
  "tm_End = \<lparr>it_rid = invalid_rid, it_page_idx = 0\<rparr>"

definition it_eq :: "TableIterator \<Rightarrow> TableIterator \<Rightarrow> bool" where
  "it_eq a b \<longleftrightarrow> rid_page_id (it_rid a) = rid_page_id (it_rid b) \<and> rid_slot_id (it_rid a) = rid_slot_id (it_rid b)"

definition tm_Begin :: "TableManager \<Rightarrow> (TableIterator \<times> TableManager) option" where
  "tm_Begin tm = (if page_ids tm = [] then Some (tm_End, tm)
     else do {
       let first = \<lparr>rid_page_id = page_ids tm ! 0, rid_slot_id = 0\<rparr>;
       let it = \<lparr>it_rid = first, it_page_idx = 0\<rparr>;
       (r, tm') \<leftarrow> rm_Get first (Some 4096) tm;
       if r = None then it_next it tm' else Some (it, tm') })"

text \<open>The loop \<^verbatim>\<open>for (auto it = Begin; it != End; ++it)\<close> over a body that may throw.\<close>

partial_function (option) scan_loop :: "(TableIterator \<Rightarrow> 'a \<Rightarrow> RecordManager \<Rightarrow> ('a result \<times> RecordManager) option) \<Rightarrow>
    TableIterator \<Rightarrow> 'a \<Rightarrow> RecordManager \<Rightarrow> ('a result \<times> RecordManager) option" where
  "scan_loop body it acc rm = (if it_eq it tm_End then Some (Inr acc, rm)
     else do {
       (r, rm1) \<leftarrow> body it acc rm;
       case r of Inl e \<Rightarrow> Some (Inl e, rm1)
       | Inr acc' \<Rightarrow> do {
           (it', rm2) \<leftarrow> it_next it rm1;
           scan_loop body it' acc' rm2 } })"

definition table_scan :: "(TableIterator \<Rightarrow> 'a \<Rightarrow> RecordManager \<Rightarrow> ('a result \<times> RecordManager) option) \<Rightarrow>
    'a \<Rightarrow> TableManager \<Rightarrow> ('a result \<times> TableManager) option" where
  "table_scan body acc tm = do {
     (it, tm1) \<leftarrow> tm_Begin tm;
     scan_loop body it acc tm1 }"

end
