(* ===== verification/File_Names.thy ===== *)
theory File_Names
  imports Record_Store
begin

section \<open>No operation changes which file a table uses\<close>

text \<open>The frame lemmas that let the catalog reason about one table's file at a time.\<close>

definition fname :: "RecordManager \<Rightarrow> string" where
  "fname rm = filename (disk_manager (buffer_pool_manager rm))"

abbreviation bp_fname :: "BufferPool \<Rightarrow> string" where
  "bp_fname bp \<equiv> filename (disk_manager bp)"

named_theorems fname_dest \<open>the file name of the state an operation leaves\<close>

lemma WritePage_fname [fname_dest]: "WritePage p d dm = Some dm' \<Longrightarrow> filename dm' = filename dm"
  by (auto simp: WritePage_def Let_def split: bind_splits)

lemma set_frame_data_fname [simp]: "bp_fname (set_frame_data f d bp) = bp_fname bp"
  by (simp add: set_frame_data_def)

lemma UnpinPage_fname [simp]: "bp_fname (snd (UnpinPage p dirty bp)) = bp_fname bp"
  by (simp add: UnpinPage_def split: option.splits)

lemma evict_fname [fname_dest]: "evict f bp = Some bp' \<Longrightarrow> bp_fname bp' = bp_fname bp"
  by (auto simp: evict_def Let_def dest: WritePage_fname split: bind_splits if_splits)

lemma GetFreeFrameOrVictim_fname: "GetFreeFrameOrVictim bp = Some (f, bp') \<Longrightarrow> bp_fname bp' = bp_fname bp"
  by (auto simp: GetFreeFrameOrVictim_def split: list.splits)

lemma FetchPage_fname [fname_dest]: "FetchPage p bp = Some (r, bp') \<Longrightarrow> bp_fname bp' = bp_fname bp"
  by (auto simp: FetchPage_def Let_def dest!: GetFreeFrameOrVictim_fname evict_fname
      split: option.splits bind_splits)

lemma NewPage_fname [fname_dest]: "NewPage bp = Some (r, bp') \<Longrightarrow> bp_fname bp' = bp_fname bp"
  by (auto simp: NewPage_def Let_def dest!: GetFreeFrameOrVictim_fname evict_fname
      split: option.splits bind_splits if_splits)

lemma FlushPage_fname [fname_dest]: "FlushPage p bp = Some (r, bp') \<Longrightarrow> bp_fname bp' = bp_fname bp"
  by (auto simp: FlushPage_def dest!: WritePage_fname split: option.splits bind_splits if_splits)

lemma flush_pages_fname: "flush_pages ps bp = Some bp' \<Longrightarrow> bp_fname bp' = bp_fname bp"
proof (induction ps arbitrary: bp)
  case (Cons p ps)
  then show ?case by (force split: bind_splits dest: FlushPage_fname)
qed simp

lemma rm_Get_fname [fname_dest]: "rm_Get rid out rm = Some (r, rm') \<Longrightarrow> fname rm' = fname rm"
  by (auto simp: rm_Get_def fname_def Let_def dest!: FetchPage_fname split: option.splits bind_splits if_splits)

lemma GetSlotCount_fname [fname_dest]: "GetSlotCount p rm = Some (r, rm') \<Longrightarrow> fname rm' = fname rm"
  by (auto simp: GetSlotCount_def fname_def dest!: FetchPage_fname split: option.splits bind_splits)

lemma rm_Delete_fname [fname_dest]: "rm_Delete rid rm = Some (r, rm') \<Longrightarrow> fname rm' = fname rm"
  by (auto simp: rm_Delete_def fname_def dest!: FetchPage_fname split: option.splits bind_splits if_splits)

lemma rm_Flush_fname [fname_dest]: "rm_Flush rm = Some rm' \<Longrightarrow> fname rm' = fname rm"
  by (auto simp: rm_Flush_def FlushAllPages_def fname_def dest!: flush_pages_fname split: bind_splits)

lemma insert_first_fit_fname: "insert_first_fit td ts ps bp = Some (r, bp') \<Longrightarrow> bp_fname bp' = bp_fname bp"
proof (induction ps arbitrary: bp)
  case (Cons p ps)
  from Cons.prems show ?case
    by (auto simp: Let_def split: bind_splits option.splits if_splits dest!: FetchPage_fname Cons.IH)
qed simp

lemma insert_after_compact_fname: "insert_after_compact td ts ps bp = Some (r, bp') \<Longrightarrow> bp_fname bp' = bp_fname bp"
proof (induction ps arbitrary: bp)
  case (Cons p ps)
  from Cons.prems show ?case
    by (auto simp: Let_def split: bind_splits option.splits if_splits dest!: FetchPage_fname Cons.IH)
qed simp

lemma insert_new_page_fname: "insert_new_page td ts rm = Some (r, rm') \<Longrightarrow> fname rm' = fname rm"
  by (auto simp: insert_new_page_def fname_def Let_def dest!: NewPage_fname split: bind_splits option.splits)

lemma rm_Insert_fname [fname_dest]: "rm_Insert src sz rm = Some (r, rm') \<Longrightarrow> fname rm' = fname rm"
  by (auto simp: rm_Insert_def fname_def Let_def split: bind_splits option.splits if_splits
      dest!: insert_first_fit_fname insert_after_compact_fname insert_new_page_fname [unfolded fname_def])

end
