(* ===== verification/Table_Scan.thy ===== *)
theory Table_Scan
  imports Table_Manager File_Names
begin

section \<open>A scan visits every record once, in page and slot order\<close>

text \<open>
  \<open>live_rids h\<close> lists the ids of the stored records. An iterator that has \<open>rs\<close> still to visit,
  the current record included, is described by \<open>it_at\<close>; a scan reads pages through the pool but
  leaves the heap as it is (\<open>rm_same\<close>).
\<close>

definition live_from :: "'r option list \<Rightarrow> nat \<Rightarrow> nat list" where
  "live_from rs k = filter (\<lambda>i. rs ! i \<noteq> None) [k..<length rs]"

definition page_rids :: "heap \<Rightarrow> int \<Rightarrow> nat \<Rightarrow> RecordId list" where
  "page_rids h p k = map (\<lambda>i. \<lparr>rid_page_id = p, rid_slot_id = word_of_nat i\<rparr>) (live_from (recs_at h p) k)"

definition live_rids :: "heap \<Rightarrow> RecordId list" where
  "live_rids h = concat (map (\<lambda>p. page_rids h p 0) (map fst h))"

definition rm_same :: "bool \<Rightarrow> RecordManager \<Rightarrow> RecordManager \<Rightarrow> bool" where
  "rm_same b rm rm' \<longleftrightarrow> rm_inv b rm' \<and> heap_of rm' = heap_of rm \<and> page_ids rm' = page_ids rm \<and>
     rm_GetNextPageId rm' = rm_GetNextPageId rm \<and> fname rm' = fname rm"

lemma rm_same_refl [simp]: "rm_inv b rm \<Longrightarrow> rm_same b rm rm"
  by (simp add: rm_same_def)

lemma rm_same_trans: "rm_same b rm rm1 \<Longrightarrow> rm_same b rm1 rm2 \<Longrightarrow> rm_same b rm rm2"
  by (simp add: rm_same_def)

lemma rm_same_inv: "rm_same b rm rm' \<Longrightarrow> rm_inv b rm'"
  by (simp add: rm_same_def)

lemma map_fst_heap_of [simp]: "map fst (heap_of rm) = page_ids rm"
  by (simp add: heap_of_def comp_def)

lemma recs_bound:
  assumes "rm_inv b rm"
  shows "length (recs_at (heap_of rm) p) \<le> 1022"
proof (cases "p \<in> set (page_ids rm)")
  case True
  with assms obtain d where "page_view (buffer_pool_manager rm) p = Some d" "page_inv d"
    by (auto simp: rm_inv_def pages_ok_def page_ok_def)
  with True page_inv_room [of d] show ?thesis by (simp add: recs_of_def PAGE_SIZE_def)
qed simp

lemma live_from_le: "length rs \<le> k \<Longrightarrow> live_from rs k = []"
  by (simp add: live_from_def)

lemma live_from_step:
  "k < length rs \<Longrightarrow> live_from rs k = (if rs ! k \<noteq> None then k # live_from rs (Suc k) else live_from rs (Suc k))"
  by (simp add: live_from_def upt_conv_Cons)

lemma live_from_bound: "i \<in> set (live_from rs k) \<Longrightarrow> k \<le> i \<and> i < length rs"
  by (auto simp: live_from_def)

text \<open>The rest of a list of live slots starts after its first element.\<close>

lemma live_from_Cons:
  assumes "live_from rs k = i # js"
  shows "k \<le> i" and "i < length rs" and "rs ! i \<noteq> None" and "live_from rs (Suc i) = js"
proof -
  have "i \<in> set (live_from rs k)" using assms by simp
  then show i: "k \<le> i" "i < length rs" "rs ! i \<noteq> None" by (auto simp: live_from_def)
  show "live_from rs (Suc i) = js"
    using assms i
  proof (induction "i - k" arbitrary: k)
    case 0
    then show ?case using live_from_step [of k rs] by (simp split: if_splits)
  next
    case (Suc n)
    then have "k < length rs" "k \<noteq> i" by auto
    with Suc.prems live_from_step [of k rs] have "live_from rs (Suc k) = i # js"
      by (simp split: if_splits)
    with Suc.hyps(1) [of "Suc k"] Suc.hyps(2) Suc.prems show ?case by auto
  qed
qed

lemma rm_Get_same:
  assumes inv: "rm_inv b rm" and p: "rid_page_id rid \<in> set (page_ids rm)"
  shows "\<exists>rm'. rm_Get rid (Some 4096) rm =
      Some (map_option (\<lambda>td. (td, word_of_nat (length td))) (heap_get (heap_of rm) rid), rm') \<and> rm_same b rm rm'"
proof -
  have "PAGE_SIZE \<le> 4096" by (simp add: PAGE_SIZE_def)
  from rm_Get_spec [OF inv p this] inv show ?thesis by (auto simp: rm_same_def dest: rm_Get_fname)
qed

lemma scan_slots_spec:
  assumes "rm_inv b rm" and "pid \<in> set (page_ids rm)"
    and "unat slot_cnt = length (recs_at (heap_of rm) pid)"
  shows "\<exists>rm'. scan_slots pid slot slot_cnt rm =
      Some (case live_from (recs_at (heap_of rm) pid) (unat slot) of [] \<Rightarrow> None | i # _ \<Rightarrow> Some (word_of_nat i), rm') \<and>
    rm_same b rm rm'"
  using assms
proof (induction pid slot slot_cnt rm rule: scan_slots.induct)
  case (1 pid slot slot_cnt rm)
  let ?rs = "recs_at (heap_of rm) pid" and ?rid = "\<lparr>rid_page_id = pid, rid_slot_id = slot\<rparr>"
  show ?case
  proof (cases "slot < slot_cnt")
    case False
    then have "length ?rs \<le> unat slot" using 1(4) by (simp add: word_less_nat_alt not_less)
    with False 1(2) show ?thesis by (subst scan_slots.simps) (simp add: live_from_le del: recs_at_heap_of)
  next
    case True
    then have lt: "unat slot < length ?rs" using 1(4) by (simp add: word_less_nat_alt)
    have s1: "unat (slot + 1) = Suc (unat slot)"
      using lt recs_bound [OF 1(2), of pid] by (subst unat_u16_add) auto
    have g: "heap_get (heap_of rm) ?rid = ?rs ! unat slot"
      using lt by (simp add: heap_get_def lookup_rec_def del: recs_at_heap_of)
    from rm_Get_same [OF 1(2), of ?rid] 1(3) g obtain rm1 where
      get: "rm_Get ?rid (Some 4096) rm = Some (map_option (\<lambda>td. (td, word_of_nat (length td))) (?rs ! unat slot), rm1)"
        "rm_same b rm rm1" by auto
    show ?thesis
    proof (cases "?rs ! unat slot")
      case (Some r)
      then show ?thesis using get True live_from_step [OF lt]
        by (subst scan_slots.simps) (simp del: recs_at_heap_of)
    next
      case None
      have same: "rm_inv b rm1" "heap_of rm1 = heap_of rm" "page_ids rm1 = page_ids rm"
        using get(2) by (simp_all add: rm_same_def)
      have "\<exists>rm'. scan_slots pid (slot + 1) slot_cnt rm1 =
        Some (case live_from (recs_at (heap_of rm1) pid) (unat (slot + 1)) of [] \<Rightarrow> None | i # _ \<Rightarrow> Some (word_of_nat i), rm') \<and>
        rm_same b rm1 rm'"
        using "1.IH" [OF True get(1)] None same 1(3,4) by (simp del: recs_at_heap_of)
      with same None get True live_from_step [OF lt] s1 show ?thesis
        by (subst scan_slots.simps) (auto simp del: recs_at_heap_of intro: rm_same_trans)
    qed
  qed
qed

subsection \<open>The iterator\<close>

definition rest_rids :: "heap \<Rightarrow> int list \<Rightarrow> nat \<Rightarrow> nat \<Rightarrow> RecordId list" where
  "rest_rids h ids pidx k = page_rids h (ids ! pidx) k @ concat (map (\<lambda>p. page_rids h p 0) (drop (pidx + 1) ids))"

definition it_at :: "heap \<Rightarrow> int list \<Rightarrow> TableIterator \<Rightarrow> RecordId list \<Rightarrow> bool" where
  "it_at h ids it rs \<longleftrightarrow> (case rs of [] \<Rightarrow> it_rid it = invalid_rid
     | r # rs' \<Rightarrow> it_rid it = r \<and> it_page_idx it < length ids \<and> rid_page_id r = ids ! it_page_idx it \<and>
         heap_get h r \<noteq> None \<and> rest_rids h ids (it_page_idx it) (unat (rid_slot_id r) + 1) = rs')"

lemma it_at_page:
  assumes "rm_inv b rm" and "pidx < length (page_ids rm)"
    and "live_from (recs_at (heap_of rm) (page_ids rm ! pidx)) k = i # js"
  shows "it_at (heap_of rm) (page_ids rm)
      \<lparr>it_rid = \<lparr>rid_page_id = page_ids rm ! pidx, rid_slot_id = word_of_nat i\<rparr>, it_page_idx = pidx\<rparr>
      (rest_rids (heap_of rm) (page_ids rm) pidx k)"
proof -
  note l = live_from_Cons [OF assms(3)]
  have "unat (word_of_nat i :: u16) = i"
    using l(2) recs_bound [OF assms(1), of "page_ids rm ! pidx"] by (intro unat_u16_of_nat) linarith
  with l assms(2,3) show ?thesis
    by (simp add: it_at_def rest_rids_def page_rids_def heap_get_def lookup_rec_def del: recs_at_heap_of)
qed

lemma it_seek_spec:
  assumes "rm_inv b rm" and "pidx < length (page_ids rm)"
  shows "\<exists>it rm'. it_seek (page_ids rm) \<lparr>rid_page_id = page_ids rm ! pidx, rid_slot_id = slot\<rparr> pidx rm = Some (it, rm') \<and>
    rm_same b rm rm' \<and> it_at (heap_of rm) (page_ids rm) it (rest_rids (heap_of rm) (page_ids rm) pidx (unat slot))"
  using assms
proof (induction "length (page_ids rm) - pidx" arbitrary: pidx slot rm)
  case 0
  then show ?case by simp
next
  case (Suc n)
  let ?ids = "page_ids rm" and ?p = "page_ids rm ! pidx" and ?rid = "\<lparr>rid_page_id = page_ids rm ! pidx, rid_slot_id = slot\<rparr>"
  let ?rs = "recs_at (heap_of rm) ?p"
  have p: "?p \<in> set ?ids" using Suc.prems by simp
  from GetSlotCount_spec [OF Suc.prems(1) p] obtain rm1 where 1: "GetSlotCount ?p rm = Some (word_of_nat (length ?rs), rm1)"
    "rm_same b rm rm1" by (auto simp: rm_same_def simp del: recs_at_heap_of dest: GetSlotCount_fname)
  then have s1: "rm_inv b rm1" "heap_of rm1 = heap_of rm" "page_ids rm1 = ?ids" by (simp_all add: rm_same_def)
  have c: "unat (word_of_nat (length ?rs) :: u16) = length ?rs"
    using recs_bound [OF Suc.prems(1), of ?p] by (intro unat_u16_of_nat) linarith
  have p1: "?p \<in> set (page_ids rm1)" using p s1 by simp
  have c1: "unat (word_of_nat (length ?rs) :: u16) = length (recs_at (heap_of rm1) ?p)"
    using c s1(2) by simp
  from scan_slots_spec [OF s1(1) p1 c1, of slot] s1(2) obtain rm2 where
    2: "scan_slots ?p slot (word_of_nat (length ?rs)) rm1 =
        Some (case live_from ?rs (unat slot) of [] \<Rightarrow> None | i # _ \<Rightarrow> Some (word_of_nat i), rm2)"
      "rm_same b rm1 rm2" by auto
  note same = rm_same_trans [OF 1(2) 2(2)]
  then have s2: "rm_inv b rm2" "heap_of rm2 = heap_of rm" "page_ids rm2 = ?ids" by (simp_all add: rm_same_def)
  show ?case
  proof (cases "live_from ?rs (unat slot)")
    case (Cons i js)
    with it_at_page [OF Suc.prems Cons] same 1(1) 2(1) show ?thesis by (subst it_seek.simps) simp
  next
    case Nil
    then have r: "rest_rids (heap_of rm) ?ids pidx (unat slot) = concat (map (\<lambda>p. page_rids (heap_of rm) p 0) (drop (pidx + 1) ?ids))"
      by (simp add: rest_rids_def page_rids_def del: recs_at_heap_of)
    show ?thesis
    proof (cases "length ?ids \<le> pidx + 1")
      case True
      then have "it_at (heap_of rm) ?ids \<lparr>it_rid = invalid_rid, it_page_idx = pidx + 1\<rparr> (rest_rids (heap_of rm) ?ids pidx (unat slot))"
        unfolding r by (simp add: it_at_def)
      with True Nil same 1(1) 2(1) show ?thesis by (subst it_seek.simps) simp
    next
      case False
      then have nx: "pidx + 1 < length (page_ids rm2)" and n: "n = length (page_ids rm2) - (pidx + 1)"
        using Suc.hyps(2) s2 by auto
      from Suc.hyps(1) [OF n s2(1) nx, of 0] s2 obtain it rm' where
        3: "it_seek ?ids \<lparr>rid_page_id = ?ids ! (pidx + 1), rid_slot_id = 0\<rparr> (pidx + 1) rm2 = Some (it, rm')"
          "rm_same b rm2 rm'" "it_at (heap_of rm) ?ids it (rest_rids (heap_of rm) ?ids (pidx + 1) 0)" by auto
      have "rest_rids (heap_of rm) ?ids (pidx + 1) 0 = rest_rids (heap_of rm) ?ids pidx (unat slot)"
        unfolding r using nx s2(3) Cons_nth_drop_Suc [of "pidx + 1" ?ids, symmetric] by (simp add: rest_rids_def)
      with 3 False Nil 1(1) 2(1) rm_same_trans [OF same 3(2)] show ?thesis by (subst it_seek.simps) simp
    qed
  qed
qed

lemma it_next_spec:
  assumes inv: "rm_inv b rm" and at: "it_at (heap_of rm) (page_ids rm) it (r # rs)"
  shows "\<exists>it' rm'. it_next it rm = Some (it', rm') \<and> rm_same b rm rm' \<and> it_at (heap_of rm) (page_ids rm) it' rs"
proof -
  from at have a: "it_rid it = r" "it_page_idx it < length (page_ids rm)" "rid_page_id r = page_ids rm ! it_page_idx it"
    "heap_get (heap_of rm) r \<noteq> None" "rest_rids (heap_of rm) (page_ids rm) (it_page_idx it) (unat (rid_slot_id r) + 1) = rs"
    by (simp_all add: it_at_def)
  from a(4) have "unat (rid_slot_id r) < length (recs_at (heap_of rm) (rid_page_id r))"
    by (auto dest: heap_get_bound simp del: recs_at_heap_of)
  then have s: "unat (rid_slot_id r + 1) = unat (rid_slot_id r) + 1"
    using recs_bound [OF inv, of "rid_page_id r"] by (subst unat_u16_add) auto
  have rid: "r\<lparr>rid_slot_id := rid_slot_id r + 1\<rparr> = \<lparr>rid_page_id = page_ids rm ! it_page_idx it, rid_slot_id = rid_slot_id r + 1\<rparr>"
    using a(3) by (cases r) simp
  show ?thesis
    using it_seek_spec [OF inv a(2), of "rid_slot_id r + 1"] unfolding s a(5) it_next_def a(1) rid .
qed

lemma tm_Begin_spec:
  assumes inv: "rm_inv b rm"
  shows "\<exists>it rm'. tm_Begin rm = Some (it, rm') \<and> rm_same b rm rm' \<and>
    it_at (heap_of rm) (page_ids rm) it (live_rids (heap_of rm))"
proof (cases "page_ids rm")
  case Nil
  then show ?thesis using inv by (simp add: tm_Begin_def live_rids_def it_at_def tm_End_def)
next
  case (Cons p ps)
  let ?first = "\<lparr>rid_page_id = page_ids rm ! 0, rid_slot_id = 0\<rparr>" and ?rs = "recs_at (heap_of rm) (page_ids rm ! 0)"
  have l: "live_rids (heap_of rm) = rest_rids (heap_of rm) (page_ids rm) 0 0"
    by (simp add: live_rids_def rest_rids_def Cons)
  have p: "rid_page_id ?first \<in> set (page_ids rm)" and n: "0 < length (page_ids rm)" using Cons by simp_all
  from rm_Get_same [OF inv p] obtain rm1 where get: "rm_Get ?first (Some 4096) rm =
      Some (map_option (\<lambda>td. (td, word_of_nat (length td))) (heap_get (heap_of rm) ?first), rm1)" "rm_same b rm rm1" by blast
  show ?thesis
  proof (cases "heap_get (heap_of rm) ?first")
    case (Some td)
    then have "0 < length ?rs \<and> ?rs ! 0 \<noteq> None" by (auto simp: heap_get_def lookup_rec_def split: if_splits simp del: recs_at_heap_of)
    then have "live_from ?rs 0 = 0 # live_from ?rs 1" using live_from_step [of 0 ?rs] by simp
    from it_at_page [OF inv n this] Some get Cons l show ?thesis by (simp add: tm_Begin_def)
  next
    case None
    have s1: "rm_inv b rm1" "heap_of rm1 = heap_of rm" "page_ids rm1 = page_ids rm"
      using get(2) by (simp_all add: rm_same_def)
    have n1: "0 < length (page_ids rm1)" using n s1 by simp
    from it_seek_spec [OF s1(1) n1, of 1] s1 obtain it rm' where
      i: "it_next \<lparr>it_rid = ?first, it_page_idx = 0\<rparr> rm1 = Some (it, rm')" "rm_same b rm1 rm'"
        "it_at (heap_of rm) (page_ids rm) it (rest_rids (heap_of rm) (page_ids rm) 0 1)"
      by (auto simp: it_next_def)
    have "rest_rids (heap_of rm) (page_ids rm) 0 1 = rest_rids (heap_of rm) (page_ids rm) 0 0"
    proof (cases "0 < length ?rs")
      case True
      with None have "?rs ! 0 = None" by (simp add: heap_get_def lookup_rec_def del: recs_at_heap_of)
      with True live_from_step [OF True] show ?thesis by (simp add: rest_rids_def page_rids_def del: recs_at_heap_of)
    qed (simp add: rest_rids_def page_rids_def live_from_le del: recs_at_heap_of)
    with i None get Cons l rm_same_trans [OF get(2) i(2)] show ?thesis by (simp add: tm_Begin_def)
  qed
qed

subsection \<open>The scan loop\<close>

fun fold_result :: "('b \<Rightarrow> 'a \<Rightarrow> 'a result) \<Rightarrow> 'b list \<Rightarrow> 'a \<Rightarrow> 'a result" where
  "fold_result f [] acc = Inr acc"
| "fold_result f (x # xs) acc = (case f x acc of Inl e \<Rightarrow> Inl e | Inr acc' \<Rightarrow> fold_result f xs acc')"

text \<open>\<open>reads_as b h f body\<close>: on a table with heap \<open>h\<close>, the loop body computes \<open>f\<close> of the current
  record id and the accumulator, and changes no record.\<close>

definition reads_as :: "bool \<Rightarrow> heap \<Rightarrow> (RecordId \<Rightarrow> 'a \<Rightarrow> 'a result) \<Rightarrow>
    (TableIterator \<Rightarrow> 'a \<Rightarrow> RecordManager \<Rightarrow> ('a result \<times> RecordManager) option) \<Rightarrow> bool" where
  "reads_as b h f body \<longleftrightarrow> (\<forall>it acc rm. rm_inv b rm \<and> heap_of rm = h \<and> rid_page_id (it_rid it) \<in> set (page_ids rm) \<and>
     heap_get h (it_rid it) \<noteq> None \<longrightarrow> (\<exists>rm'. body it acc rm = Some (f (it_rid it) acc, rm') \<and> rm_same b rm rm'))"

lemma rm_ids_valid:
  assumes "rm_inv b rm" and "p \<in> set (page_ids rm)"
  shows "p \<noteq> INVALID_PAGE_ID"
  using assms page_ok_addr by (auto simp: rm_inv_def)

lemma it_eq_End: "it_eq it tm_End \<longleftrightarrow> it_rid it = invalid_rid"
  by (cases "it_rid it") (simp add: it_eq_def tm_End_def invalid_rid_def)

lemma scan_loop_spec:
  assumes "rm_inv b rm" and "it_at (heap_of rm) (page_ids rm) it rs" and body: "reads_as b (heap_of rm) f body"
  shows "\<exists>rm'. scan_loop body it acc rm = Some (fold_result f rs acc, rm') \<and> rm_same b rm rm'"
  using assms
proof (induction rs arbitrary: it acc rm)
  case Nil
  then have "it_eq it tm_End" by (simp add: it_eq_End it_at_def)
  with Nil.prems(1) show ?case by (subst scan_loop.simps) simp
next
  case (Cons r rs)
  from Cons.prems(2) have a: "it_rid it = r" "rid_page_id r \<in> set (page_ids rm)" "heap_get (heap_of rm) r \<noteq> None"
    by (auto simp: it_at_def)
  have ne: "\<not> it_eq it tm_End"
    using a(1) rm_ids_valid [OF Cons.prems(1) a(2)] by (auto simp: it_eq_End invalid_rid_def)
  from Cons.prems(1,3) a obtain rm1 where 1: "body it acc rm = Some (f r acc, rm1)" "rm_same b rm rm1"
    unfolding reads_as_def by blast
  show ?case
  proof (cases "f r acc")
    case (Inl e)
    with 1 ne show ?thesis by (subst scan_loop.simps) simp
  next
    case (Inr acc')
    from 1(2) have s1: "rm_inv b rm1" "heap_of rm1 = heap_of rm" "page_ids rm1 = page_ids rm" by (simp_all add: rm_same_def)
    from it_next_spec [OF s1(1), of it r rs] Cons.prems(2) s1 obtain it' rm2 where
      2: "it_next it rm1 = Some (it', rm2)" "rm_same b rm1 rm2" "it_at (heap_of rm) (page_ids rm) it' rs" by auto
    from 2(2) s1 have s2: "rm_inv b rm2" "heap_of rm2 = heap_of rm" "page_ids rm2 = page_ids rm" by (simp_all add: rm_same_def)
    from Cons.IH [OF s2(1), of it' acc'] 2(3) Cons.prems(3) s2 obtain rm' where
      3: "scan_loop body it' acc' rm2 = Some (fold_result f rs acc', rm')" "rm_same b rm2 rm'" by auto
    from rm_same_trans [OF rm_same_trans [OF 1(2) 2(2)] 3(2)] 1(1) 2(1) 3(1) ne Inr show ?thesis
      by (subst scan_loop.simps) simp
  qed
qed

lemma table_scan_spec:
  assumes inv: "rm_inv b rm" and body: "reads_as b (heap_of rm) f body"
  shows "\<exists>rm'. table_scan body acc rm = Some (fold_result f (live_rids (heap_of rm)) acc, rm') \<and> rm_same b rm rm'"
proof -
  from tm_Begin_spec [OF inv] obtain it rm1 where 1: "tm_Begin rm = Some (it, rm1)" "rm_same b rm rm1"
    "it_at (heap_of rm) (page_ids rm) it (live_rids (heap_of rm))" by blast
  then have s1: "rm_inv b rm1" "heap_of rm1 = heap_of rm" "page_ids rm1 = page_ids rm" by (simp_all add: rm_same_def)
  from scan_loop_spec [OF s1(1), of it "live_rids (heap_of rm)" f body acc] 1(3) body s1 obtain rm' where
    2: "scan_loop body it acc rm1 = Some (fold_result f (live_rids (heap_of rm)) acc, rm')" "rm_same b rm1 rm'" by auto
  from 1(1) 2(1) rm_same_trans [OF 1(2) 2(2)] show ?thesis by (auto simp: table_scan_def)
qed

subsection \<open>The ids of a scan\<close>

text \<open>Every stored record is visited exactly once.\<close>

lemma page_rids_iff:
  assumes "length (recs_at h p) < 65536"
  shows "r \<in> set (page_rids h p 0) \<longleftrightarrow> rid_page_id r = p \<and> heap_get h r \<noteq> None"
proof
  assume "r \<in> set (page_rids h p 0)"
  then obtain i where "i < length (recs_at h p)" "recs_at h p ! i \<noteq> None" "r = \<lparr>rid_page_id = p, rid_slot_id = word_of_nat i\<rparr>"
    by (auto simp: page_rids_def live_from_def)
  with assms show "rid_page_id r = p \<and> heap_get h r \<noteq> None"
    by (simp add: heap_get_def lookup_rec_def unat_u16_of_nat)
next
  assume r: "rid_page_id r = p \<and> heap_get h r \<noteq> None"
  then have "unat (rid_slot_id r) \<in> set (live_from (recs_at h p) 0)"
    by (auto simp: heap_get_def lookup_rec_def live_from_def split: if_splits)
  moreover have "r = \<lparr>rid_page_id = p, rid_slot_id = word_of_nat (unat (rid_slot_id r))\<rparr>"
    using r by (cases r) simp
  ultimately show "r \<in> set (page_rids h p 0)" unfolding page_rids_def by (metis (no_types, lifting) image_eqI list.set_map)
qed

lemma live_rids_complete:
  assumes inv: "rm_inv b rm"
  shows "set (live_rids (heap_of rm)) = dom (heap_get (heap_of rm))"
proof -
  have l: "length (recs_at (heap_of rm) p) < 65536" for p using recs_bound [OF inv, of p] by linarith
  have "rid_page_id r \<in> set (page_ids rm)" if "heap_get (heap_of rm) r \<noteq> None" for r
    using that by (auto simp: heap_get_def lookup_rec_def split: if_splits)
  then show ?thesis
    using page_rids_iff [OF l] by (auto simp: live_rids_def simp del: recs_at_heap_of)
qed

lemma distinct_page_rids:
  assumes "length (recs_at h p) < 65536"
  shows "distinct (page_rids h p 0)"
proof -
  have "inj_on (\<lambda>i. \<lparr>rid_page_id = p, rid_slot_id = word_of_nat i\<rparr> :: RecordId) {..<65536}"
    by (rule inj_onI) (auto dest!: arg_cong [of "word_of_nat _ :: u16" _ unat] simp: unat_u16_of_nat)
  moreover have "set (live_from (recs_at h p) 0) \<subseteq> {..<65536}" using assms by (auto dest: live_from_bound)
  ultimately have "inj_on (\<lambda>i. \<lparr>rid_page_id = p, rid_slot_id = word_of_nat i\<rparr> :: RecordId) (set (live_from (recs_at h p) 0))"
    by (rule inj_on_subset)
  then show ?thesis by (simp add: page_rids_def distinct_map) (simp add: live_from_def)
qed

lemma live_rids_distinct:
  assumes inv: "rm_inv b rm"
  shows "distinct (live_rids (heap_of rm))"
proof -
  have l: "length (recs_at (heap_of rm) p) < 65536" for p using recs_bound [OF inv, of p] by linarith
  have "distinct (page_ids rm)" using inv by (simp add: rm_inv_def)
  moreover have "distinct (concat (map (\<lambda>p. page_rids (heap_of rm) p 0) ps))" if "distinct ps" for ps
    using that
  proof (induction ps)
    case (Cons p ps)
    then have "p \<notin> set ps" by simp
    then have "set (page_rids (heap_of rm) p 0) \<inter> set (concat (map (\<lambda>p. page_rids (heap_of rm) p 0) ps)) = {}"
      using page_rids_iff [OF l] by fastforce
    with Cons distinct_page_rids [OF l] show ?case by simp
  qed simp
  ultimately show ?thesis by (simp add: live_rids_def)
qed

end
