(* ===== verification/Insert_Order.thy ===== *)
theory Insert_Order
  imports Record_Store Table_Scan
begin

section \<open>Where a record goes, and in what order a scan finds it\<close>

text \<open>
  A record goes to a page that has space for it, counting the holes that compaction would fill; only when no
  page has, the file grows. So a table that is only filled, with records of one length, fills page by page
  (\<open>packed\<close>), and a scan meets its records in the order of their insertion.
\<close>

lemma page_space_bound:
  assumes "rm_inv True rm" and "q \<in> set (page_ids rm)"
  shows "8 + 4 * length (recs_at (heap_of rm) q) + record_bytes (recs_at (heap_of rm) q) \<le> PAGE_SIZE"
proof -
  from assms obtain d where d: "page_view (buffer_pool_manager rm) q = Some d" "page_inv d" "page_ordered d"
    by (auto simp: rm_inv_def pages_ok_def page_ok_def)
  from CompactOnePage_spec [OF d(2,3)] obtain d' where d': "page_inv d'" "page_records d' = page_records d"
    "fso d' + used_bytes d + 1 = PAGE_SIZE" by blast
  have "cnt d' = cnt d" using d'(2) by (metis length_page_records)
  with d' page_inv_room [OF d'(1)] have "8 + 4 * length (page_records d) + record_bytes (page_records d) \<le> PAGE_SIZE"
    by (simp flip: used_bytes_records [OF d(2)])
  with d(1) assms(2) show ?thesis by (simp add: recs_of_def)
qed

lemma rm_Insert_place:
  assumes inv: "rm_inv True rm" and td: "0 < length td" "length td \<le> 4084" and next_ok: "page_addr (rm_GetNextPageId rm)"
  shows "\<exists>rid rm'. rm_Insert (Some td) (length td) rm = Some (rid, rm') \<and> rm_inv True rm' \<and>
    heap_of rm' = heap_append (rid_page_id rid) td (heap_of rm) \<and>
    unat (rid_slot_id rid) = length (recs_at (heap_of rm) (rid_page_id rid)) \<and>
    (if \<exists>q \<in> set (page_ids rm). room_for (length td) (recs_at (heap_of rm) q)
     then rid_page_id rid \<in> set (page_ids rm) \<and> room_for (length td) (recs_at (heap_of rm) (rid_page_id rid)) \<and>
       page_ids rm' = page_ids rm
     else rid_page_id rid \<notin> set (page_ids rm) \<and> page_ids rm' = page_ids rm @ [rid_page_id rid])"
proof -
  have st: "storable_tuple td" using td by (simp add: storable_tuple_def)
  from rm_Insert_spec [OF inv td next_ok] obtain rid rm' where
    r: "rm_Insert (Some td) (length td) rm = Some (rid, rm')" "rm_inv True rm'"
      "unat (rid_slot_id rid) = length (recs_at (heap_of rm) (rid_page_id rid))"
      "heap_of rm' = heap_append (rid_page_id rid) td (heap_of rm)" "rid_page_id rid \<in> set (page_ids rm')"
      "page_ids rm' = page_ids rm \<or> page_ids rm' = page_ids rm @ [rid_page_id rid]" by auto
  let ?h = "heap_of rm" and ?p = "rid_page_id rid"
  have room: "room_for (length td) (recs_at ?h ?p)" if "?p \<in> set (page_ids rm)"
  proof -
    have "recs_at (heap_of rm') ?p = recs_at ?h ?p @ [Some td]" by (simp add: r(4) heap_append_def)
    with page_space_bound [OF r(2,5)] show ?thesis by (simp add: room_for_def record_bytes_def)
  qed
  have d: "distinct (page_ids rm')" using r(2) by (simp add: rm_inv_def)
  show ?thesis
  proof (rule rm_Insert_cases [OF inv st])
    fix rid' bp assume "rm_Insert (Some td) (length td) rm = Some (rid', rm\<lparr>buffer_pool_manager := bp\<rparr>)"
    with r(1) have "page_ids rm' = page_ids rm" by auto
    with r room show ?thesis by auto
  next
    fix bp assume i: "rm_Insert (Some td) (length td) rm =
        insert_new_page td (word_of_nat (length td)) (rm\<lparr>buffer_pool_manager := bp\<rparr>)"
      and sr: "same_recs True (set (page_ids rm)) (buffer_pool_manager rm) bp"
      and full: "\<forall>q \<in> set (page_ids rm). \<not> room_for (length td) (recs_at ?h q)"
    with room have "?p \<notin> set (page_ids rm)" by blast
    with full r d show ?thesis by auto
  qed
qed

subsection \<open>A table that is only filled\<close>

text \<open>No holes, records of length \<open>n\<close>, and every page but the last is full.\<close>

definition packed :: "nat \<Rightarrow> heap \<Rightarrow> bool" where
  "packed n h \<longleftrightarrow> (\<forall>(p, rs) \<in> set h. \<forall>r \<in> set rs. \<exists>d. r = Some d \<and> length d = n) \<and>
     (\<forall>(p, rs) \<in> set (butlast h). \<not> room_for n rs)"

lemma packed_Nil [simp]: "packed n []"
  by (simp add: packed_def)

definition slot_rids :: "int \<Rightarrow> byte list option list \<Rightarrow> RecordId list" where
  "slot_rids p rs = map (\<lambda>i. \<lparr>rid_page_id = p, rid_slot_id = word_of_nat i\<rparr>) (live_from rs 0)"

lemma live_rids_slots:
  assumes "distinct (map fst h)"
  shows "live_rids h = concat (map (\<lambda>(p, rs). slot_rids p rs) h)"
proof -
  have "page_rids h p 0 = slot_rids p rs" if "(p, rs) \<in> set h" for p rs
    using assms that by (simp add: page_rids_def slot_rids_def recs_at_def)
  then show ?thesis unfolding live_rids_def by (simp add: comp_def) (intro arg_cong [where f = concat] map_cong; auto)
qed

lemma slot_rids_snoc: "slot_rids p (rs @ [Some r]) = slot_rids p rs @ [\<lparr>rid_page_id = p, rid_slot_id = word_of_nat (length rs)\<rparr>]"
proof -
  have "live_from (rs @ [Some r]) 0 = live_from rs 0 @ [length rs]"
    by (simp add: live_from_def nth_append) (intro filter_cong; simp)
  then show ?thesis by (simp add: slot_rids_def)
qed

text \<open>An insertion at the end of the heap: on its last page, or on a new one.\<close>

lemma heap_append_end:
  assumes "distinct (map fst h)" and "p \<notin> set (map fst h) \<or> h \<noteq> [] \<and> fst (last h) = p"
  obtains h0 rs where "heap_append p r h = h0 @ [(p, rs @ [Some r])]" and "rs = recs_at h p" and "p \<notin> set (map fst h0)"
    and "h = h0 \<and> rs = [] \<or> h = h0 @ [(p, rs)]"
proof (cases "p \<in> set (map fst h)")
  case False
  then have "recs_at h p = []" by (simp add: recs_at_def map_of_eq_None_iff [THEN iffD2])
  moreover have "AList.update p rs h = h @ [(p, rs)]" for rs using False by (induction h) auto
  ultimately show ?thesis using False by (intro that [of h "[]"]) (simp_all add: heap_append_def)
next
  case True
  with assms(2) obtain h0 rs where h: "h = h0 @ [(p, rs)]" by (cases h rule: rev_cases) auto
  with assms(1) have p: "p \<notin> set (map fst h0)" by auto
  then have u: "AList.update p x h = h0 @ [(p, x)]" for x unfolding h by (induction h0) auto
  have "(p, rs) \<in> set h" by (simp add: h)
  then have "recs_at h p = rs" using assms(1) by (simp add: recs_at_def)
  with u p h show ?thesis by (intro that [of h0 rs]) (simp_all add: heap_append_def)
qed

lemma live_rids_append:
  assumes "distinct (map fst h)" and "p \<notin> set (map fst h) \<or> h \<noteq> [] \<and> fst (last h) = p"
    and "unat (s :: u16) = length (recs_at h p)"
  shows "live_rids (heap_append p r h) = live_rids h @ [\<lparr>rid_page_id = p, rid_slot_id = s\<rparr>]"
proof -
  obtain h0 rs where e: "heap_append p r h = h0 @ [(p, rs @ [Some r])]" "rs = recs_at h p" "p \<notin> set (map fst h0)"
    "h = h0 \<and> rs = [] \<or> h = h0 @ [(p, rs)]" using heap_append_end [OF assms(1,2)] by blast
  have d: "distinct (map fst h0)" using e(4) assms(1) by auto
  then have "distinct (map fst (h0 @ [(p, x)]))" for x :: "byte list option list" using e(3) by simp
  note l = live_rids_slots [OF this] live_rids_slots [OF d]
  have "word_of_nat (length rs) = s" unfolding e(2) assms(3) [symmetric] by simp
  moreover have "slot_rids p [] = []" by (simp add: slot_rids_def live_from_def)
  ultimately show ?thesis using e(1,4) by (auto simp: l slot_rids_snoc)
qed

lemma packed_append:
  assumes "packed n h" and "length r = n" and "distinct (map fst h)"
    and "p \<notin> set (map fst h) \<and> (\<forall>q \<in> set (map fst h). \<not> room_for n (recs_at h q)) \<or> h \<noteq> [] \<and> fst (last h) = p"
  shows "packed n (heap_append p r h)"
proof -
  obtain h0 rs where e: "heap_append p r h = h0 @ [(p, rs @ [Some r])]" "rs = recs_at h p" "p \<notin> set (map fst h0)"
    "h = h0 \<and> rs = [] \<or> h = h0 @ [(p, rs)]" using heap_append_end [OF assms(3)] assms(4) by blast
  have full: "\<not> room_for n xs" if x: "(q, xs) \<in> set h0" for q xs
  proof (cases "h = h0 @ [(p, rs)]")
    case True
    with assms(1) x show ?thesis by (auto simp: packed_def)
  next
    case False
    with e(4) have h: "h = h0" by blast
    then have "p \<noteq> fst (last h)" if "h \<noteq> []" using e(3) that by (metis last_in_set list.set_map imageI)
    with assms(4) h have "\<forall>q \<in> set (map fst h). \<not> room_for n (recs_at h q)" by blast
    moreover have "q \<in> set (map fst h)" "recs_at h q = xs" using x h assms(3) by (force simp: recs_at_def)+
    ultimately show ?thesis by blast
  qed
  have "\<forall>(q, xs) \<in> set h0. \<forall>x \<in> set xs. \<exists>d. x = Some d \<and> length d = n"
    "\<forall>x \<in> set rs. \<exists>d. x = Some d \<and> length d = n"
  proof -
    from assms(1) have a: "\<forall>(q, xs) \<in> set h. \<forall>x \<in> set xs. \<exists>d. x = Some d \<and> length d = n" by (simp add: packed_def)
    with e(4) show "\<forall>(q, xs) \<in> set h0. \<forall>x \<in> set xs. \<exists>d. x = Some d \<and> length d = n" by (elim disjE) simp_all
    from a e(4) show "\<forall>x \<in> set rs. \<exists>d. x = Some d \<and> length d = n" by (elim disjE) simp_all
  qed
  with full assms(2) show ?thesis unfolding e(1) packed_def by auto
qed

text \<open>So every insertion goes to the end.\<close>

lemma rm_Insert_packed:
  assumes inv: "rm_inv True rm" and pk: "packed (length td) (heap_of rm)" and td: "0 < length td" "length td \<le> 4084"
    and next_ok: "page_addr (rm_GetNextPageId rm)"
  shows "\<exists>rid rm'. rm_Insert (Some td) (length td) rm = Some (rid, rm') \<and> rm_inv True rm' \<and>
    packed (length td) (heap_of rm') \<and> live_rids (heap_of rm') = live_rids (heap_of rm) @ [rid] \<and>
    heap_get (heap_of rm') = (heap_get (heap_of rm))(rid \<mapsto> td) \<and> heap_get (heap_of rm) rid = None"
proof -
  let ?h = "heap_of rm"
  have d: "distinct (map fst ?h)" using inv by (simp add: rm_inv_def)
  from rm_Insert_place [OF inv td next_ok] obtain rid rm' where
    r: "rm_Insert (Some td) (length td) rm = Some (rid, rm')" "rm_inv True rm'"
      "heap_of rm' = heap_append (rid_page_id rid) td ?h" "unat (rid_slot_id rid) = length (recs_at ?h (rid_page_id rid))"
    and w: "if \<exists>q \<in> set (page_ids rm). room_for (length td) (recs_at ?h q)
      then rid_page_id rid \<in> set (page_ids rm) \<and> room_for (length td) (recs_at ?h (rid_page_id rid)) \<and> page_ids rm' = page_ids rm
      else rid_page_id rid \<notin> set (page_ids rm) \<and> page_ids rm' = page_ids rm @ [rid_page_id rid]" by blast
  have last: "rid_page_id rid \<notin> set (map fst ?h) \<and> (\<forall>q \<in> set (map fst ?h). \<not> room_for (length td) (recs_at ?h q)) \<or>
    ?h \<noteq> [] \<and> fst (last ?h) = rid_page_id rid"
  proof (cases "\<exists>q \<in> set (page_ids rm). room_for (length td) (recs_at ?h q)")
    case True
    with w have p: "rid_page_id rid \<in> set (map fst ?h)" "room_for (length td) (recs_at ?h (rid_page_id rid))"
      unfolding map_fst_heap_of by metis+
    from p(1) obtain rs where m: "(rid_page_id rid, rs) \<in> set ?h" unfolding set_map by (metis imageE prod.collapse)
    then have "recs_at ?h (rid_page_id rid) = rs" using d by (simp add: recs_at_def)
    with p(2) m pk have "(rid_page_id rid, rs) \<notin> set (butlast ?h)" by (auto simp: packed_def)
    with m have "last ?h = (rid_page_id rid, rs)" "?h \<noteq> []" by (cases ?h rule: rev_cases; auto)+
    then show ?thesis by simp
  next
    case False
    with w show ?thesis by auto
  qed
  then have l: "rid_page_id rid \<notin> set (map fst ?h) \<or> ?h \<noteq> [] \<and> fst (last ?h) = rid_page_id rid" by blast
  have "\<lparr>rid_page_id = rid_page_id rid, rid_slot_id = rid_slot_id rid\<rparr> = rid" by simp
  with live_rids_append [OF d l r(4)] packed_append [OF pk refl d last] heap_get_append [OF refl r(4)] r show ?thesis by auto
qed

end
