(* ===== verification/Record_Properties.thy ===== *)
theory Record_Properties
  imports Insert_Order Page_Properties
begin

section \<open>Properties of the record manager\<close>

text \<open>
  The record manager as a finite map, its operations one by one, and reopening after a flush.
\<close>

abbreviation some_disk :: DiskManager where
  "some_disk \<equiv> \<lparr>filename = ''users.db'', contents = None\<rparr>"

text \<open>A manager that holds one record, on which the properties are instantiated.\<close>

lemma one_record:
  "\<exists>rm rid. rm_Insert (Some [7, 8, 9]) 3 (new_RecordManager some_disk) = Some (rid, rm) \<and> rm_inv True rm \<and>
    heap_get (heap_of rm) = [rid \<mapsto> [7, 8, 9]] \<and> page_ids rm = [0] \<and> rid_page_id rid = 0 \<and>
    rm_GetNextPageId rm = 1 \<and> heap_of rm = [(0, [Some [7, 8, 9]])]"
proof -
  let ?rm0 = "new_RecordManager some_disk"
  have n0: "rm_GetNextPageId ?rm0 = 0" "page_ids ?rm0 = []"
    by (simp_all add: rm_GetNextPageId_def new_RecordManager_def new_BufferPool_def)
  from rm_Insert_spec [OF rm_inv_new, of "[7, 8, 9]" some_disk] n0 obtain rid rm where
    i: "rm_Insert (Some [7, 8, 9]) 3 ?rm0 = Some (rid, rm)" "rm_inv True rm"
      "rid_page_id rid \<in> set (page_ids rm)" "unat (rid_slot_id rid) = length (recs_at (heap_of ?rm0) (rid_page_id rid))"
      "heap_of rm = heap_append (rid_page_id rid) [7, 8, 9] (heap_of ?rm0)"
      "page_ids rm = [] \<and> rm_GetNextPageId rm = 0 \<or>
       page_ids rm = [rid_page_id rid] \<and> rid_page_id rid = 0 \<and> rm_GetNextPageId rm = 1"
    by (auto simp: page_addr_def MAX_PAGES_def numeral_3_eq_3)
  have "heap_get (heap_of ?rm0) = Map.empty" by (simp add: heap_of_new heap_get_def recs_at_def lookup_rec_def fun_eq_iff)
  moreover have "heap_append 0 [7, 8, 9] [] = [(0, [Some [7, 8, 9]])]" by (simp add: heap_append_def recs_at_def)
  ultimately show ?thesis using heap_get_append(2) [OF refl i(4), of "[7, 8, 9]"] i heap_of_new [of some_disk] by auto
qed

text \<open>C3. A record manager behaves as a finite map from record ids to records: for any sequence of
  insertions (of 1 to 4084 bytes), reads, deletions and non-growing updates, every request is answered
  and every answer is the map's, insertions choosing ids that are not in use. In particular no
  operation, no page compaction and no buffer eviction changes or loses another record.\<close>
theorem rm_runs_as_map:
  assumes inv: "rm_inv True rm" and adm: "run_adm rm_step rm_adm qs rm"
  shows "\<exists>rs rm'. run rm_step qs rm = Some (rs, rm') \<and> rm_inv True rm' \<and>
    spec_run map_step (heap_get (heap_of rm)) qs rs (heap_get (heap_of rm'))"
  using rm.run_sim [OF inv adm] .

lemma rm_runs_as_map_witness:
  "\<exists>rm rid rm'. rm_inv True rm \<and> run rm_step [Req_Get rid] rm = Some ([Resp_Data (Some [7, 8, 9])], rm')"
proof -
  from one_record obtain rm rid where o: "rm_inv True rm" "heap_get (heap_of rm) = [rid \<mapsto> [7, 8, 9]]"
    "page_ids rm = [0]" "rid_page_id rid = 0" by blast
  have a: "rm_adm (Req_Get rid) rm" using o by (simp add: rm_adm_def)
  from rm.step_sim [OF o(1) a] obtain r rm1 where "rm_step (Req_Get rid) rm = Some (r, rm1)" by blast
  with a have adm: "run_adm rm_step rm_adm [Req_Get rid] rm" by simp
  from rm_runs_as_map [OF o(1) adm] o(2) have "\<exists>rm'. run rm_step [Req_Get rid] rm = Some ([Resp_Data (Some [7, 8, 9])], rm')"
    by (auto split: bind_splits)
  with o(1) show ?thesis by blast
qed

text \<open>C5. What a flush has written, a new manager over the same file reads back: reopened with the page
  list and the next page id that the catalog saves, it holds the same records under the same ids, and
  satisfies the invariant again.\<close>
theorem rm_flush_reopen:
  assumes inv: "rm_inv True rm"
  shows "\<exists>rm'. rm_Flush rm = Some rm' \<and> heap_of rm' = heap_of rm \<and>
    rm_inv True (rm_reopen (disk_manager (buffer_pool_manager rm')) (page_ids rm) (rm_GetNextPageId rm)) \<and>
    heap_of (rm_reopen (disk_manager (buffer_pool_manager rm')) (page_ids rm) (rm_GetNextPageId rm)) = heap_of rm"
proof -
  from rm_Flush_spec [OF inv] obtain rm' where f: "rm_Flush rm = Some rm'" "heap_of rm' = heap_of rm" by blast
  from rm_reopen_spec [OF inv f(1)] f show ?thesis by blast
qed

lemma rm_flush_reopen_witness:
  "\<exists>rm rid rm'. rm_Flush rm = Some rm' \<and>
    heap_get (heap_of (rm_reopen (disk_manager (buffer_pool_manager rm')) [0] 1)) rid = Some [7, 8, 9]"
proof -
  from one_record obtain rm rid where o: "rm_inv True rm" "heap_get (heap_of rm) = [rid \<mapsto> [7, 8, 9]]"
    "page_ids rm = [0]" "rm_GetNextPageId rm = 1" by blast
  from rm_flush_reopen [OF o(1)] o(2-4) show ?thesis by (metis fun_upd_same)
qed

text \<open>C9. Inserting appends: the record gets the next slot id of one page, which is an existing page or
  a newly allocated one with the next page id; every other record keeps its id and its bytes; and the
  record can be read back under the id that was returned.\<close>
theorem rm_Insert_then_Get:
  assumes inv: "rm_inv True rm" and td: "0 < length td" "length td \<le> 4084"
    and room: "page_addr (rm_GetNextPageId rm)"
  shows "\<exists>rid rm' rm''. rm_Insert (Some td) (length td) rm = Some (rid, rm') \<and>
    heap_get (heap_of rm) rid = None \<and> heap_of rm' = heap_append (rid_page_id rid) td (heap_of rm) \<and>
    heap_get (heap_of rm') = (heap_get (heap_of rm))(rid \<mapsto> td) \<and>
    (page_ids rm' = page_ids rm \<or> page_ids rm' = page_ids rm @ [rm_GetNextPageId rm]) \<and>
    rm_Get rid (Some PAGE_SIZE) rm' = Some (Some (td, word_of_nat (length td)), rm'')"
proof -
  from rm_Insert_spec [OF inv td room] obtain rid rm' where
    i: "rm_Insert (Some td) (length td) rm = Some (rid, rm')" "rm_inv True rm'"
      "rid_page_id rid \<in> set (page_ids rm')" "unat (rid_slot_id rid) = length (recs_at (heap_of rm) (rid_page_id rid))"
      "heap_of rm' = heap_append (rid_page_id rid) td (heap_of rm)"
    and ids: "page_ids rm' = page_ids rm \<or> page_ids rm' = page_ids rm @ [rm_GetNextPageId rm]"
    by auto
  note h = heap_get_append [OF refl i(4)]
  from rm_Get_spec [OF i(2,3) order_refl] h i(5) obtain rm''
    where "rm_Get rid (Some PAGE_SIZE) rm' = Some (Some (td, word_of_nat (length td)), rm'')" by auto
  with i h ids show ?thesis by auto
qed

lemma rm_Insert_then_Get_witness:
  "\<exists>rid rm' rm''. rm_Insert (Some [1, 2, 3]) 3 (new_RecordManager some_disk) = Some (rid, rm') \<and>
    rm_Get rid (Some PAGE_SIZE) rm' = Some (Some ([1, 2, 3], 3), rm'')"
  using rm_Insert_then_Get [OF rm_inv_new, of "[1, 2, 3]" some_disk]
  by (auto simp: rm_GetNextPageId_def new_RecordManager_def new_BufferPool_def page_addr_def MAX_PAGES_def
      numeral_3_eq_3)

text \<open>C16. A record of 4085 to 65531 bytes fits on no page: it is refused with the invalid id, the stored
  records stay as they were, and the invariant holds; one page id is used up by the attempt.\<close>
theorem rm_Insert_refuses_oversized:
  assumes inv: "rm_inv True rm" and td: "4084 < length td" "length td < 65532"
    and room: "page_addr (rm_GetNextPageId rm)"
  shows "\<exists>rm'. rm_Insert (Some td) (length td) rm = Some (invalid_rid, rm') \<and> rm_inv True rm' \<and>
    heap_of rm' = heap_of rm \<and> page_ids rm' = page_ids rm \<and> rm_GetNextPageId rm' = rm_GetNextPageId rm + 1"
  by (rule rm_Insert_too_big [OF inv td room])

lemma rm_Insert_refuses_oversized_witness:
  "\<exists>rm'. rm_Insert (Some (replicate 4085 1)) 4085 (new_RecordManager some_disk) = Some (invalid_rid, rm')"
  using rm_Insert_refuses_oversized [OF rm_inv_new, of "replicate 4085 1" some_disk]
  by (auto simp: rm_GetNextPageId_def new_RecordManager_def new_BufferPool_def page_addr_def MAX_PAGES_def)

text \<open>C13. A table grows only when it must: a record goes to one of the pages exactly when some page has space for it,
  counting the holes of deleted records, and then it goes to such a page; otherwise one page is added. No
  space is wasted, whatever was inserted and deleted before.\<close>
theorem rm_Insert_grows_only_when_full:
  assumes inv: "rm_inv True rm" and td: "0 < length td" "length td \<le> 4084" and next_ok: "page_addr (rm_GetNextPageId rm)"
  shows "\<exists>rid rm'. rm_Insert (Some td) (length td) rm = Some (rid, rm') \<and> rm_inv True rm' \<and>
    heap_of rm' = heap_append (rid_page_id rid) td (heap_of rm) \<and>
    (if \<exists>q \<in> set (page_ids rm). room_for (length td) (recs_at (heap_of rm) q)
     then rid_page_id rid \<in> set (page_ids rm) \<and> room_for (length td) (recs_at (heap_of rm) (rid_page_id rid)) \<and>
       page_ids rm' = page_ids rm
     else rid_page_id rid \<notin> set (page_ids rm) \<and> page_ids rm' = page_ids rm @ [rid_page_id rid])"
  using rm_Insert_place [OF inv td next_ok] by blast

lemma rm_Insert_grows_only_when_full_witness:
  "\<exists>rm rid rm'. page_ids rm = [0] \<and> rm_Insert (Some [5]) 1 rm = Some (rid, rm') \<and> page_ids rm' = [0]"
proof -
  from one_record obtain rm where o: "rm_inv True rm" "page_ids rm = [0]" "rm_GetNextPageId rm = 1"
    "heap_of rm = [(0, [Some [7, 8, 9]])]" by blast
  have "recs_at (heap_of rm) 0 = [Some [7, 8, 9]]" unfolding o(4) by (simp add: recs_at_def)
  then have r: "room_for (length [5 :: byte]) (recs_at (heap_of rm) 0)" by (simp add: room_for_def record_bytes_def PAGE_SIZE_def del: recs_at_heap_of)
  have "page_addr (rm_GetNextPageId rm)" by (simp add: o(3) page_addr_def MAX_PAGES_def)
  from rm_Insert_grows_only_when_full [OF o(1) _ _ this, of "[5]"] r o(2) show ?thesis
    by (auto simp del: recs_at_heap_of)
qed

text \<open>First fit: if pages of the table have room for the record, the first of them in page order
  takes it, no page is allocated and none is compacted.\<close>
lemma rm_Insert_uses_first_page_with_room:
  assumes inv: "rm_inv b rm" and td: "storable_tuple td"
    and p: "find (has_room (length td) (buffer_pool_manager rm)) (page_ids rm) = Some p"
  shows "\<exists>rid rm'. rm_Insert (Some td) (length td) rm = Some (rid, rm') \<and> rid_page_id rid = p \<and>
    rm_inv b rm' \<and> page_ids rm' = page_ids rm \<and> heap_of rm' = heap_append p td (heap_of rm)"
  by (rule rm_Insert_first_fit [OF inv td p])

lemma rm_Insert_uses_first_page_with_room_witness:
  "\<exists>rm rid rm'. page_ids rm = [0] \<and> rm_Insert (Some [5]) 1 rm = Some (rid, rm') \<and> rid_page_id rid = 0"
proof -
  let ?dm = "\<lparr>filename = ''users.db'', contents = Some fresh_page\<rparr>"
  let ?rm = "rm_reopen ?dm [0] 1"
  have d: "disk_page ?dm 0 = Some fresh_page" using fresh_page(6) slice_full [of fresh_page] by (simp add: disk_page_def)
  have b: "buffer_pool_manager ?rm = SetNextPageId 1 (new_BufferPool kDefaultPoolSize ?dm)" "page_ids ?rm = [0]"
    by (simp_all add: rm_reopen_def rm_SetNextPageId_def SetPageIds_def new_RecordManager_def)
  have K: "\<forall>q \<in> {0}. page_addr q \<and> q < 1 \<and> disk_page ?dm q \<noteq> None"
    using d by (simp add: page_addr_def MAX_PAGES_def)
  note r = quiet_restart [OF _ K, of kDefaultPoolSize]
  have v: "page_view (buffer_pool_manager ?rm) 0 = Some fresh_page"
    using r(2) [of 0] d by (simp add: b kDefaultPoolSize_def)
  have inv: "rm_inv True ?rm"
    using r(1) v fresh_page(1,2) b by (simp add: rm_inv_def pages_ok_def page_ok_def kDefaultPoolSize_def)
  have "find (has_room (length [5 :: byte]) (buffer_pool_manager ?rm)) (page_ids ?rm) = Some 0"
    using v b(2) fresh_page(3) by (simp add: has_room_def)
  from rm_Insert_uses_first_page_with_room [OF inv _ this] b(2) show ?thesis
    by (auto simp: storable_tuple_def)
qed

text \<open>C11. An update of a stored record to a value that is not longer always succeeds, in place; a longer
  value is stored just when it fits the free gap of the record's page; an update of an id that holds no record
  is refused. In every case no other record changes, and a refused update changes nothing.\<close>
theorem rm_Update_isolated:
  assumes inv: "rm_inv b rm" and p: "rid_page_id rid \<in> set (page_ids rm)"
    and td: "0 < length td" "length td \<le> 65535"
  shows "\<exists>ok rm'. rm_Update rid (Some td) (length td) rm = Some (ok, rm') \<and> rm_inv False rm' \<and>
    heap_get (heap_of rm') = (if ok then (heap_get (heap_of rm))(rid \<mapsto> td) else heap_get (heap_of rm)) \<and>
    (ok \<longleftrightarrow> (\<exists>old. heap_get (heap_of rm) rid = Some old \<and>
       (length td \<le> length old \<or> length td \<le> free_at (buffer_pool_manager rm) (rid_page_id rid)))) \<and>
    (\<forall>old. heap_get (heap_of rm) rid = Some old \<and> length td \<le> length old \<longrightarrow> rm_inv b rm')"
proof -
  from rm_Update_spec [OF inv p td] obtain ok rm' where u: "rm_Update rid (Some td) (length td) rm = Some (ok, rm')"
    "rm_inv False rm'" "heap_of rm' = (if ok then heap_put rid (Some td) (heap_of rm) else heap_of rm)"
    "ok \<longleftrightarrow> (\<exists>old. heap_get (heap_of rm) rid = Some old \<and>
       (length td \<le> length old \<or> length td \<le> free_at (buffer_pool_manager rm) (rid_page_id rid)))"
    "\<forall>old. heap_get (heap_of rm) rid = Some old \<and> length td \<le> length old \<longrightarrow> ok \<and> rm_inv b rm'" by blast
  with heap_get_put [of "heap_of rm" rid "Some td"] show ?thesis by auto
qed

lemma rm_Update_isolated_witness:
  "\<exists>rm rid rm'. rm_Update rid (Some [1, 2]) 2 rm = Some (True, rm') \<and> heap_get (heap_of rm') rid = Some [1, 2]"
proof -
  from one_record obtain rm rid where o: "rm_inv True rm" "heap_get (heap_of rm) = [rid \<mapsto> [7, 8, 9]]"
    "page_ids rm = [0]" "rid_page_id rid = 0" by blast
  from rm_Update_isolated [OF o(1), of rid "[1, 2]"] o(2-4)
  have "\<exists>rm'. rm_Update rid (Some [1, 2]) 2 rm = Some (True, rm') \<and> heap_get (heap_of rm') rid = Some [1, 2]"
    by (auto simp: numeral_2_eq_2)
  then show ?thesis by blast
qed

end
