(* ===== verification/Catalog_File.thy ===== *)
theory Catalog_File
  imports Schema_Tuple
begin

section \<open>Reading and writing the catalog file (src/catalog/catalog.cpp, helpers)\<close>

text \<open>
  Output is the list of bytes written. Input is a stream with the bytes left and its state: a read
  that finds too few bytes stores those there are over the variable's initial bytes and fails the
  stream, and a failed stream leaves variables as they are, as \<^verbatim>\<open>istream::read\<close> does. A
  \<open>codec\<close> is a writer and a reader that undoes it; lists with a count are a codec when their
  elements are.
\<close>

record instream =
  in_rest :: "byte list"
  in_ok :: bool

definition read_bytes :: "byte list \<Rightarrow> instream \<Rightarrow> byte list \<times> instream" where
  "read_bytes init i = (if \<not> in_ok i then (init, i)
     else if length init \<le> length (in_rest i)
     then (take (length init) (in_rest i), i\<lparr>in_rest := drop (length init) (in_rest i)\<rparr>)
     else (in_rest i @ drop (length (in_rest i)) init, \<lparr>in_rest = [], in_ok = False\<rparr>))"

text \<open>Reading over a variable that holds \<open>w\<close>; most are initialised to zero.\<close>

definition read_u32_over :: "u32 \<Rightarrow> instream \<Rightarrow> u32 \<times> instream" where
  "read_u32_over w i = (let (bs, i') = read_bytes (le32 w) i in (de32 bs, i'))"

definition read_u32 :: "instream \<Rightarrow> u32 \<times> instream" where
  "read_u32 i = read_u32_over 0 i"

definition read_int32 :: "instream \<Rightarrow> int \<times> instream" where
  "read_int32 i = (let (w, i') = read_u32 i in (sint w, i'))"

definition write_int32 :: "int \<Rightarrow> byte list" where
  "write_int32 n = le32 (word_of_int n)"

definition char_byte :: "char \<Rightarrow> byte" where
  "char_byte c = word_of_nat (char_code c)"

definition byte_char :: "byte \<Rightarrow> char" where
  "byte_char b = char_of (unat b)"

definition write_string :: "string \<Rightarrow> byte list" where
  "write_string s = (let len = word_of_nat (length s) :: u32
     in le32 len @ map char_byte (take (unat len) s))"

definition read_string :: "instream \<Rightarrow> string \<times> instream" where
  "read_string i = (let (len, i1) = read_u32 i; (bs, i2) = read_bytes (replicate (unat len) 0) i1
     in (map byte_char bs, i2))"

text \<open>A \<^verbatim>\<open>for\<close> loop that reads a number of elements.\<close>

fun read_many :: "(instream \<Rightarrow> 'a \<times> instream) \<Rightarrow> nat \<Rightarrow> instream \<Rightarrow> 'a list \<times> instream" where
  "read_many rd 0 i = ([], i)"
| "read_many rd (Suc n) i = (let (x, i1) = rd i; (xs, i2) = read_many rd n i1 in (x # xs, i2))"

definition read_counted :: "(instream \<Rightarrow> 'a \<times> instream) \<Rightarrow> instream \<Rightarrow> 'a list \<times> instream" where
  "read_counted rd i = (let (n, i1) = read_u32 i in read_many rd (unat n) i1)"

definition write_counted :: "('a \<Rightarrow> byte list) \<Rightarrow> 'a list \<Rightarrow> byte list" where
  "write_counted wr xs = le32 (word_of_nat (length xs)) @ concat (map wr xs)"

definition write_column :: "Column \<Rightarrow> byte list" where
  "write_column c = write_string (column_name c) @ le32 (TypeId_raw (column_type c))"

definition read_column :: "instream \<Rightarrow> Column \<times> instream" where
  "read_column i = (let (name, i1) = read_string i; (t, i2) = read_u32 i1 in (new_Column name (TypeId_of t), i2))"

text \<open>What the file holds of one table: oid, name, columns, page ids, next page id.\<close>

record TableEntry =
  te_oid :: u32
  te_name :: string
  te_columns :: "Column list"
  te_pages :: "int list"
  te_next :: int

definition write_entry :: "TableEntry \<Rightarrow> byte list" where
  "write_entry e = le32 (te_oid e) @ write_string (te_name e) @ write_counted write_column (te_columns e) @
     write_counted write_int32 (te_pages e) @ write_int32 (te_next e)"

definition read_entry :: "instream \<Rightarrow> TableEntry \<times> instream" where
  "read_entry i = (let (oid, i1) = read_u32 i; (name, i2) = read_string i1;
     (cols, i3) = read_counted read_column i2; (pids, i4) = read_counted read_int32 i3;
     (nx, i5) = read_int32 i4
   in (\<lparr>te_oid = oid, te_name = name, te_columns = cols, te_pages = pids, te_next = nx\<rparr>, i5))"

subsection \<open>Codecs\<close>

locale codec =
  fixes wr :: "'a \<Rightarrow> byte list" and rd :: "instream \<Rightarrow> 'a \<times> instream" and ok :: "'a \<Rightarrow> bool"
  assumes rd_wr: "ok x \<Longrightarrow> rd \<lparr>in_rest = wr x @ r, in_ok = True\<rparr> = (x, \<lparr>in_rest = r, in_ok = True\<rparr>)"
begin

lemma rd_wr_end: "ok x \<Longrightarrow> rd \<lparr>in_rest = wr x, in_ok = True\<rparr> = (x, \<lparr>in_rest = [], in_ok = True\<rparr>)"
  using rd_wr [of x "[]"] by simp

lemma wr_inj:
  assumes "ok x" and "ok y" and "wr x @ r = wr y @ s"
  shows "x = y \<and> r = s"
proof -
  have "(x, \<lparr>in_rest = r, in_ok = True\<rparr>) = (y, \<lparr>in_rest = s, in_ok = True\<rparr>)"
    using rd_wr [OF assms(1), of r] rd_wr [OF assms(2), of s] unfolding assms(3) by (rule trans [OF sym])
  then show ?thesis by simp
qed

lemma read_many_wr:
  "\<forall>x \<in> set xs. ok x \<Longrightarrow>
    read_many rd (length xs) \<lparr>in_rest = concat (map wr xs) @ r, in_ok = True\<rparr> = (xs, \<lparr>in_rest = r, in_ok = True\<rparr>)"
  by (induction xs) (simp_all add: rd_wr)

end

lemma read_u32_over_le32 [simp]:
  "read_u32_over v \<lparr>in_rest = le32 w @ r, in_ok = True\<rparr> = (w, \<lparr>in_rest = r, in_ok = True\<rparr>)"
  by (simp add: read_u32_over_def read_bytes_def)

lemma read_u32_le32: "read_u32 \<lparr>in_rest = le32 w @ r, in_ok = True\<rparr> = (w, \<lparr>in_rest = r, in_ok = True\<rparr>)"
  by (simp add: read_u32_def)

interpretation u32: codec le32 read_u32 "\<lambda>_. True"
  by unfold_locales (rule read_u32_le32)

context codec
begin

lemma counted_rd_wr:
  assumes "\<forall>x \<in> set xs. ok x" and "length xs < 2 ^ 32"
  shows "read_counted rd \<lparr>in_rest = write_counted wr xs @ r, in_ok = True\<rparr> = (xs, \<lparr>in_rest = r, in_ok = True\<rparr>)"
proof -
  have "unat (word_of_nat (length xs) :: u32) = length xs" using assms(2) by (simp add: unat_of_nat)
  then show ?thesis
    using read_many_wr [OF assms(1), of r] by (simp add: read_counted_def write_counted_def u32.rd_wr)
qed

end

lemma int32_range_sint: "- (2 ^ 31) \<le> n \<Longrightarrow> n < 2 ^ 31 \<Longrightarrow> sint (word_of_int n :: 32 word) = n"
  by (simp add: int_word_sint)

interpretation int32: codec write_int32 read_int32 "\<lambda>n. - (2 ^ 31) \<le> n \<and> n < 2 ^ 31"
  by unfold_locales (simp add: read_int32_def write_int32_def u32.rd_wr int32_range_sint)

lemma char_code_less: "char_code c < 256"
  by (simp add: char_code_def)

lemma byte_char_byte [simp]: "byte_char (char_byte c) = c"
proof -
  have "unat (word_of_nat (char_code c) :: byte) = char_code c"
    using char_code_less [of c] by (simp add: unat_of_nat)
  then show ?thesis by (simp add: byte_char_def char_byte_def char_code_def)
qed

interpretation str: codec write_string read_string "\<lambda>s. length s < 2 ^ 32"
proof (unfold_locales, goal_cases)
  case (1 s r)
  then have "unat (word_of_nat (length s) :: u32) = length s" by (simp add: unat_of_nat)
  then show ?case
    by (simp add: read_string_def write_string_def u32.rd_wr read_bytes_def comp_def)
qed

definition storable_column :: "Column \<Rightarrow> bool" where
  "storable_column c \<longleftrightarrow> good_column c \<and> length (column_name c) < 2 ^ 32"

interpretation col: codec write_column read_column storable_column
proof (unfold_locales, goal_cases)
  case (1 c r)
  then have "new_Column (column_name c) (column_type c) = c" "TypeId_of (TypeId_raw (column_type c)) = column_type c"
    by (auto simp: storable_column_def good_column_def new_Column_def TypeId_of_def TypeId_raw_def)
  with 1 show ?case by (simp add: read_column_def write_column_def str.rd_wr u32.rd_wr storable_column_def)
qed

definition storable_entry :: "TableEntry \<Rightarrow> bool" where
  "storable_entry e \<longleftrightarrow> length (te_name e) < 2 ^ 32 \<and> (\<forall>c \<in> set (te_columns e). storable_column c) \<and>
     length (te_columns e) < 2 ^ 32 \<and> (\<forall>p \<in> set (te_pages e). - (2 ^ 31) \<le> p \<and> p < 2 ^ 31) \<and>
     length (te_pages e) < 2 ^ 32 \<and> - (2 ^ 31) \<le> te_next e \<and> te_next e < 2 ^ 31"

interpretation entry: codec write_entry read_entry storable_entry
proof (unfold_locales, goal_cases)
  case (1 e r)
  then show ?case
    by (cases e) (simp add: read_entry_def write_entry_def storable_entry_def u32.rd_wr str.rd_wr int32.rd_wr
        col.counted_rd_wr int32.counted_rd_wr)
qed

end
