(* ===== verification/Catalog.thy ===== *)
theory Catalog
  imports Table_Scan Catalog_File "HOL-Library.Multiset"
begin

section \<open>The catalog (src/catalog/catalog.cpp)\<close>

text \<open>
  The tables by object id, the ids by name, and the next id; a hash map is the association list of its
  entries, and a loop over it visits them in an order that the C++ library leaves open. \<open>Environment\<close> is what
  the program does not decide: that order, for keys inserted one after the other, and which files can be
  opened for writing. \<open>files\<close> is the file system outside the open tables (each of which holds the
  contents of its own file); \<open>db_files\<close> is the file system as a whole. \<open>TableInfo*\<close> is the
  object id of the table.
\<close>

record TableInfo =
  ti_schema :: Schema
  ti_name :: string
  ti_table :: TableManager
  ti_oid :: u32

record Environment =
  hash_order :: "u32 list \<Rightarrow> u32 list"
  opens_to_write :: "string \<Rightarrow> bool"

record Catalog =
  env :: Environment
  tables :: "(u32 \<times> TableInfo) list"
  table_names :: "(string \<times> u32) list"
  next_table_oid :: u32
  files :: "string \<Rightarrow> byte list option"

definition new_Catalog :: "Environment \<Rightarrow> (string \<Rightarrow> byte list option) \<Rightarrow> Catalog" where
  "new_Catalog e fs = \<lparr>env = e, tables = [], table_names = [], next_table_oid = 0, files = fs\<rparr>"

definition table_file :: "u32 \<Rightarrow> string" where
  "table_file oid = ''data/'' @ ''table_'' @ to_string (int (unat oid)) @ ''.db''"

definition catalog_path :: string where
  "catalog_path = ''data/catalog.db''"

definition table_disk :: "TableInfo \<Rightarrow> DiskManager" where
  "table_disk ti = disk_manager (buffer_pool_manager (ti_table ti))"

definition db_files :: "Catalog \<Rightarrow> string \<Rightarrow> byte list option" where
  "db_files c fn = (case find (\<lambda>(oid, ti). filename (table_disk ti) = fn) (tables c) of
     Some (oid, ti) \<Rightarrow> contents (table_disk ti)
   | None \<Rightarrow> files c fn)"

text \<open>\<^verbatim>\<open>TableManager(filename)\<close>.\<close>

definition new_TableManager :: "string \<Rightarrow> Catalog \<Rightarrow> TableManager" where
  "new_TableManager fn c = new_RecordManager \<lparr>filename = fn, contents = db_files c fn\<rparr>"

definition table_entry :: "u32 \<times> TableInfo \<Rightarrow> TableEntry" where
  "table_entry t = (case t of (oid, ti) \<Rightarrow> \<lparr>te_oid = oid, te_name = ti_name ti, te_columns = columns (ti_schema ti),
     te_pages = tm_GetPageIds (ti_table ti), te_next = tm_GetNextPageId (ti_table ti)\<rparr>)"

text \<open>What a loop over \<open>tables_\<close> visits.\<close>

definition tables_in_order :: "Catalog \<Rightarrow> (u32 \<times> TableInfo) list" where
  "tables_in_order c = List.map_filter (\<lambda>oid. map_option (Pair oid) (map_of (tables c) oid))
     (hash_order (env c) (map fst (tables c)))"

definition catalog_bytes :: "Catalog \<Rightarrow> byte list" where
  "catalog_bytes c = le32 (next_table_oid c) @ write_counted write_entry (map table_entry (tables_in_order c))"

text \<open>When the file cannot be opened, \<open>SaveCatalog\<close> returns without a word.\<close>

definition SaveCatalog :: "string \<Rightarrow> Catalog \<Rightarrow> Catalog" where
  "SaveCatalog path c = (if \<not> opens_to_write (env c) path then c
     else c\<lparr>files := (files c)(path \<mapsto> catalog_bytes c)\<rparr>)"

definition CreateTable :: "string \<Rightarrow> Schema \<Rightarrow> Catalog \<Rightarrow> u32 result \<times> Catalog" where
  "CreateTable name sch c = (if map_of (table_names c) name \<noteq> None
     then (throw (Runtime_error (''Error: Table '' @ quoted name @ '' already exists in catalog.'')), c)
     else let oid = next_table_oid c;
         info = \<lparr>ti_schema = sch, ti_name = name, ti_table = new_TableManager (table_file oid) c, ti_oid = oid\<rparr>
       in (Inr oid, SaveCatalog catalog_path (c\<lparr>next_table_oid := oid + 1, tables := AList.update oid info (tables c),
             table_names := AList.update name oid (table_names c)\<rparr>)))"

definition GetTable_oid :: "u32 \<Rightarrow> Catalog \<Rightarrow> TableInfo result" where
  "GetTable_oid oid c = (case map_of (tables c) oid of
     None \<Rightarrow> throw (Runtime_error (''Error: Table with OID '' @ to_string (int (unat oid)) @ '' not found in catalog.''))
   | Some ti \<Rightarrow> Inr ti)"

definition GetTable :: "string \<Rightarrow> Catalog \<Rightarrow> TableInfo result" where
  "GetTable name c = (case map_of (table_names c) name of
     None \<Rightarrow> throw (Runtime_error (''Error: Table '' @ quoted name @ '' not found in catalog.''))
   | Some oid \<Rightarrow> GetTable_oid oid c)"

definition GetAllTables :: "Catalog \<Rightarrow> TableInfo list" where
  "GetAllTables c = map snd (tables_in_order c)"

text \<open>Writing back a table after an operation on it through its pointer.\<close>

definition set_table :: "u32 \<Rightarrow> TableManager \<Rightarrow> Catalog \<Rightarrow> Catalog" where
  "set_table oid tm c = c\<lparr>tables := map (\<lambda>(k, ti). (k, if k = oid then ti\<lparr>ti_table := tm\<rparr> else ti)) (tables c)\<rparr>"

text \<open>\<open>LoadCatalog\<close>: one round of its loop registers one table.\<close>

definition load_table :: "TableEntry \<Rightarrow> Catalog \<Rightarrow> Catalog" where
  "load_table e c = (let tm = tm_SetNextPageId (te_next e) (tm_SetPageIds (te_pages e) (new_TableManager (table_file (te_oid e)) c));
       info = \<lparr>ti_schema = new_Schema (te_columns e), ti_name = te_name e, ti_table = tm, ti_oid = te_oid e\<rparr>
     in c\<lparr>tables := AList.update (te_oid e) info (tables c), table_names := AList.update (te_name e) (te_oid e) (table_names c)\<rparr>)"

fun load_tables :: "nat \<Rightarrow> instream \<Rightarrow> Catalog \<Rightarrow> Catalog" where
  "load_tables 0 i c = c"
| "load_tables (Suc n) i c = (let (e, i') = read_entry i in load_tables n i' (load_table e c))"

definition LoadCatalog :: "string \<Rightarrow> Catalog \<Rightarrow> Catalog" where
  "LoadCatalog path c = (case db_files c path of
     None \<Rightarrow> c
   | Some bs \<Rightarrow>
       let (oid, i1) = read_u32_over (next_table_oid c) \<lparr>in_rest = bs, in_ok = True\<rparr>;
         (n, i2) = read_u32 i1
       in load_tables (unat n) i2 (c\<lparr>next_table_oid := oid\<rparr>))"

subsection \<open>The invariant\<close>

text \<open>What C++ promises of a loop over a hash map: it visits each entry once.\<close>

definition visits_all :: "Environment \<Rightarrow> bool" where
  "visits_all e \<longleftrightarrow> (\<forall>ks. mset (hash_order e ks) = mset ks)"

text \<open>The two maps agree, every table has its own file and good columns, and its records are sound.\<close>

definition info_ok :: "u32 \<times> TableInfo \<Rightarrow> bool" where
  "info_ok t \<longleftrightarrow> (case t of (oid, ti) \<Rightarrow> ti_oid ti = oid \<and> filename (table_disk ti) = table_file oid \<and>
     good_columns (columns (ti_schema ti)) \<and> ti_schema ti = new_Schema (columns (ti_schema ti)) \<and>
     rm_inv True (ti_table ti))"

definition cat_inv :: "Catalog \<Rightarrow> bool" where
  "cat_inv c \<longleftrightarrow> visits_all (env c) \<and> distinct (map fst (tables c)) \<and> distinct (map fst (table_names c)) \<and>
     table_names c = map (\<lambda>(oid, ti). (ti_name ti, oid)) (tables c) \<and> list_all info_ok (tables c) \<and>
     (\<forall>(oid, ti) \<in> set (tables c). oid < next_table_oid c)"

end
