(* ===== verification/Catalog_State.thy ===== *)
theory Catalog_State
  imports Catalog
begin

section \<open>What the catalog operations do to the database state\<close>

text \<open>
  \<open>cat_abs\<close> is the database a client sees: for every table name its columns and its heap.
  \<open>CreateTable\<close> adds one table, an operation on one table changes that table only, and loading
  a saved catalog over the files it was saved with restores the same tables.
\<close>

subsection \<open>File names\<close>

lemma show_nat_inj [simp]: "show_nat m = show_nat n \<longleftrightarrow> m = n"
  by (metis digits_value_show_nat)

lemma to_string_uint: "to_string (uint (w :: u32)) = show_nat (unat w)"
  by (simp add: to_string_def)

lemma table_file_inj [simp]: "table_file a = table_file b \<longleftrightarrow> a = b"
  by (simp add: table_file_def to_string_uint word_unat_eq_iff)

lemma table_file_not_catalog [simp]: "table_file oid \<noteq> catalog_path" "catalog_path \<noteq> table_file oid"
  by (simp_all add: table_file_def catalog_path_def)

subsection \<open>Looking tables up\<close>

definition tab_of :: "Catalog \<Rightarrow> string \<Rightarrow> TableInfo option" where
  "tab_of c name = (case map_of (table_names c) name of None \<Rightarrow> None | Some oid \<Rightarrow> map_of (tables c) oid)"

definition cat_abs :: "Catalog \<Rightarrow> string \<Rightarrow> (Column list \<times> heap) option" where
  "cat_abs c name = map_option (\<lambda>ti. (columns (ti_schema ti), heap_of (ti_table ti))) (tab_of c name)"

lemma cat_inv_info: "cat_inv c \<Longrightarrow> (oid, ti) \<in> set (tables c) \<Longrightarrow> info_ok (oid, ti)"
  by (auto simp: cat_inv_def list_all_iff)

lemma tab_of_iff:
  assumes "cat_inv c"
  shows "tab_of c name = Some ti \<longleftrightarrow> (\<exists>oid. (oid, ti) \<in> set (tables c) \<and> ti_name ti = name)"
proof -
  from assms have d: "distinct (map fst (tables c))" "distinct (map fst (table_names c))"
    and n: "table_names c = map (\<lambda>(oid, ti). (ti_name ti, oid)) (tables c)" by (auto simp: cat_inv_def)
  note m = map_of_eq_Some_iff [OF d(1)] map_of_eq_Some_iff [OF d(2)]
  show ?thesis
  proof
    assume "tab_of c name = Some ti"
    then obtain oid where o: "map_of (table_names c) name = Some oid" "map_of (tables c) oid = Some ti"
      by (auto simp: tab_of_def split: option.splits)
    from map_of_SomeD [OF o(1)] obtain ti' where "(oid, ti') \<in> set (tables c)" "ti_name ti' = name"
      by (auto simp: n)
    moreover from this(1) have "map_of (tables c) oid = Some ti'" by (simp add: m(1))
    ultimately show "\<exists>oid. (oid, ti) \<in> set (tables c) \<and> ti_name ti = name" using o(2) by auto
  next
    assume "\<exists>oid. (oid, ti) \<in> set (tables c) \<and> ti_name ti = name"
    then obtain oid where o: "(oid, ti) \<in> set (tables c)" "ti_name ti = name" by blast
    then have "(name, oid) \<in> set (table_names c)" by (force simp: n)
    then have "map_of (table_names c) name = Some oid" by (simp add: m(2))
    moreover have "map_of (tables c) oid = Some ti" using o(1) by (simp add: m(1))
    ultimately show "tab_of c name = Some ti" by (simp add: tab_of_def)
  qed
qed

lemma GetTable_tab_of:
  assumes "cat_inv c"
  shows "GetTable name c = (case tab_of c name of
      None \<Rightarrow> throw (Runtime_error (''Error: Table '' @ quoted name @ '' not found in catalog.''))
    | Some ti \<Rightarrow> Inr ti)"
proof (cases "map_of (table_names c) name")
  case (Some oid)
  from assms have n: "table_names c = map (\<lambda>(oid, ti). (ti_name ti, oid)) (tables c)" and d: "distinct (map fst (tables c))"
    by (auto simp: cat_inv_def)
  from map_of_SomeD [OF Some] obtain ti where "(oid, ti) \<in> set (tables c)" by (auto simp: n)
  then have "map_of (tables c) oid = Some ti" using d by simp
  with Some show ?thesis by (simp add: GetTable_def GetTable_oid_def tab_of_def)
qed (simp add: GetTable_def tab_of_def)

lemma tab_of_oid:
  assumes "cat_inv c" and "tab_of c name = Some ti"
  shows "(ti_oid ti, ti) \<in> set (tables c)" and "info_ok (ti_oid ti, ti)" and "ti_name ti = name"
proof -
  from assms obtain oid where o: "(oid, ti) \<in> set (tables c)" "ti_name ti = name" by (auto simp: tab_of_iff)
  with cat_inv_info [OF assms(1) o(1)] have "ti_oid ti = oid" by (simp add: info_ok_def)
  with o cat_inv_info [OF assms(1) o(1)] show "(ti_oid ti, ti) \<in> set (tables c)" "info_ok (ti_oid ti, ti)" "ti_name ti = name"
    by simp_all
qed

subsection \<open>The files of the database\<close>

lemma find_None_all: "find P xs = None \<longleftrightarrow> (\<forall>x \<in> set xs. \<not> P x)"
  by (auto simp: find_None_iff)

lemma db_files_table:
  assumes "cat_inv c" and "(oid, ti) \<in> set (tables c)"
  shows "db_files c (table_file oid) = contents (table_disk ti)"
proof -
  from assms(1) have d: "distinct (map fst (tables c))" and ok: "\<forall>t \<in> set (tables c). info_ok t"
    by (auto simp: cat_inv_def list_all_iff)
  have "find (\<lambda>(k, t). filename (table_disk t) = table_file oid) ts = Some (oid, ti)"
    if "distinct (map fst ts)" "\<forall>t \<in> set ts. info_ok t" "(oid, ti) \<in> set ts" for ts
    using that
  proof (induction ts)
    case (Cons t ts)
    then show ?case by (cases t) (force simp: info_ok_def)
  qed simp
  from this [OF d ok assms(2)] show ?thesis by (simp add: db_files_def)
qed

lemma db_files_other:
  assumes "cat_inv c" and "\<And>oid ti. (oid, ti) \<in> set (tables c) \<Longrightarrow> fn \<noteq> table_file oid"
  shows "db_files c fn = files c fn"
proof -
  have "find (\<lambda>(k, t). filename (table_disk t) = fn) (tables c) = None"
    using assms cat_inv_info [OF assms(1)] by (fastforce simp: find_None_all info_ok_def)
  then show ?thesis by (simp add: db_files_def)
qed

lemma cat_inv_new: "visits_all e \<Longrightarrow> cat_inv (new_Catalog e fs)"
  by (simp add: cat_inv_def new_Catalog_def)

lemma env_new [simp]: "env (new_Catalog e fs) = e"
  by (simp add: new_Catalog_def)

lemma db_files_new [simp]: "db_files (new_Catalog e fs) = fs"
  by (simp add: db_files_def new_Catalog_def fun_eq_iff)

lemma SaveCatalog_simps [simp]:
  "tables (SaveCatalog path c) = tables c" "table_names (SaveCatalog path c) = table_names c"
  "next_table_oid (SaveCatalog path c) = next_table_oid c" "env (SaveCatalog path c) = env c"
  by (simp_all add: SaveCatalog_def)

lemma SaveCatalog_files:
  "files (SaveCatalog path c) =
    (if opens_to_write (env c) path then (files c)(path \<mapsto> catalog_bytes (SaveCatalog path c)) else files c)"
  by (simp add: SaveCatalog_def catalog_bytes_def tables_in_order_def)

text \<open>A loop over the tables visits each of them once.\<close>

lemma mset_tables_in_order:
  assumes "cat_inv c"
  shows "mset (tables_in_order c) = mset (tables c)"
proof -
  from assms have d: "distinct (map fst (tables c))" and e: "mset (hash_order (env c) (map fst (tables c))) = mset (map fst (tables c))"
    by (auto simp: cat_inv_def visits_all_def)
  have s: "set (hash_order (env c) (map fst (tables c))) = set (map fst (tables c))" using e by (rule mset_eq_setD)
  let ?v = "\<lambda>oid. (oid, the (map_of (tables c) oid))"
  have "List.map_filter (\<lambda>oid. map_option (Pair oid) (map_of (tables c) oid)) ks = map ?v ks"
    if "set ks \<subseteq> set (map fst (tables c))" for ks
    using that
  proof (induction ks)
    case (Cons k ks)
    then have "map_of (tables c) k \<noteq> None" by (simp only: map_of_eq_None_iff set_map) auto
    with Cons show ?case by (auto simp: List.map_filter_simps)
  qed (simp add: List.map_filter_simps)
  then have "tables_in_order c = map ?v (hash_order (env c) (map fst (tables c)))"
    unfolding tables_in_order_def by (simp only: s order_refl)
  then have "mset (tables_in_order c) = image_mset ?v (mset (map fst (tables c)))" by (simp only: mset_map e)
  also have "\<dots> = mset (map ?v (map fst (tables c)))" by (simp only: mset_map)
  also have "map ?v (map fst (tables c)) = tables c" using d by (auto intro!: map_idI)
  finally show ?thesis .
qed

lemma tables_in_order_facts:
  assumes "cat_inv c"
  shows "set (tables_in_order c) = set (tables c)" and "length (tables_in_order c) = length (tables c)"
    and "distinct (map fst (tables_in_order c))" and "map_of (tables_in_order c) = map_of (tables c)"
proof -
  note m = mset_tables_in_order [OF assms]
  from assms have d: "distinct (map fst (tables c))" by (simp add: cat_inv_def)
  show s: "set (tables_in_order c) = set (tables c)" by (rule mset_eq_setD [OF m])
  show "length (tables_in_order c) = length (tables c)" by (rule mset_eq_length [OF m])
  have "mset (map fst (tables_in_order c)) = mset (map fst (tables c))" using m by simp
  then show d': "distinct (map fst (tables_in_order c))" using d by (metis mset_eq_imp_distinct_iff)
  show "map_of (tables_in_order c) = map_of (tables c)"
    using map_of_inject_set [OF d' d] s by simp
qed

lemma cat_inv_Save: "cat_inv c \<Longrightarrow> cat_inv (SaveCatalog path c)"
  unfolding cat_inv_def SaveCatalog_simps .

lemma cat_abs_Save [simp]: "cat_abs (SaveCatalog path c) = cat_abs c"
  unfolding cat_abs_def tab_of_def SaveCatalog_simps by (rule refl)

subsection \<open>CreateTable\<close>

lemma alist_update_new: "k \<notin> set (map fst xs) \<Longrightarrow> AList.update k v xs = xs @ [(k, v)]"
  by (induction xs) auto

lemma unat_u32_Suc: "unat (w :: u32) + 1 < 2 ^ 32 \<Longrightarrow> unat (w + 1) = unat w + 1"
  by (simp add: unat_word_ariths)

lemma CreateTable_exists:
  "cat_inv c \<Longrightarrow> tab_of c name \<noteq> None \<Longrightarrow> CreateTable name sch c =
    (throw (Runtime_error (''Error: Table '' @ quoted name @ '' already exists in catalog.'')), c)"
  by (auto simp: CreateTable_def tab_of_def split: option.splits)

lemma tab_of_None:
  assumes "cat_inv c"
  shows "tab_of c name = None \<longleftrightarrow> name \<notin> set (map fst (table_names c))"
proof -
  from assms have "map fst (table_names c) = map (\<lambda>t. ti_name (snd t)) (tables c)"
    by (auto simp: cat_inv_def)
  then have "name \<in> set (map fst (table_names c)) \<longleftrightarrow> (\<exists>oid ti. (oid, ti) \<in> set (tables c) \<and> ti_name ti = name)"
    by force
  with tab_of_iff [OF assms, of name] show ?thesis by (metis not_Some_eq)
qed

lemma CreateTable_spec:
  assumes inv: "cat_inv c" and new: "tab_of c name = None" and cols: "good_columns cols"
    and room: "unat (next_table_oid c) + 1 < 2 ^ 32"
  shows "\<exists>oid c'. CreateTable name (new_Schema cols) c = (Inr oid, c') \<and> cat_inv c' \<and>
    cat_abs c' = (cat_abs c)(name \<mapsto> (cols, [])) \<and> env c' = env c \<and> next_table_oid c' = next_table_oid c + 1 \<and>
    files c' = (if opens_to_write (env c) catalog_path then (files c)(catalog_path \<mapsto> catalog_bytes c') else files c)"
proof -
  let ?oid = "next_table_oid c" and ?tm = "new_TableManager (table_file (next_table_oid c)) c"
  let ?info = "\<lparr>ti_schema = new_Schema cols, ti_name = name, ti_table = ?tm, ti_oid = ?oid\<rparr>"
  from inv have d: "distinct (map fst (tables c))" "distinct (map fst (table_names c))"
    and n: "table_names c = map (\<lambda>(oid, ti). (ti_name ti, oid)) (tables c)" and ok: "list_all info_ok (tables c)"
    and lt: "\<forall>(oid, ti) \<in> set (tables c). oid < ?oid" and v: "visits_all (env c)" by (auto simp: cat_inv_def)
  have new_oid: "?oid \<notin> set (map fst (tables c))" using lt by auto
  have new_name: "name \<notin> set (map fst (table_names c))" using new tab_of_None [OF inv] by blast
  define c1 where "c1 = c\<lparr>next_table_oid := ?oid + 1, tables := tables c @ [(?oid, ?info)],
             table_names := table_names c @ [(name, ?oid)]\<rparr>"
  have "map_of (table_names c) name = None" using new_name by (simp add: map_of_eq_None_iff)
  then have cr: "CreateTable name (new_Schema cols) c = (Inr ?oid, SaveCatalog catalog_path c1)"
    using alist_update_new [OF new_oid] alist_update_new [OF new_name] by (simp add: CreateTable_def c1_def Let_def)
  have tm: "rm_inv True ?tm" "heap_of ?tm = []" "filename (disk_manager (buffer_pool_manager ?tm)) = table_file ?oid"
    by (simp_all add: new_TableManager_def rm_inv_new heap_of_new) (simp add: new_RecordManager_def new_BufferPool_def)
  have "info_ok (?oid, ?info)" using tm cols new_Schema_spec(1) [OF cols] by (simp add: info_ok_def table_disk_def)
  moreover have "\<forall>(oid, ti) \<in> set (tables c1). oid < next_table_oid c1"
    using lt unat_u32_Suc [OF room] by (auto simp: c1_def word_less_nat_alt)
  ultimately have inv1: "cat_inv c1"
    using d n ok v new_oid new_name by (simp add: cat_inv_def c1_def)
  have "tab_of c1 = (tab_of c)(name \<mapsto> ?info)"
  proof
    fix x show "tab_of c1 x = ((tab_of c)(name \<mapsto> ?info)) x"
    proof (cases "x = name")
      case True
      then have "tab_of c1 x = Some ?info" unfolding tab_of_iff [OF inv1] by (auto simp: c1_def)
      with True show ?thesis by simp
    next
      case False
      have "tab_of c1 x = Some ti \<longleftrightarrow> tab_of c x = Some ti" for ti
        using False unfolding tab_of_iff [OF inv1] tab_of_iff [OF inv] by (auto simp: c1_def)
      then show ?thesis using False by (metis fun_upd_other not_Some_eq)
    qed
  qed
  then have "cat_abs c1 = (cat_abs c)(name \<mapsto> (cols, []))"
    using tm(2) new_Schema_spec(1) [OF cols] by (simp add: cat_abs_def fun_eq_iff)
  moreover have "files (SaveCatalog catalog_path c1) = (if opens_to_write (env c) catalog_path
      then (files c)(catalog_path \<mapsto> catalog_bytes (SaveCatalog catalog_path c1)) else files c)"
    by (simp add: SaveCatalog_files) (simp add: c1_def)
  ultimately show ?thesis using cr cat_inv_Save [OF inv1] cat_abs_Save
    by (intro exI [of _ ?oid] exI [of _ "SaveCatalog catalog_path c1"]) (simp add: c1_def)
qed

subsection \<open>An operation on one table\<close>

lemma set_table_spec:
  assumes inv: "cat_inv c" and t: "tab_of c name = Some ti" and tm: "rm_inv True tm" "fname tm = fname (ti_table ti)"
  shows "cat_inv (set_table (ti_oid ti) tm c)"
    and "tab_of (set_table (ti_oid ti) tm c) = (tab_of c)(name \<mapsto> ti\<lparr>ti_table := tm\<rparr>)"
    and "cat_abs (set_table (ti_oid ti) tm c) = (cat_abs c)(name \<mapsto> (columns (ti_schema ti), heap_of tm))"
    and "next_table_oid (set_table (ti_oid ti) tm c) = next_table_oid c" and "files (set_table (ti_oid ti) tm c) = files c"
    and "env (set_table (ti_oid ti) tm c) = env c"
proof -
  let ?c = "set_table (ti_oid ti) tm c"
  show "next_table_oid ?c = next_table_oid c" "files ?c = files c" "env ?c = env c" by (simp_all add: set_table_def)
  note o = tab_of_oid [OF inv t]
  from inv have d: "distinct (map fst (tables c))" by (simp add: cat_inv_def)
  have mem: "(k, x) \<in> set (tables ?c) \<longleftrightarrow> (\<exists>y. (k, y) \<in> set (tables c) \<and> x = (if k = ti_oid ti then y\<lparr>ti_table := tm\<rparr> else y))" for k x
    by (force simp: set_table_def image_iff)
  have uniq: "y = ti" if "(ti_oid ti, y) \<in> set (tables c)" for y
    using d that o(1) by (simp add: eq_key_imp_eq_value)
  have "info_ok t" if "t \<in> set (tables ?c)" for t
  proof -
    obtain k x where k: "t = (k, x)" by (cases t)
    with that mem obtain y where y: "(k, y) \<in> set (tables c)" "x = (if k = ti_oid ti then y\<lparr>ti_table := tm\<rparr> else y)" by blast
    show ?thesis
    proof (cases "k = ti_oid ti")
      case True
      with y uniq have "x = ti\<lparr>ti_table := tm\<rparr>" by auto
      with o(2) tm k True show ?thesis by (simp add: info_ok_def table_disk_def fname_def)
    qed (use cat_inv_info [OF inv y(1)] y k in simp)
  qed
  then show inv': "cat_inv ?c"
    using inv by (auto simp: cat_inv_def set_table_def list_all_iff comp_def case_prod_beta intro!: map_cong)
  show tab: "tab_of ?c = (tab_of c)(name \<mapsto> ti\<lparr>ti_table := tm\<rparr>)"
  proof
    fix x
    have "tab_of ?c x = Some z \<longleftrightarrow> ((tab_of c)(name \<mapsto> ti\<lparr>ti_table := tm\<rparr>)) x = Some z" for z
    proof (cases "x = name")
      case True
      have "tab_of ?c name = Some (ti\<lparr>ti_table := tm\<rparr>)"
        unfolding tab_of_iff [OF inv'] mem using o by auto
      with True show ?thesis by simp
    next
      case False
      have "(\<exists>k. (k, z) \<in> set (tables ?c) \<and> ti_name z = x) \<longleftrightarrow> (\<exists>k. (k, z) \<in> set (tables c) \<and> ti_name z = x)"
      proof
        assume "\<exists>k. (k, z) \<in> set (tables ?c) \<and> ti_name z = x"
        then obtain k y where y: "(k, y) \<in> set (tables c)" "z = (if k = ti_oid ti then y\<lparr>ti_table := tm\<rparr> else y)" "ti_name z = x"
          using mem by blast
        have "k \<noteq> ti_oid ti" using y uniq [of y] o(3) False by (cases "k = ti_oid ti") simp_all
        with y show "\<exists>k. (k, z) \<in> set (tables c) \<and> ti_name z = x" by auto
      next
        assume "\<exists>k. (k, z) \<in> set (tables c) \<and> ti_name z = x"
        then obtain k where k: "(k, z) \<in> set (tables c)" "ti_name z = x" by blast
        have "k \<noteq> ti_oid ti" using k uniq [of z] o(3) False by (cases "k = ti_oid ti") simp_all
        with k mem [of k z] show "\<exists>k. (k, z) \<in> set (tables ?c) \<and> ti_name z = x" by auto
      qed
      then show ?thesis using False tab_of_iff [OF inv', of x z] tab_of_iff [OF inv, of x z] by simp
    qed
    then show "tab_of ?c x = ((tab_of c)(name \<mapsto> ti\<lparr>ti_table := tm\<rparr>)) x" by (metis not_Some_eq)
  qed
  show "cat_abs ?c = (cat_abs c)(name \<mapsto> (columns (ti_schema ti), heap_of tm))"
    by (simp add: cat_abs_def tab fun_eq_iff)
qed

end
