(* ===== verification/Parser.thy ===== *)
theory Parser
  imports Schema_Tuple
begin

section \<open>The parser (src/query/parser.cpp)\<close>

text \<open>
  A statement is a datatype with one constructor per struct of statement.h. The string stream has
  the characters left and its end and failure flags: \<^verbatim>\<open>>>\<close> skips white space and takes a
  word, and leaves its variable alone when it fails; \<^verbatim>\<open>getline\<close> takes the rest of the line.
\<close>

datatype Statement =
    CreateTableStatement string "Column list"
  | InsertStatement string "string list"
  | SelectStatement string
  | CommitStatement
  | DeleteStatement string string string

record sstream =
  ss_rest :: string
  ss_eof :: bool
  ss_fail :: bool

definition new_sstream :: "string \<Rightarrow> sstream" where
  "new_sstream s = \<lparr>ss_rest = s, ss_eof = False, ss_fail = False\<rparr>"

definition not_space :: "char \<Rightarrow> bool" where
  "not_space c \<longleftrightarrow> \<not> is_space c"

definition next_word :: "sstream \<Rightarrow> string option \<times> sstream" where
  "next_word i = (if ss_eof i \<or> ss_fail i then (None, i\<lparr>ss_fail := True\<rparr>)
     else let r = dropWhile is_space (ss_rest i) in
       if r = [] then (None, \<lparr>ss_rest = [], ss_eof = True, ss_fail = True\<rparr>)
       else let r' = dropWhile not_space r in
         (Some (takeWhile not_space r), \<lparr>ss_rest = r', ss_eof = (r' = []), ss_fail = False\<rparr>))"

text \<open>\<^verbatim>\<open>ss >> var\<close> for a variable that holds \<open>v\<close>.\<close>

definition next_word_into :: "string \<Rightarrow> sstream \<Rightarrow> string \<times> sstream" where
  "next_word_into v i = (case next_word i of (Some w, i') \<Rightarrow> (w, i') | (None, i') \<Rightarrow> (v, i'))"

definition getline :: "sstream \<Rightarrow> string \<times> sstream" where
  "getline i = (if ss_eof i \<or> ss_fail i then ([], i\<lparr>ss_fail := True\<rparr>)
     else let line = takeWhile (\<lambda>c. c \<noteq> CHR 0x0A) (ss_rest i); r = dropWhile (\<lambda>c. c \<noteq> CHR 0x0A) (ss_rest i) in
       if r = [] then (line, \<lparr>ss_rest = [], ss_eof = True, ss_fail = (line = [])\<rparr>)
       else (line, i\<lparr>ss_rest := tl r\<rparr>))"

definition clean_char :: "char \<Rightarrow> char" where
  "clean_char c = (if c = CHR ''('' \<or> c = CHR '')'' \<or> c = CHR '','' \<or> c = CHR '';'' then CHR '' '' else c)"

definition strip_semicolon :: "string \<Rightarrow> string" where
  "strip_semicolon s = (if s \<noteq> [] \<and> last s = CHR '';'' then butlast s else s)"

lemma next_word_shorter: "next_word i = (Some w, i') \<Longrightarrow> length (ss_rest i') < length (ss_rest i)"
proof -
  assume e: "next_word i = (Some w, i')"
  let ?r = "dropWhile is_space (ss_rest i)"
  from e have r: "?r \<noteq> []" "ss_rest i' = dropWhile not_space ?r"
    by (auto simp: next_word_def Let_def split: if_splits)
  have "not_space (hd ?r)" using r(1) hd_dropWhile [of is_space "ss_rest i"] by (simp add: not_space_def)
  with r(1) have "dropWhile not_space ?r = dropWhile not_space (tl ?r)" by (cases ?r) auto
  then have "length (ss_rest i') \<le> length (tl ?r)" by (metis r(2) length_dropWhile_le)
  also have "\<dots> < length ?r" using r(1) by simp
  also have "\<dots> \<le> length (ss_rest i)" by (rule length_dropWhile_le)
  finally show ?thesis .
qed

text \<open>The loops over columns and values.\<close>

function parse_columns :: "sstream \<Rightarrow> Column list" where
  "parse_columns i = (case next_word i of
     (None, i1) \<Rightarrow> []
   | (Some col_name, i1) \<Rightarrow> (case next_word i1 of
         (None, i2) \<Rightarrow> []
       | (Some type_str, i2) \<Rightarrow>
           new_Column col_name (if upper type_str = ''BOOLEAN'' then BOOLEAN else INTEGER) # parse_columns i2))"
  by pat_completeness auto
termination
  by (relation "measure (\<lambda>i. length (ss_rest i))") (auto dest!: next_word_shorter [OF sym])

function parse_values :: "sstream \<Rightarrow> string list" where
  "parse_values i = (case next_word i of (None, i1) \<Rightarrow> [] | (Some v, i1) \<Rightarrow> v # parse_values i1)"
  by pat_completeness auto
termination
  by (relation "measure (\<lambda>i. length (ss_rest i))") (auto dest!: next_word_shorter [OF sym])

declare parse_columns.simps [simp del] parse_values.simps [simp del]

definition ParseCreate :: "sstream \<Rightarrow> Statement option" where
  "ParseCreate i = (let (keyword, i1) = next_word_into [] i in
     if upper keyword \<noteq> ''TABLE'' then None
     else let (table_name, i2) = next_word_into [] i1; (rest, i3) = getline i2
       in Some (CreateTableStatement table_name (parse_columns (new_sstream (map clean_char rest)))))"

definition ParseInsert :: "sstream \<Rightarrow> Statement option" where
  "ParseInsert i = (let (keyword, i1) = next_word_into [] i in
     if upper keyword \<noteq> ''INTO'' then None
     else let (table_name, i2) = next_word_into [] i1; (keyword', i3) = next_word_into (upper keyword) i2 in
       if upper keyword' \<noteq> ''VALUES'' then None
       else let (rest, i4) = getline i3
         in Some (InsertStatement table_name (parse_values (new_sstream (map clean_char rest)))))"

definition ParseSelect :: "sstream \<Rightarrow> Statement option" where
  "ParseSelect i = (let (keyword, i1) = next_word_into [] i in
     if keyword \<noteq> ''*'' then None
     else let (keyword', i2) = next_word_into keyword i1 in
       if upper keyword' \<noteq> ''FROM'' then None
       else let (table_name, i3) = next_word_into [] i2
         in Some (SelectStatement (strip_semicolon table_name)))"

definition ParseDelete :: "sstream \<Rightarrow> Statement option" where
  "ParseDelete i = (let (keyword, i1) = next_word_into [] i in
     if upper keyword \<noteq> ''FROM'' then None
     else let (name, i2) = next_word_into [] i1; table_name = strip_semicolon name in
       case next_word i2 of
         (None, i3) \<Rightarrow> Some (DeleteStatement table_name [] [])
       | (Some keyword', i3) \<Rightarrow>
           if upper keyword' = ''WHERE'' then
             let (col, i4) = next_word i3; (eq, i5) = next_word i4; (val, i6) = next_word i5 in
             case (col, eq, val) of
               (Some c, Some _, Some v) \<Rightarrow> Some (DeleteStatement table_name c (strip_semicolon v))
             | _ \<Rightarrow> Some (DeleteStatement table_name [] [])
           else Some (DeleteStatement table_name [] []))"

definition Parse :: "string \<Rightarrow> Statement option" where
  "Parse sql = (let (word, i) = next_word_into [] (new_sstream sql); keyword = upper word in
     if keyword = ''CREATE'' then ParseCreate i
     else if keyword = ''INSERT'' then ParseInsert i
     else if keyword = ''SELECT'' then ParseSelect i
     else if keyword = ''COMMIT'' then Some CommitStatement
     else if keyword = ''DELETE'' then ParseDelete i
     else None)"

end
