(* ===== verification/Executor.thy ===== *)
theory Executor
  imports Catalog_State Parser
begin

section \<open>The executor (src/query/executor.cpp)\<close>

text \<open>
  Each statement has its own function from a catalog to the query result and the catalog it
  leaves. The outer option is \<open>None\<close> for undefined behaviour; an exception that no handler catches
  is a left value. The handlers catch \<^verbatim>\<open>std::runtime_error\<close> only.
\<close>

record QueryResult =
  success :: bool
  message :: string
  rows :: "string list list"

type_synonym execution = "(QueryResult result \<times> Catalog) option"

definition catch_runtime_error :: "QueryResult result \<Rightarrow> QueryResult result" where
  "catch_runtime_error r = (case r of
     Inl (Runtime_error what) \<Rightarrow> Inr \<lparr>success = False, message = what, rows = []\<rparr>
   | _ \<Rightarrow> r)"

definition map_result :: "('a \<Rightarrow> 'b) \<Rightarrow> 'a result \<Rightarrow> 'b result" where
  "map_result f r = (case r of Inl e \<Rightarrow> Inl e | Inr x \<Rightarrow> Inr (f x))"

subsection \<open>COMMIT and CREATE TABLE\<close>

fun flush_tables :: "TableInfo list \<Rightarrow> Catalog \<Rightarrow> Catalog option" where
  "flush_tables [] c = Some c"
| "flush_tables (ti # tis) c = do {
     tm \<leftarrow> tm_Flush (ti_table ti);
     flush_tables tis (set_table (ti_oid ti) tm c) }"

definition ExecuteCommit :: "Catalog \<Rightarrow> execution" where
  "ExecuteCommit c = do {
     let all_tables = GetAllTables c;
     c1 \<leftarrow> flush_tables all_tables c;
     Some (Inr \<lparr>success = True,
         message = ''COMMIT: '' @ to_string (int (length all_tables)) @ '' table(s) flushed to disk.'', rows = []\<rparr>,
       SaveCatalog catalog_path c1) }"

definition ExecuteCreate :: "string \<Rightarrow> Column list \<Rightarrow> Catalog \<Rightarrow> execution" where
  "ExecuteCreate name cols c = (let (r, c') = CreateTable name (new_Schema cols) c in
     Some (catch_runtime_error (map_result (\<lambda>_. \<lparr>success = True,
         message = ''Table '' @ quoted name @ '' created.'', rows = []\<rparr>) r), c'))"

subsection \<open>INSERT\<close>

fun insert_values :: "Schema \<Rightarrow> nat \<Rightarrow> string list \<Rightarrow> Value list outcome" where
  "insert_values sch idx [] = Some (Inr [])"
| "insert_values sch idx (raw # raws) = do {
     col \<leftarrow> GetColumn sch idx;
     case FromString raw (column_type col) of
       Inl e \<Rightarrow> Some (throw e)
     | Inr v \<Rightarrow> do {
         r \<leftarrow> insert_values sch (idx + 1) raws;
         Some (map_result (\<lambda>vs. v # vs) r) } }"

definition ExecuteInsert :: "string \<Rightarrow> string list \<Rightarrow> Catalog \<Rightarrow> execution" where
  "ExecuteInsert name raws c = (case GetTable name c of
     Inl e \<Rightarrow> Some (catch_runtime_error (throw e), c)
   | Inr ti \<Rightarrow> do {
       vals \<leftarrow> insert_values (ti_schema ti) 0 raws;
       case vals of
         Inl e \<Rightarrow> Some (catch_runtime_error (throw e), c)
       | Inr values \<Rightarrow> do {
           tup \<leftarrow> new_Tuple values (ti_schema ti);
           case tup of
             Inl e \<Rightarrow> Some (catch_runtime_error (throw e), c)
           | Inr tuple \<Rightarrow> do {
               (rid, tm) \<leftarrow> tm_InsertTuple tuple (ti_table ti);
               Some (Inr \<lparr>success = True, message = ''1 row inserted.'', rows = []\<rparr>,
                 set_table (ti_oid ti) tm c) } } })"

subsection \<open>SELECT\<close>

text \<open>The inner loop reads the row again for every column.\<close>

fun select_row :: "Schema \<Rightarrow> TableIterator \<Rightarrow> nat list \<Rightarrow> string list \<Rightarrow> RecordManager \<Rightarrow>
    (string list result \<times> RecordManager) option" where
  "select_row sch it [] row rm = Some (Inr row, rm)"
| "select_row sch it (i # is) row rm = do {
     (t, rm1) \<leftarrow> it_deref it rm;
     val \<leftarrow> GetValue sch i t;
     col \<leftarrow> GetColumn sch i;
     case ToString val (column_type col) of
       Inl e \<Rightarrow> Some (throw e, rm1)
     | Inr s \<Rightarrow> select_row sch it is (row @ [s]) rm1 }"

definition column_indices :: "Schema \<Rightarrow> nat list" where
  "column_indices sch = [0..<unat (GetColumnCount sch)]"

definition select_body :: "Schema \<Rightarrow> TableIterator \<Rightarrow> string list list \<Rightarrow> RecordManager \<Rightarrow>
    (string list list result \<times> RecordManager) option" where
  "select_body sch it rs rm = do {
     (r, rm') \<leftarrow> select_row sch it (column_indices sch) [] rm;
     Some (map_result (\<lambda>row. rs @ [row]) r, rm') }"

definition ExecuteSelect :: "string \<Rightarrow> Catalog \<Rightarrow> execution" where
  "ExecuteSelect name c = (case GetTable name c of
     Inl e \<Rightarrow> Some (catch_runtime_error (throw e), c)
   | Inr ti \<Rightarrow> do {
       (r, tm) \<leftarrow> table_scan (select_body (ti_schema ti)) [] (ti_table ti);
       Some (catch_runtime_error (map_result (\<lambda>rs. \<lparr>success = True,
           message = to_string (int (length rs)) @ '' rows returned.'', rows = rs\<rparr>) r),
         set_table (ti_oid ti) tm c) })"

subsection \<open>DELETE\<close>

text \<open>The index of the \<^verbatim>\<open>WHERE\<close> column, and whether it was found.\<close>

definition where_index :: "Schema \<Rightarrow> string \<Rightarrow> nat option" where
  "where_index sch col = find (\<lambda>i. map_option column_name (GetColumn sch i) = Some col) (column_indices sch)"

definition delete_body :: "Schema \<Rightarrow> nat option \<Rightarrow> string \<Rightarrow> TableIterator \<Rightarrow> RecordId list \<Rightarrow> RecordManager \<Rightarrow>
    (RecordId list result \<times> RecordManager) option" where
  "delete_body sch where_col where_value it rids rm = (case where_col of
     None \<Rightarrow> Some (Inr (rids @ [it_rid it]), rm)
   | Some i \<Rightarrow> do {
       (t, rm1) \<leftarrow> it_deref it rm;
       val \<leftarrow> GetValue sch i t;
       col \<leftarrow> GetColumn sch i;
       Some (map_result (\<lambda>row_val. if row_val = where_value then rids @ [it_rid it] else rids)
         (ToString val (column_type col)), rm1) })"

fun delete_tuples :: "RecordId list \<Rightarrow> TableManager \<Rightarrow> TableManager option" where
  "delete_tuples [] tm = Some tm"
| "delete_tuples (rid # rids) tm = do {
     (b, tm1) \<leftarrow> tm_DeleteTuple rid tm;
     delete_tuples rids tm1 }"

definition delete_matching :: "TableInfo \<Rightarrow> nat option \<Rightarrow> string \<Rightarrow> Catalog \<Rightarrow> execution" where
  "delete_matching ti where_col where_value c = do {
     (r, tm) \<leftarrow> table_scan (delete_body (ti_schema ti) where_col where_value) [] (ti_table ti);
     case r of
       Inl e \<Rightarrow> Some (catch_runtime_error (throw e), set_table (ti_oid ti) tm c)
     | Inr to_delete \<Rightarrow> do {
         tm' \<leftarrow> delete_tuples to_delete tm;
         Some (Inr \<lparr>success = True, message = to_string (int (length to_delete)) @ '' row(s) deleted.'', rows = []\<rparr>,
           set_table (ti_oid ti) tm' c) } }"

definition ExecuteDelete :: "string \<Rightarrow> string \<Rightarrow> string \<Rightarrow> Catalog \<Rightarrow> execution" where
  "ExecuteDelete name where_column where_value c = (case GetTable name c of
     Inl e \<Rightarrow> Some (catch_runtime_error (throw e), c)
   | Inr ti \<Rightarrow>
       if where_column = [] then delete_matching ti None where_value c
       else case where_index (ti_schema ti) where_column of
           None \<Rightarrow> Some (Inr \<lparr>success = False,
             message = ''Error: Column '' @ quoted where_column @ '' not found.'', rows = []\<rparr>, c)
         | Some i \<Rightarrow> delete_matching ti (Some i) where_value c)"

definition Execute :: "Statement \<Rightarrow> Catalog \<Rightarrow> execution" where
  "Execute stmt c = (case stmt of
     CreateTableStatement name cols \<Rightarrow> ExecuteCreate name cols c
   | InsertStatement name raws \<Rightarrow> ExecuteInsert name raws c
   | SelectStatement name \<Rightarrow> ExecuteSelect name c
   | CommitStatement \<Rightarrow> ExecuteCommit c
   | DeleteStatement name col val \<Rightarrow> ExecuteDelete name col val c)"

end
