(* ===== verification/Row_Text.thy ===== *)
theory Row_Text
  imports Executor
begin

section \<open>Rows as a client writes and reads them\<close>

text \<open>
  \<open>canon\<close> is the printed form of a written value, \<open>parse_row\<close> the printed row of an \<^verbatim>\<open>INSERT\<close>:
  columns without a value hold the default. \<open>tuple_texts\<close> is the printed row of a stored tuple.
\<close>

definition canon :: "TypeId \<Rightarrow> string \<Rightarrow> string result" where
  "canon t raw = (if t = INTEGER then map_result to_string (stoi raw)
     else if upper raw = ''TRUE'' then Inr ''true''
     else if upper raw = ''FALSE'' then Inr ''false''
     else throw (Runtime_error (''ValueFactory::FromString: expected '' @ quoted ''true'' @ '' or '' @ quoted ''false'' @
       '', got '' @ quoted raw)))"

definition default_text :: "TypeId \<Rightarrow> string" where
  "default_text t = (if t = BOOLEAN then ''false'' else ''0'')"

fun parse_row :: "Column list \<Rightarrow> string list \<Rightarrow> string list result" where
  "parse_row [] raws = Inr []"
| "parse_row (c # cols) [] = Inr (map (\<lambda>c. default_text (column_type c)) (c # cols))"
| "parse_row (c # cols) (raw # raws) = (case canon (column_type c) raw of
     Inl e \<Rightarrow> throw e
   | Inr s \<Rightarrow> map_result (\<lambda>row. s # row) (parse_row cols raws))"

definition value_text :: "Value \<Rightarrow> string" where
  "value_text v = (case vdata v of Int32 w \<Rightarrow> to_string (sint w)
     | Int8 w \<Rightarrow> if w \<noteq> 0 then ''true'' else ''false'' | Empty \<Rightarrow> [])"

definition tuple_texts :: "Column list \<Rightarrow> Tuple \<Rightarrow> string list" where
  "tuple_texts cols d = map (\<lambda>i. value_text (the (GetValue (new_Schema cols) i d))) [0..<length cols]"

lemma map_result_simps [simp]: "map_result f (Inl e) = Inl e" "map_result f (Inr x) = Inr (f x)"
  by (simp_all add: map_result_def)

lemma catch_simps [simp]:
  "catch_runtime_error (Inr r) = Inr r"
  "catch_runtime_error (Inl (Runtime_error w)) = Inr \<lparr>success = False, message = w, rows = []\<rparr>"
  "catch_runtime_error (Inl Invalid_argument) = Inl Invalid_argument"
  "catch_runtime_error (Inl Out_of_range) = Inl Out_of_range"
  "catch_runtime_error (Inl Bad_any_cast) = Inl Bad_any_cast"
  by (simp_all add: catch_runtime_error_def)

subsection \<open>Values\<close>

lemma ToString_typed: "typed t v \<Longrightarrow> ToString v t = Inr (value_text v)"
  by (auto simp: typed_def ToString_def value_text_def any_cast_int32_def any_cast_int8_def)

lemma digit_char_0: "digit_char 0 = CHR ''0''"
  unfolding digit_char_def by code_simp

lemma default_value_text: "good_column c \<Longrightarrow> value_text (new_Value (column_type c)) = default_text (column_type c)"
  by (auto simp: good_column_def value_text_def new_Value_def get_structure_def default_text_def to_string_def
      digit_char_0 show_nat.simps)

lemma stoi_range: "stoi raw = Inr i \<Longrightarrow> - (2 ^ 31) \<le> i \<and> i < 2 ^ 31"
  by (auto simp: stoi_def Let_def split: if_splits)

lemma FromString_canon:
  assumes "good_column c"
  shows "case FromString raw (column_type c) of
      Inl e \<Rightarrow> canon (column_type c) raw = Inl e
    | Inr v \<Rightarrow> typed (column_type c) v \<and> canon (column_type c) raw = Inr (value_text v)"
proof (cases "column_type c = INTEGER")
  case True
  show ?thesis
  proof (cases "stoi raw")
    case (Inr i)
    then have "sint (word_of_int i :: 32 word) = i"
      using stoi_range [OF Inr] by (simp add: signed_of_int signed_take_bit_int_eq_self)
    with True Inr show ?thesis by (simp add: FromString_def canon_def typed_def new_Value_def value_text_def)
  qed (simp add: True FromString_def canon_def)
next
  case False
  with assms have "column_type c = BOOLEAN" by (auto simp: good_column_def)
  then show ?thesis by (auto simp: FromString_def canon_def typed_def new_Value_def value_text_def Let_def)
qed

subsection \<open>Stored tuples\<close>

lemma GetValue_typed:
  assumes good: "good_columns cols" and len: "length d = sum_list (map clen cols)" and i: "i < length cols"
  shows "\<exists>v. GetValue (new_Schema cols) i d = Some v \<and> typed (column_type (cols ! i)) v"
proof -
  note ns = new_Schema_spec [OF good]
  from good i have gc: "good_column (cols ! i)" by (simp add: good_columns_def)
  have e: "offset_at cols i + clen (cols ! i) \<le> length d" using column_end [OF i] len by simp
  have g: "GetValue (new_Schema cols) i d =
      DeserializeFromChar (offset_at cols i) d (column_type (cols ! i)) (new_Value INVALID)"
    using ns i by (simp add: GetValue_def GetColumn_def GetColOffset_def)
  from gc e show ?thesis
    unfolding g by (auto simp: good_column_def clen_def DeserializeFromChar_def mem_read_def typed_def)
qed

lemma tuple_texts_nth:
  "i < length cols \<Longrightarrow> GetValue (new_Schema cols) i d = Some v \<Longrightarrow> tuple_texts cols d ! i = value_text v"
  by (simp add: tuple_texts_def)

text \<open>The printed row of a tuple made from values.\<close>

fun texts :: "Column list \<Rightarrow> Value list \<Rightarrow> string list" where
  "texts [] vs = []"
| "texts (c # cols) [] = default_text (column_type c) # texts cols []"
| "texts (c # cols) (v # vs) = value_text v # texts cols vs"

lemma texts_nth:
  "\<forall>c \<in> set cols. good_column c \<Longrightarrow> length (texts cols vs) = length cols \<and>
    (\<forall>i < length cols. texts cols vs ! i = value_text (column_value cols vs i))"
  by (induction cols vs rule: texts.induct)
    (auto simp: column_value_def nth_Cons default_value_text split: nat.splits)

lemma texts_default: "texts cols [] = map (\<lambda>c. default_text (column_type c)) cols"
  by (induction cols) simp_all

lemma new_Tuple_texts:
  assumes good: "good_columns cols" and fit: "fits_columns cols vs"
  shows "\<exists>d. new_Tuple vs (new_Schema cols) = Some (Inr d) \<and> length d = sum_list (map clen cols) \<and>
    tuple_texts cols d = texts cols vs"
proof -
  from new_Tuple_spec [OF good fit] obtain d where d: "new_Tuple vs (new_Schema cols) = Some (Inr d)"
    "length d = sum_list (map clen cols)" "\<forall>i < length cols. GetValue (new_Schema cols) i d = Some (column_value cols vs i)"
    by blast
  have t: "length (texts cols vs) = length cols" "\<forall>i < length cols. texts cols vs ! i = value_text (column_value cols vs i)"
    using texts_nth [of cols vs] good by (auto simp: good_columns_def)
  have "tuple_texts cols d = texts cols vs"
    by (rule nth_equalityI) (use d(3) t in \<open>simp_all add: tuple_texts_def\<close>)
  with d show ?thesis by blast
qed

subsection \<open>The values of an INSERT\<close>

lemma insert_values_spec:
  assumes good: "good_columns cols" and "i + length raws \<le> length cols"
  shows "\<exists>r. insert_values (new_Schema cols) i raws = Some r \<and>
    (case r of
       Inl e \<Rightarrow> parse_row (drop i cols) raws = Inl e
     | Inr vs \<Rightarrow> length vs = length raws \<and> (\<forall>k < length vs. typed (column_type (cols ! (i + k))) (vs ! k)) \<and>
         parse_row (drop i cols) raws = Inr (texts (drop i cols) vs))"
  using assms(2)
proof (induction raws arbitrary: i)
  case Nil
  then show ?case by (cases "drop i cols") (simp_all add: texts_default)
next
  case (Cons raw raws)
  then have i: "i < length cols" by simp
  then have dr: "drop i cols = cols ! i # drop (Suc i) cols" by (simp add: Cons_nth_drop_Suc)
  have c: "GetColumn (new_Schema cols) i = Some (cols ! i)"
    using i new_Schema_spec(1) [OF good] by (simp add: GetColumn_def)
  from good i have gc: "good_column (cols ! i)" by (simp add: good_columns_def)
  show ?case
  proof (cases "FromString raw (column_type (cols ! i))")
    case (Inl e)
    with FromString_canon [OF gc, of raw] c dr show ?thesis by simp
  next
    case (Inr v)
    with FromString_canon [OF gc, of raw] have v: "typed (column_type (cols ! i)) v"
      "canon (column_type (cols ! i)) raw = Inr (value_text v)" by simp_all
    from Cons.IH [of "Suc i"] Cons.prems obtain r where r: "insert_values (new_Schema cols) (Suc i) raws = Some r"
      "case r of
         Inl e \<Rightarrow> parse_row (drop (Suc i) cols) raws = Inl e
       | Inr vs \<Rightarrow> length vs = length raws \<and> (\<forall>k < length vs. typed (column_type (cols ! (Suc i + k))) (vs ! k)) \<and>
           parse_row (drop (Suc i) cols) raws = Inr (texts (drop (Suc i) cols) vs)" by auto
    then show ?thesis
      using c dr v Inr by (cases r) (auto simp: nth_Cons split: nat.splits)
  qed
qed

text \<open>The whole loop of an \<^verbatim>\<open>INSERT\<close>, against \<open>parse_row\<close>.\<close>

lemma insert_values_row:
  assumes "good_columns cols" and "length raws \<le> length cols"
  shows "case parse_row cols raws of
      Inl e \<Rightarrow> insert_values (new_Schema cols) 0 raws = Some (Inl e)
    | Inr row \<Rightarrow> \<exists>vs. insert_values (new_Schema cols) 0 raws = Some (Inr vs) \<and> fits_columns cols vs \<and> row = texts cols vs"
proof -
  have "0 + length raws \<le> length cols" using assms(2) by simp
  from insert_values_spec [OF assms(1) this, unfolded drop_0 add_0] obtain r where
    r: "insert_values (new_Schema cols) 0 raws = Some r"
      "case r of Inl e \<Rightarrow> parse_row cols raws = Inl e
       | Inr vs \<Rightarrow> length vs = length raws \<and> (\<forall>k < length vs. typed (column_type (cols ! k)) (vs ! k)) \<and>
           parse_row cols raws = Inr (texts cols vs)" by blast
  then show ?thesis using assms(2) by (cases r) (auto simp: fits_columns_def)
qed

end
