(* ===== verification/Type_Properties.thy ===== *)
theory Type_Properties
  imports Row_Text
begin

section \<open>Properties of values, schemas and tuples\<close>

text \<open>
  The properties of \<open>Value_Types\<close> and \<open>Schema_Tuple\<close>: texts and values, numerals, offsets, tuples.
\<close>

text \<open>C37. Printing a value and reading it back gives the value: for an INTEGER every 32-bit value, for
  a BOOLEAN the two values the program stores; and what \<open>FromString\<close> accepts, printed and read
  again, is the same value.\<close>
theorem FromString_ToString:
  assumes "good_column c" and "FromString raw (column_type c) = Inr v"
  shows "\<exists>s. ToString v (column_type c) = Inr s \<and> FromString s (column_type c) = Inr v \<and>
    canon (column_type c) raw = Inr s"
proof -
  from FromString_canon [OF assms(1), of raw] assms(2) have v: "typed (column_type c) v"
    "canon (column_type c) raw = Inr (value_text v)" by simp_all
  have "FromString (value_text v) (column_type c) = Inr v"
  proof (cases "column_type c = INTEGER")
    case True
    with v(1) obtain w where "v = \<lparr>type_id = INTEGER, vdata = Int32 w\<rparr>" by (cases v) (auto simp: typed_def)
    with True stoi_to_string [OF sint32_range [of w]] show ?thesis
      by (simp add: value_text_def FromString_def new_Value_def)
  next
    case False
    with assms(1) have b: "column_type c = BOOLEAN" by (auto simp: good_column_def)
    with assms(2) have "vdata v \<in> {Int8 0, Int8 1}" "type_id v = BOOLEAN"
      by (auto simp: FromString_def Let_def new_Value_def split: if_splits)
    moreover have "upper ''true'' = ''TRUE''" "upper ''false'' = ''FALSE''" by code_simp+
    ultimately show ?thesis using b by (cases v) (auto simp: value_text_def FromString_def new_Value_def)
  qed
  with ToString_typed [OF v(1)] v(2) show ?thesis by blast
qed

lemma FromString_ToString_witness:
  "FromString ''+7'' INTEGER = Inr \<lparr>type_id = INTEGER, vdata = Int32 7\<rparr> \<and> canon INTEGER ''+7'' = Inr ''7''"
proof -
  let ?c = "new_Column ''id'' INTEGER"
  have v: "FromString ''+7'' INTEGER = Inr \<lparr>type_id = INTEGER, vdata = Int32 7\<rparr>" by code_simp
  have t: "column_type ?c = INTEGER" by (simp add: new_Column_def)
  have "ToString \<lparr>type_id = INTEGER, vdata = Int32 7\<rparr> INTEGER = Inr ''7''" by code_simp
  with FromString_ToString [of ?c "''+7''", unfolded t, OF _ v] good_new_Column v show ?thesis by auto
qed

text \<open>\<^verbatim>\<open>std::stoi\<close> as the program uses it: a decimal numeral, with white space and at most one
  minus sign before it, is read as its value exactly when that fits 32 bits, and otherwise
  \<^verbatim>\<open>out_of_range\<close> is thrown; what follows the digits is ignored.\<close>
lemma stoi_reads_numeral:
  assumes "\<forall>c \<in> set p. is_space c" and "rest = [] \<or> \<not> is_digit (hd rest)"
  shows "stoi (p @ show_nat n @ rest) = (if int n < 2 ^ 31 then Inr (int n) else throw Out_of_range) \<and>
    stoi (p @ CHR ''-'' # show_nat n @ rest) = (if int n \<le> 2 ^ 31 then Inr (- int n) else throw Out_of_range)"
proof -
  have d: "dropWhile is_space (p @ s) = dropWhile is_space s" for s using assms(1) by (simp add: dropWhile_append2)
  have c: "show_nat n \<noteq> []" "is_digit (hd (show_nat n))" using show_nat_digits [of n] by (simp_all add: hd_in_set)
  then have t: "dropWhile is_space (show_nat n @ rest) = show_nat n @ rest"
    using digit_not_space by (cases "show_nat n") simp_all
  have "takeWhile is_digit rest = []" using assms(2) by (cases rest) simp_all
  then have u: "takeWhile is_digit (show_nat n @ rest) = show_nat n"
    using show_nat_digits [of n] by (simp add: takeWhile_append2)
  have m: "\<not> is_space (CHR ''-'')" by (simp add: is_space_def char_code_def)
  have h: "hd (show_nat n @ rest) \<noteq> CHR ''-''" "hd (show_nat n @ rest) \<noteq> CHR ''+''"
    using c digit_no_sign by (simp_all add: hd_append)
  show ?thesis using c(1) h by (simp add: stoi_def Let_def d t u m)
qed

lemma stoi_reads_numeral_witness:
  "stoi ('' '' @ show_nat 12 @ ''ab'') = Inr 12 \<and> stoi ('' '' @ CHR ''-'' # show_nat 2147483649 @ ''ab'') = throw Out_of_range"
  using stoi_reads_numeral [of "'' ''" "''ab''" 12] stoi_reads_numeral [of "'' ''" "''ab''" 2147483649]
  by (simp add: is_space_def is_digit_def char_code_def)

text \<open>C38. The offsets a schema computes are exact and keep the columns apart: column \<open>i\<close> starts after
  the columns before it, the byte ranges of two columns do not overlap, and every range ends within
  the tuple length; no 32-bit sum wraps.\<close>
theorem schema_offsets_disjoint:
  assumes "good_columns cols" and "i < length cols" and "j < i"
  shows "\<exists>offi offj. GetColOffset (new_Schema cols) i = Some offi \<and> GetColOffset (new_Schema cols) j = Some offj \<and>
    unat offi = (\<Sum>k<i. unat (column_length (cols ! k))) \<and>
    unat offj + unat (column_length (cols ! j)) \<le> unat offi \<and>
    unat offi + unat (column_length (cols ! i)) \<le> unat (schema_length (new_Schema cols))"
proof -
  note ns = new_Schema_spec [OF assms(1)]
  have "offset_at cols i = (\<Sum>k<i. clen (cols ! k))"
    using assms(2) by (simp add: offset_at_def sum_list_sum_nth atLeast0LessThan)
  moreover have "offset_at cols j + clen (cols ! j) \<le> offset_at cols i"
    using assms(2,3) offset_at_Suc [of j cols] offset_at_mono [of "Suc j" i cols] by simp
  ultimately show ?thesis
    using column_end [OF assms(2)] ns assms(2,3) by (simp add: GetColOffset_def clen_def)
qed

lemma schema_offsets_disjoint_witness:
  "\<exists>off. GetColOffset (new_Schema [new_Column ''ok'' BOOLEAN, new_Column ''id'' INTEGER]) 1 = Some off \<and> unat off = 1"
proof -
  let ?cols = "[new_Column ''ok'' BOOLEAN, new_Column ''id'' INTEGER]"
  have "good_columns ?cols" by (simp add: good_columns_def good_new_Column)
  from schema_offsets_disjoint [OF this, of 1 0] show ?thesis by (auto simp: new_Column_def)
qed

text \<open>C26. A tuple holds the values it was made from: whatever typed values are given for the first columns,
  the constructor writes them without leaving its buffer, \<open>GetValue\<close> reads each of them back, and a
  column without a value reads as its default.\<close>
theorem new_Tuple_GetValue:
  assumes "good_columns cols" and "length vs \<le> length cols" and "\<forall>i < length vs. typed (column_type (cols ! i)) (vs ! i)"
  shows "\<exists>d. new_Tuple vs (new_Schema cols) = Some (Inr d) \<and> length d = unat (schema_length (new_Schema cols)) \<and>
    (\<forall>i < length cols. GetValue (new_Schema cols) i d =
       Some (if i < length vs then vs ! i else new_Value (column_type (cols ! i))))"
proof -
  have "fits_columns cols vs" using assms(2,3) by (simp add: fits_columns_def)
  from new_Tuple_spec [OF assms(1) this] new_Schema_spec(4) [OF assms(1)] show ?thesis by (auto simp: column_value_def)
qed

lemma new_Tuple_GetValue_witness:
  "\<exists>d. new_Tuple [\<lparr>type_id = INTEGER, vdata = Int32 77\<rparr>] (new_Schema [new_Column ''id'' INTEGER, new_Column ''ok'' BOOLEAN]) =
      Some (Inr d) \<and> length d = 5 \<and>
    GetValue (new_Schema [new_Column ''id'' INTEGER, new_Column ''ok'' BOOLEAN]) 0 d = Some \<lparr>type_id = INTEGER, vdata = Int32 77\<rparr> \<and>
    GetValue (new_Schema [new_Column ''id'' INTEGER, new_Column ''ok'' BOOLEAN]) 1 d = Some \<lparr>type_id = BOOLEAN, vdata = Int8 0\<rparr>"
proof -
  let ?cols = "[new_Column ''id'' INTEGER, new_Column ''ok'' BOOLEAN]"
  have g: "good_columns ?cols" by (simp add: good_columns_def good_new_Column)
  have "unat (schema_length (new_Schema ?cols)) = 5"
    using new_Schema_spec(4) [OF g] by (simp add: clen_def new_Column_def)
  moreover have "new_Value BOOLEAN = \<lparr>type_id = BOOLEAN, vdata = Int8 0\<rparr>" by (simp add: new_Value_def get_structure_def)
  ultimately show ?thesis
    using new_Tuple_GetValue [OF g, of "[\<lparr>type_id = INTEGER, vdata = Int32 77\<rparr>]"]
    by (auto simp: typed_def new_Column_def)
qed

end
