(* ===== verification/Executor_Facts.thy ===== *)
theory Executor_Facts
  imports Row_Text "HOL-Library.Multiset"
begin

section \<open>What the loops of the executor compute\<close>

text \<open>
  A table whose tuples all have the length of its columns (\<open>tuples_ok\<close>) reads as the multiset of
  its printed rows (\<open>table_rows\<close>). The loop of \<^verbatim>\<open>SELECT\<close> lists these rows, the loops of
  \<^verbatim>\<open>DELETE\<close> remove the rows that match.
\<close>

definition tuples_ok :: "Column list \<Rightarrow> heap \<Rightarrow> bool" where
  "tuples_ok cols h \<longleftrightarrow> (\<forall>d \<in> ran (heap_get h). length d = sum_list (map clen cols))"

definition row_at :: "Column list \<Rightarrow> heap \<Rightarrow> RecordId \<Rightarrow> string list" where
  "row_at cols h rid = tuple_texts cols (the (heap_get h rid))"

definition table_rows :: "Column list \<Rightarrow> heap \<Rightarrow> string list multiset" where
  "table_rows cols h = image_mset (row_at cols h) (mset_set (dom (heap_get h)))"

lemma finite_heap: "rm_inv b rm \<Longrightarrow> finite (dom (heap_get (heap_of rm)))"
  by (simp flip: live_rids_complete)

lemma mset_live_rids: "rm_inv b rm \<Longrightarrow> mset (live_rids (heap_of rm)) = mset_set (dom (heap_get (heap_of rm)))"
  by (metis live_rids_complete live_rids_distinct mset_set_set)

lemma mset_rows:
  "rm_inv b rm \<Longrightarrow> mset (map (row_at cols (heap_of rm)) (live_rids (heap_of rm))) = table_rows cols (heap_of rm)"
  by (simp add: table_rows_def mset_live_rids)

lemma rid_on_page: "heap_get (heap_of rm) rid \<noteq> None \<Longrightarrow> rid_page_id rid \<in> set (page_ids rm)"
  by (auto simp: heap_get_def lookup_rec_def split: if_splits)

subsection \<open>Reading a row\<close>

lemma it_deref_spec:
  assumes inv: "rm_inv b rm" and g: "heap_get (heap_of rm) (it_rid it) = Some d"
  shows "\<exists>rm'. it_deref it rm = Some (d, rm') \<and> rm_same b rm rm'"
proof -
  have "rid_page_id (it_rid it) \<in> set (page_ids rm)" using g by (intro rid_on_page) simp
  from rm_Get_same [OF inv this] g obtain rm' where
    r: "rm_Get (it_rid it) (Some 4096) rm = Some (Some (d, word_of_nat (length d)), rm')" "rm_same b rm rm'" by auto
  have "length d \<le> 4084" using heap_record_size [OF inv g] by simp
  then have "unat (word_of_nat (length d) :: u16) = length d" by (intro unat_u16_of_nat) simp
  with r show ?thesis by (simp add: it_deref_def)
qed

lemma GetColumn_new: "good_columns cols \<Longrightarrow> i < length cols \<Longrightarrow> GetColumn (new_Schema cols) i = Some (cols ! i)"
  by (simp add: GetColumn_def new_Schema_spec)

lemma column_indices_new: "good_columns cols \<Longrightarrow> column_indices (new_Schema cols) = [0..<length cols]"
  by (simp add: column_indices_def GetColumnCount_def new_Schema_spec good_columns_def unat_of_nat)

lemma read_column:
  assumes "good_columns cols" and "tuples_ok cols (heap_of rm)" and "heap_get (heap_of rm) rid = Some d" and "i < length cols"
  shows "\<exists>v. GetValue (new_Schema cols) i d = Some v \<and>
    ToString v (column_type (cols ! i)) = Inr (row_at cols (heap_of rm) rid ! i)"
proof -
  have "length d = sum_list (map clen cols)" using assms(2,3) by (auto simp: tuples_ok_def ran_def)
  from GetValue_typed [OF assms(1) this assms(4)] obtain v where
    v: "GetValue (new_Schema cols) i d = Some v" "typed (column_type (cols ! i)) v" by blast
  with ToString_typed [OF v(2)] tuple_texts_nth [OF assms(4) v(1)] assms(3) show ?thesis by (simp add: row_at_def)
qed

lemma select_row_spec:
  assumes good: "good_columns cols" and "rm_inv b rm" and "tuples_ok cols (heap_of rm)"
    and "heap_get (heap_of rm) (it_rid it) \<noteq> None" and "\<forall>i \<in> set ns. i < length cols"
  shows "\<exists>rm'. select_row (new_Schema cols) it ns row rm =
      Some (Inr (row @ map (\<lambda>i. row_at cols (heap_of rm) (it_rid it) ! i) ns), rm') \<and> rm_same b rm rm'"
  using assms(2-5)
proof (induction ns arbitrary: row rm)
  case (Cons i ns)
  from Cons.prems(3) obtain d where d: "heap_get (heap_of rm) (it_rid it) = Some d" by blast
  from it_deref_spec [OF Cons.prems(1) d] obtain rm1 where 1: "it_deref it rm = Some (d, rm1)" "rm_same b rm rm1" by blast
  then have s: "rm_inv b rm1" "heap_of rm1 = heap_of rm" by (simp_all add: rm_same_def)
  have i: "i < length cols" using Cons.prems(4) by simp
  from read_column [OF good Cons.prems(2) d i] obtain v where v: "GetValue (new_Schema cols) i d = Some v"
    "ToString v (column_type (cols ! i)) = Inr (row_at cols (heap_of rm) (it_rid it) ! i)" by blast
  from Cons.IH [OF s(1), of "row @ [row_at cols (heap_of rm) (it_rid it) ! i]"] Cons.prems s obtain rm' where
    "select_row (new_Schema cols) it ns (row @ [row_at cols (heap_of rm) (it_rid it) ! i]) rm1 =
      Some (Inr ((row @ [row_at cols (heap_of rm) (it_rid it) ! i]) @ map (\<lambda>i. row_at cols (heap_of rm) (it_rid it) ! i) ns), rm')"
    "rm_same b rm1 rm'" by auto
  with 1 v GetColumn_new [OF good i] rm_same_trans [OF 1(2)] show ?case by auto
qed simp

lemma length_row_at: "length (row_at cols h rid) = length cols"
  by (simp add: row_at_def tuple_texts_def)

lemma select_body_reads:
  assumes good: "good_columns cols" and ok: "tuples_ok cols h"
  shows "reads_as b h (\<lambda>rid rs. Inr (rs @ [row_at cols h rid])) (select_body (new_Schema cols))"
proof -
  have "\<exists>rm'. select_body (new_Schema cols) it rs rm = Some (Inr (rs @ [row_at cols h (it_rid it)]), rm') \<and> rm_same b rm rm'"
    if "rm_inv b rm" "heap_of rm = h" "heap_get h (it_rid it) \<noteq> None" for it rs rm
    using select_row_spec [OF good that(1), of it "[0..<length cols]" "[]"] that ok
      map_nth [of "row_at cols h (it_rid it)"]
    by (auto simp: select_body_def column_indices_new [OF good] length_row_at)
  then show ?thesis unfolding reads_as_def by blast
qed

lemma fold_result_append: "fold_result (\<lambda>x acc. Inr (acc @ [g x])) xs acc = Inr (acc @ map g xs)"
  by (induction xs arbitrary: acc) simp_all

lemma fold_result_filter: "fold_result (\<lambda>x acc. Inr (if P x then acc @ [x] else acc)) xs acc = Inr (acc @ filter P xs)"
  by (induction xs arbitrary: acc) simp_all

lemma select_scan:
  assumes inv: "rm_inv b rm" and good: "good_columns cols" and ok: "tuples_ok cols (heap_of rm)"
  shows "\<exists>rs rm'. table_scan (select_body (new_Schema cols)) [] rm = Some (Inr rs, rm') \<and>
    rs = map (row_at cols (heap_of rm)) (live_rids (heap_of rm)) \<and> rm_same b rm rm'"
  using table_scan_spec [OF inv select_body_reads [OF good ok], of "[]"] by (simp add: fold_result_append)

subsection \<open>Finding and deleting rows\<close>

definition row_matches :: "Column list \<Rightarrow> heap \<Rightarrow> nat option \<Rightarrow> string \<Rightarrow> RecordId \<Rightarrow> bool" where
  "row_matches cols h where_col val rid \<longleftrightarrow>
     (case where_col of None \<Rightarrow> True | Some i \<Rightarrow> row_at cols h rid ! i = val)"

lemma delete_body_reads:
  assumes good: "good_columns cols" and ok: "tuples_ok cols h" and w: "\<forall>i. w = Some i \<longrightarrow> i < length cols"
  shows "reads_as b h (\<lambda>rid rids. Inr (if row_matches cols h w val rid then rids @ [rid] else rids))
    (delete_body (new_Schema cols) w val)"
proof -
  have "\<exists>rm'. delete_body (new_Schema cols) w val it rids rm =
      Some (Inr (if row_matches cols h w val (it_rid it) then rids @ [it_rid it] else rids), rm') \<and> rm_same b rm rm'"
    if r: "rm_inv b rm" "heap_of rm = h" "heap_get h (it_rid it) \<noteq> None" for it rids rm
  proof (cases w)
    case None
    with r(1) show ?thesis by (simp add: delete_body_def row_matches_def)
  next
    case (Some i)
    with w have i: "i < length cols" by simp
    from r obtain d where d: "heap_get (heap_of rm) (it_rid it) = Some d" by blast
    from it_deref_spec [OF r(1) d] obtain rm1 where 1: "it_deref it rm = Some (d, rm1)" "rm_same b rm rm1" by blast
    from read_column [OF good _ d i] ok r(2) obtain v where "GetValue (new_Schema cols) i d = Some v"
      "ToString v (column_type (cols ! i)) = Inr (row_at cols h (it_rid it) ! i)" by auto
    with 1 Some GetColumn_new [OF good i] show ?thesis by (simp add: delete_body_def row_matches_def)
  qed
  then show ?thesis unfolding reads_as_def by blast
qed

lemma delete_scan:
  assumes inv: "rm_inv b rm" and good: "good_columns cols" and ok: "tuples_ok cols (heap_of rm)"
    and w: "\<forall>i. w = Some i \<longrightarrow> i < length cols"
  shows "\<exists>rm'. table_scan (delete_body (new_Schema cols) w val) [] rm =
      Some (Inr (filter (row_matches cols (heap_of rm) w val) (live_rids (heap_of rm))), rm') \<and> rm_same b rm rm'"
  using table_scan_spec [OF inv delete_body_reads [OF good ok w, of b val], of "[]"] by (simp add: fold_result_filter)

lemma delete_tuples_spec:
  assumes "rm_inv b rm" and "\<forall>rid \<in> set rids. rid_page_id rid \<in> set (page_ids rm)"
  shows "\<exists>rm'. delete_tuples rids rm = Some rm' \<and> rm_inv b rm' \<and> page_ids rm' = page_ids rm \<and>
    heap_get (heap_of rm') = heap_get (heap_of rm) |` (- set rids) \<and>
    rm_GetNextPageId rm' = rm_GetNextPageId rm \<and> fname rm' = fname rm"
  using assms
proof (induction rids arbitrary: rm)
  case Nil
  then show ?case by (simp add: restrict_map_def)
next
  case (Cons rid rids)
  from rm_Delete_spec [OF Cons.prems(1), of rid] Cons.prems(2) obtain ok rm1 where
    1: "rm_Delete rid rm = Some (ok, rm1)" "rm_inv b rm1" "heap_of rm1 = heap_put rid None (heap_of rm)"
      "page_ids rm1 = page_ids rm" "rm_GetNextPageId rm1 = rm_GetNextPageId rm" by auto
  from Cons.IH [OF 1(2)] Cons.prems(2) 1(4) obtain rm' where
    2: "delete_tuples rids rm1 = Some rm'" "rm_inv b rm'" "page_ids rm' = page_ids rm1"
      "heap_get (heap_of rm') = heap_get (heap_of rm1) |` (- set rids)"
      "rm_GetNextPageId rm' = rm_GetNextPageId rm1" "fname rm' = fname rm1" by auto
  have "heap_get (heap_of rm1) = (heap_get (heap_of rm))(rid := None)" using 1(3) heap_get_delete by simp
  then have "heap_get (heap_of rm') = heap_get (heap_of rm) |` (- set (rid # rids))"
    using 2(4) by (auto simp: restrict_map_def fun_eq_iff)
  with 1 2 rm_Delete_fname [OF 1(1)] show ?case by (simp add: tm_DeleteTuple_def)
qed

end
