(* ===== verification/Catalog_Load.thy ===== *)
theory Catalog_Load
  imports Catalog_State
begin

section \<open>Loading a saved catalog\<close>

text \<open>
  \<open>LoadCatalog\<close> over the files of a saved database rebuilds the tables of the saved catalog, each
  a new manager over its own file. When the tables' files are flushed as well (\<open>flushed\<close>), the
  loaded database is the saved one.
\<close>

definition restored :: "(string \<Rightarrow> byte list option) \<Rightarrow> TableEntry \<Rightarrow> TableInfo" where
  "restored fs e = \<lparr>ti_schema = new_Schema (te_columns e), ti_name = te_name e,
     ti_table = rm_reopen \<lparr>filename = table_file (te_oid e), contents = fs (table_file (te_oid e))\<rparr> (te_pages e) (te_next e),
     ti_oid = te_oid e\<rparr>"

lemma load_tables_fold:
  "\<forall>e \<in> set es. storable_entry e \<Longrightarrow>
    load_tables (length es) \<lparr>in_rest = concat (map write_entry es) @ r, in_ok = True\<rparr> c = fold load_table es c"
  by (induction es arbitrary: c) (simp_all add: entry.rd_wr)

lemma rm_reopen_disk: "disk_manager (buffer_pool_manager (rm_reopen dm ids n)) = dm"
  by (simp add: rm_reopen_def rm_SetNextPageId_def SetPageIds_def new_RecordManager_def SetNextPageId_def new_BufferPool_def)

text \<open>One round registers one table, over its file as it is on disk.\<close>

definition closed :: "Catalog \<Rightarrow> u32 \<Rightarrow> bool" where
  "closed c oid \<longleftrightarrow> (\<forall>(k, ti) \<in> set (tables c). filename (table_disk ti) \<noteq> table_file oid)"

lemma load_table_closed:
  assumes "closed c (te_oid e)" and "te_oid e \<notin> set (map fst (tables c))" and "te_name e \<notin> set (map fst (table_names c))"
  shows "load_table e c = c\<lparr>tables := tables c @ [(te_oid e, restored (files c) e)],
    table_names := table_names c @ [(te_name e, te_oid e)]\<rparr>"
proof -
  have "find (\<lambda>(k, ti). filename (table_disk ti) = table_file (te_oid e)) (tables c) = None"
    using assms(1) by (auto simp: find_None_all closed_def)
  then have "db_files c (table_file (te_oid e)) = files c (table_file (te_oid e))" by (simp add: db_files_def)
  then show ?thesis
    using alist_update_new [OF assms(2)] alist_update_new [OF assms(3)]
    by (simp add: load_table_def restored_def rm_reopen_def new_TableManager_def Let_def)
qed

lemma fold_load_table:
  assumes "distinct (map te_oid es)" and "distinct (map te_name es)"
    and "\<forall>e \<in> set es. closed c (te_oid e) \<and> te_oid e \<notin> set (map fst (tables c)) \<and> te_name e \<notin> set (map fst (table_names c))"
  shows "fold load_table es c = c\<lparr>tables := tables c @ map (\<lambda>e. (te_oid e, restored (files c) e)) es,
    table_names := table_names c @ map (\<lambda>e. (te_name e, te_oid e)) es\<rparr>"
  using assms
proof (induction es arbitrary: c)
  case (Cons e es)
  let ?c = "c\<lparr>tables := tables c @ [(te_oid e, restored (files c) e)],
    table_names := table_names c @ [(te_name e, te_oid e)]\<rparr>"
  have l: "load_table e c = ?c" using Cons.prems(3) by (intro load_table_closed) auto
  have "closed ?c (te_oid x) \<and> te_oid x \<notin> set (map fst (tables ?c)) \<and> te_name x \<notin> set (map fst (table_names ?c))"
    if x: "x \<in> set es" for x
  proof -
    have "te_oid x \<in> te_oid ` set es" "te_name x \<in> te_name ` set es" using x by simp_all
    then have "te_oid x \<noteq> te_oid e" "te_name x \<noteq> te_name e" using Cons.prems(1,2) by auto
    with x Cons.prems(3) show ?thesis by (auto simp: closed_def restored_def table_disk_def rm_reopen_disk)
  qed
  with Cons.IH [of ?c] Cons.prems(1,2) l show ?case by simp
qed simp

lemma table_entry_simps [simp]:
  "te_oid (table_entry t) = fst t" "te_name (table_entry t) = ti_name (snd t)"
  "te_columns (table_entry t) = columns (ti_schema (snd t))" "te_pages (table_entry t) = page_ids (ti_table (snd t))"
  "te_next (table_entry t) = rm_GetNextPageId (ti_table (snd t))"
  by (simp_all add: table_entry_def split: prod.splits)

definition storable_catalog :: "Catalog \<Rightarrow> bool" where
  "storable_catalog c \<longleftrightarrow> (\<forall>t \<in> set (tables c). storable_entry (table_entry t)) \<and> length (tables c) < 2 ^ 32"

text \<open>The index by name, as a loader that goes through the file builds it.\<close>

definition names_in_order :: "Catalog \<Rightarrow> (string \<times> u32) list" where
  "names_in_order c = map (\<lambda>(oid, ti). (ti_name ti, oid)) (tables_in_order c)"

lemma names_in_order_facts:
  assumes "cat_inv c"
  shows "mset (names_in_order c) = mset (table_names c)" and "distinct (map fst (names_in_order c))"
    and "map_of (names_in_order c) = map_of (table_names c)"
proof -
  from assms have n: "table_names c = map (\<lambda>(oid, ti). (ti_name ti, oid)) (tables c)" and d: "distinct (map fst (table_names c))"
    by (auto simp: cat_inv_def)
  show m: "mset (names_in_order c) = mset (table_names c)"
    using mset_tables_in_order [OF assms] by (simp add: names_in_order_def n)
  then have "mset (map fst (names_in_order c)) = mset (map fst (table_names c))" by simp
  then show d': "distinct (map fst (names_in_order c))" using d by (metis mset_eq_imp_distinct_iff)
  show "map_of (names_in_order c) = map_of (table_names c)"
    using map_of_inject_set [OF d' d] mset_eq_setD [OF m] by simp
qed

lemma map_of_map_key: "map_of (map (\<lambda>t. (fst t, g t)) xs) k = map_option (\<lambda>v. g (k, v)) (map_of xs k)"
  by (induction xs) auto

lemma LoadCatalog_bytes:
  assumes inv: "cat_inv c" and st: "storable_catalog c" and fs: "fs catalog_path = Some (catalog_bytes c)"
  shows "LoadCatalog catalog_path (new_Catalog e fs) = \<lparr>env = e,
    tables = map (\<lambda>t. (fst t, restored fs (table_entry t))) (tables_in_order c),
    table_names = names_in_order c, next_table_oid = next_table_oid c, files = fs\<rparr>"
proof -
  let ?es = "map table_entry (tables_in_order c)"
  let ?c0 = "(new_Catalog e fs)\<lparr>next_table_oid := next_table_oid c\<rparr>"
  note o = tables_in_order_facts [OF inv]
  note d = o(3) names_in_order_facts(2) [OF inv]
  have len: "unat (word_of_nat (length ?es) :: u32) = length ?es"
    using st o(2) by (simp add: storable_catalog_def unat_of_nat)
  have names: "map te_name ?es = map fst (names_in_order c)" by (simp add: names_in_order_def comp_def case_prod_beta)
  have oids: "map te_oid ?es = map fst (tables_in_order c)" by (simp add: comp_def)
  have "load_tables (length ?es) \<lparr>in_rest = concat (map write_entry ?es) @ [], in_ok = True\<rparr> ?c0 = fold load_table ?es ?c0"
    by (rule load_tables_fold) (use st o(1) in \<open>auto simp: storable_catalog_def\<close>)
  also have "\<dots> = ?c0\<lparr>tables := tables ?c0 @ map (\<lambda>e. (te_oid e, restored (files ?c0) e)) ?es,
      table_names := table_names ?c0 @ map (\<lambda>e. (te_name e, te_oid e)) ?es\<rparr>"
  proof (rule fold_load_table)
    show "distinct (map te_oid ?es)" unfolding oids by (rule d(1))
    show "distinct (map te_name ?es)" unfolding names by (rule d(2))
  qed (simp add: closed_def new_Catalog_def)
  also have "map (\<lambda>e. (te_name e, te_oid e)) ?es = names_in_order c" by (simp add: names_in_order_def comp_def case_prod_beta)
  finally show ?thesis
    using fs len db_files_new [of e fs, unfolded new_Catalog_def]
    by (simp add: LoadCatalog_def catalog_bytes_def write_counted_def u32.rd_wr new_Catalog_def comp_def)
qed

lemma restored_entry:
  assumes "info_ok (oid, ti)"
  shows "table_entry (oid, restored fs (table_entry (oid, ti))) = table_entry (oid, ti)"
proof -
  have "page_ids (rm_reopen dm ids n) = ids" "rm_GetNextPageId (rm_reopen dm ids n) = n" for dm ids n
    by (simp_all add: rm_reopen_def rm_SetNextPageId_def SetPageIds_def rm_GetNextPageId_def SetNextPageId_def)
  moreover have "columns (new_Schema (columns (ti_schema ti))) = columns (ti_schema ti)"
    using new_Schema_spec(1) assms by (simp add: info_ok_def)
  ultimately show ?thesis by (simp add: table_entry_def restored_def)
qed

lemma LoadCatalog_entries:
  assumes "cat_inv c" and "storable_catalog c" and "fs catalog_path = Some (catalog_bytes c)"
  shows "mset (map table_entry (tables (LoadCatalog catalog_path (new_Catalog e fs)))) = mset (map table_entry (tables c))"
proof -
  have "table_entry (oid, restored fs (table_entry (oid, ti))) = table_entry (oid, ti)" if "(oid, ti) \<in> set (tables_in_order c)" for oid ti
    using that restored_entry cat_inv_info [OF assms(1)] tables_in_order_facts(1) [OF assms(1)] by auto
  then have "map table_entry (tables (LoadCatalog catalog_path (new_Catalog e fs))) = map table_entry (tables_in_order c)"
    unfolding LoadCatalog_bytes [where e = e and fs = fs, OF assms] by auto
  then show ?thesis using mset_tables_in_order [OF assms(1)] by simp
qed

subsection \<open>A flushed database survives a restart\<close>

text \<open>The pages of every table are on disk as its pool shows them.\<close>

definition flushed :: "Catalog \<Rightarrow> bool" where
  "flushed c \<longleftrightarrow> (\<forall>(oid, ti) \<in> set (tables c). \<exists>rm. rm_inv True rm \<and> rm_Flush rm = Some (ti_table ti))"

lemma rm_reopen_flushed:
  assumes "rm_inv True rm" and "rm_Flush rm = Some rm'"
  defines "rm2 \<equiv> rm_reopen (disk_manager (buffer_pool_manager rm')) (page_ids rm') (rm_GetNextPageId rm')"
  shows "rm_inv True rm2" and "heap_of rm2 = heap_of rm'" and "page_ids rm2 = page_ids rm'"
proof -
  from rm_Flush_spec [OF assms(1)] assms(2) have f: "heap_of rm' = heap_of rm" "page_ids rm' = page_ids rm"
    "rm_GetNextPageId rm' = rm_GetNextPageId rm" by auto
  from rm_reopen_spec [OF assms(1,2)] show "rm_inv True rm2" "heap_of rm2 = heap_of rm'" "page_ids rm2 = page_ids rm'"
    by (simp_all add: rm2_def f)
qed

lemma LoadCatalog_flushed:
  assumes inv: "cat_inv c" and st: "storable_catalog c" and fl: "flushed c"
    and cat: "files c catalog_path = Some (catalog_bytes c)" and e: "visits_all e"
  defines "c2 \<equiv> LoadCatalog catalog_path (new_Catalog e (db_files c))"
  shows "cat_inv c2" and "cat_abs c2 = cat_abs c" and "next_table_oid c2 = next_table_oid c"
proof -
  let ?fs = "db_files c"
  have "?fs catalog_path = Some (catalog_bytes c)" using db_files_other [OF inv, of catalog_path] cat by simp
  from LoadCatalog_bytes [where fs = ?fs and e = e, OF inv st this] have
    c2: "tables c2 = map (\<lambda>t. (fst t, restored ?fs (table_entry t))) (tables_in_order c)"
      "table_names c2 = names_in_order c" "next_table_oid c2 = next_table_oid c" "env c2 = e"
    by (simp_all add: c2_def)
  then show "next_table_oid c2 = next_table_oid c" by simp
  note io = tables_in_order_facts [OF inv]
  note names = names_in_order_facts [OF inv, folded c2(2)]
  note d = io(3) names(2) and n = mset_eq_setD [OF names(1)]
  have r: "info_ok (oid, restored ?fs (table_entry (oid, ti))) \<and>
      heap_of (ti_table (restored ?fs (table_entry (oid, ti)))) = heap_of (ti_table ti) \<and>
      ti_schema (restored ?fs (table_entry (oid, ti))) = ti_schema ti \<and>
      ti_name (restored ?fs (table_entry (oid, ti))) = ti_name ti" if t: "(oid, ti) \<in> set (tables c)" for oid ti
  proof -
    note ok = cat_inv_info [OF inv t]
    from fl t obtain rm where rm: "rm_inv True rm" "rm_Flush rm = Some (ti_table ti)" by (auto simp: flushed_def)
    have "\<lparr>filename = table_file oid, contents = ?fs (table_file oid)\<rparr> = table_disk ti"
      using db_files_table [OF inv t] ok by (simp add: info_ok_def)
    with rm_reopen_flushed [OF rm] ok show ?thesis
      by (simp add: restored_def info_ok_def table_disk_def rm_reopen_disk)
  qed
  have "info_ok t" if "t \<in> set (tables c2)" for t using that r io(1) by (auto simp: c2)
  then show inv2: "cat_inv c2"
    using inv r d io(1) e
    by (auto simp: cat_inv_def c2 names_in_order_def comp_def list_all_iff case_prod_beta intro!: map_cong)
  show "cat_abs c2 = cat_abs c"
  proof
    fix x
    show "cat_abs c2 x = cat_abs c x"
    proof (cases "tab_of c x")
      case None
      then have "tab_of c2 x = None"
        using n by (simp add: tab_of_None [OF inv] tab_of_None [OF inv2])
      with None show ?thesis by (simp add: cat_abs_def)
    next
      case (Some ti)
      then obtain oid where o: "(oid, ti) \<in> set (tables c)" "ti_name ti = x" by (auto simp: tab_of_iff [OF inv])
      then have "tab_of c2 x = Some (restored ?fs (table_entry (oid, ti)))"
        using r [OF o(1)] unfolding tab_of_iff [OF inv2] by (force simp: c2 io(1))
      with Some r [OF o(1)] show ?thesis by (simp add: cat_abs_def)
    qed
  qed
qed

end
