(* ===== verification/Catalog_Commit.thy ===== *)
theory Catalog_Commit
  imports Executor_Facts Catalog_Load
begin

section \<open>COMMIT flushes every table\<close>

text \<open>
  \<open>ExecuteCommit\<close> flushes every table and saves the catalog; a catalog loaded over the files it leaves
  abstracts to the same tables.
\<close>

lemma flush_one:
  assumes inv: "cat_inv c" and ti: "(ti_oid ti, ti) \<in> set (tables c)"
  shows "\<exists>tm. rm_Flush (ti_table ti) = Some tm \<and> rm_inv True (ti_table ti) \<and> cat_inv (set_table (ti_oid ti) tm c) \<and>
    cat_abs (set_table (ti_oid ti) tm c) = cat_abs c \<and>
    map table_entry (tables (set_table (ti_oid ti) tm c)) = map table_entry (tables c)"
proof -
  from cat_inv_info [OF inv ti] have ok: "rm_inv True (ti_table ti)" by (simp add: info_ok_def)
  from rm_Flush_spec [OF ok] obtain tm where f: "rm_Flush (ti_table ti) = Some tm" "rm_inv True tm"
    "heap_of tm = heap_of (ti_table ti)" "page_ids tm = page_ids (ti_table ti)"
    "rm_GetNextPageId tm = rm_GetNextPageId (ti_table ti)" by blast
  have t: "tab_of c (ti_name ti) = Some ti" using ti tab_of_iff [OF inv] by blast
  note s = set_table_spec [OF inv t f(2) rm_Flush_fname [OF f(1)]]
  have "cat_abs (set_table (ti_oid ti) tm c) = cat_abs c"
    using s(3) t f(3) by (auto simp: cat_abs_def fun_eq_iff)
  moreover have "map table_entry (tables (set_table (ti_oid ti) tm c)) = map table_entry (tables c)"
  proof -
    from inv have d: "distinct (map fst (tables c))" by (simp add: cat_inv_def)
    have "table_entry (k, if k = ti_oid ti then x\<lparr>ti_table := tm\<rparr> else x) = table_entry (k, x)"
      if x: "(k, x) \<in> set (tables c)" for k x
    proof (cases "k = ti_oid ti")
      case True
      then have "x = ti" using x ti eq_key_imp_eq_value [OF d] by blast
      with f(4,5) True show ?thesis by (simp add: table_entry_def)
    qed simp
    then show ?thesis by (auto simp: set_table_def)
  qed
  ultimately show ?thesis using f ok s(1) by blast
qed

definition flushed_info :: "TableInfo \<Rightarrow> bool" where
  "flushed_info ti \<longleftrightarrow> (\<exists>rm. rm_inv True rm \<and> rm_Flush rm = Some (ti_table ti))"

lemma flush_tables_spec:
  assumes "cat_inv c" and "\<forall>ti \<in> set tis. (ti_oid ti, ti) \<in> set (tables c)" and "distinct (map ti_oid tis)"
  shows "\<exists>c'. flush_tables tis c = Some c' \<and> cat_inv c' \<and> cat_abs c' = cat_abs c \<and>
    map table_entry (tables c') = map table_entry (tables c) \<and> next_table_oid c' = next_table_oid c \<and> files c' = files c \<and>
    env c' = env c \<and> (\<forall>(oid, ti) \<in> set (tables c'). if oid \<in> ti_oid ` set tis then flushed_info ti else (oid, ti) \<in> set (tables c))"
  using assms
proof (induction tis arbitrary: c)
  case (Cons ti tis)
  from flush_one [OF Cons.prems(1)] Cons.prems(2) obtain tm where
    f: "rm_Flush (ti_table ti) = Some tm" "rm_inv True (ti_table ti)" "cat_inv (set_table (ti_oid ti) tm c)"
      "cat_abs (set_table (ti_oid ti) tm c) = cat_abs c"
      "map table_entry (tables (set_table (ti_oid ti) tm c)) = map table_entry (tables c)" by force
  let ?c = "set_table (ti_oid ti) tm c"
  have m: "(oid, x) \<in> set (tables ?c) \<longleftrightarrow>
      (\<exists>y. (oid, y) \<in> set (tables c) \<and> x = (if oid = ti_oid ti then y\<lparr>ti_table := tm\<rparr> else y))" for oid x
    by (force simp: set_table_def image_iff)
  have "\<forall>x \<in> set tis. (ti_oid x, x) \<in> set (tables ?c)"
  proof
    fix x assume x: "x \<in> set tis"
    then have "ti_oid x \<in> set (map ti_oid tis)" by simp
    then have "ti_oid x \<noteq> ti_oid ti" using Cons.prems(3) by auto
    with x Cons.prems(2) show "(ti_oid x, x) \<in> set (tables ?c)" unfolding m by auto
  qed
  from Cons.IH [OF f(3) this] Cons.prems(3) obtain c' where
    c': "flush_tables tis ?c = Some c'" "cat_inv c'" "cat_abs c' = cat_abs ?c"
      "map table_entry (tables c') = map table_entry (tables ?c)" "next_table_oid c' = next_table_oid ?c" "files c' = files ?c"
      "env c' = env ?c" "\<forall>(oid, x) \<in> set (tables c'). if oid \<in> ti_oid ` set tis then flushed_info x else (oid, x) \<in> set (tables ?c)" by auto
  have "if oid \<in> ti_oid ` set (ti # tis) then flushed_info x else (oid, x) \<in> set (tables c)"
    if x: "(oid, x) \<in> set (tables c')" for oid x
  proof (cases "oid \<in> ti_oid ` set tis")
    case True
    with c'(8) x show ?thesis by auto
  next
    case False
    with c'(8) x have "(oid, x) \<in> set (tables ?c)" by auto
    then obtain y where "(oid, y) \<in> set (tables c)" "x = (if oid = ti_oid ti then y\<lparr>ti_table := tm\<rparr> else y)"
      unfolding m by blast
    with False f(1,2) show ?thesis by (auto simp: flushed_info_def)
  qed
  then have "\<forall>(oid, x) \<in> set (tables c'). if oid \<in> ti_oid ` set (ti # tis) then flushed_info x else (oid, x) \<in> set (tables c)"
    by blast
  with c' f show ?case by (auto simp: set_table_def)
qed auto

lemma ExecuteCommit_spec:
  assumes inv: "cat_inv c"
  shows "\<exists>c'. ExecuteCommit c = Some (Inr \<lparr>success = True,
      message = ''COMMIT: '' @ to_string (int (length (tables c))) @ '' table(s) flushed to disk.'', rows = []\<rparr>, c') \<and>
    cat_inv c' \<and> cat_abs c' = cat_abs c \<and> next_table_oid c' = next_table_oid c \<and> flushed c' \<and> env c' = env c \<and>
    files c' = (if opens_to_write (env c) catalog_path then (files c)(catalog_path \<mapsto> catalog_bytes c') else files c) \<and> map table_entry (tables c') = map table_entry (tables c)"
proof -
  have o: "ti_oid ti = oid" if "(oid, ti) \<in> set (tables c)" for oid ti
    using cat_inv_info [OF inv that] by (simp add: info_ok_def)
  note io = tables_in_order_facts [OF inv]
  have ids: "map ti_oid (map snd (tables_in_order c)) = map fst (tables_in_order c)" using o io(1) by auto
  have "\<forall>ti \<in> set (GetAllTables c). (ti_oid ti, ti) \<in> set (tables c)" using o io(1) by (auto simp: GetAllTables_def)
  moreover have "distinct (map ti_oid (GetAllTables c))"
    using io(3) unfolding GetAllTables_def ids .
  ultimately obtain c1 where c1: "flush_tables (GetAllTables c) c = Some c1" "cat_inv c1" "cat_abs c1 = cat_abs c"
    "map table_entry (tables c1) = map table_entry (tables c)" "next_table_oid c1 = next_table_oid c"
    "files c1 = files c" "env c1 = env c" "\<forall>(oid, ti) \<in> set (tables c1). if oid \<in> ti_oid ` set (GetAllTables c) then flushed_info ti else (oid, ti) \<in> set (tables c)"
    using flush_tables_spec [OF inv] by blast
  have "map fst (tables c1) = map fst (tables c)"
    using arg_cong [OF c1(4), of "map te_oid"] by (simp add: comp_def)
  then have "set (map fst (tables c1)) = set (map ti_oid (GetAllTables c))"
    using ids io(1) by (metis GetAllTables_def set_map)
  then have "oid \<in> ti_oid ` set (GetAllTables c)" if "(oid, ti) \<in> set (tables c1)" for oid ti
    using that by force
  with c1(8) have "flushed (SaveCatalog catalog_path c1)" by (fastforce simp: flushed_def flushed_info_def)
  then show ?thesis
    using c1 cat_inv_Save [OF c1(2)] io(2) SaveCatalog_files [of catalog_path c1]
    by (simp add: ExecuteCommit_def GetAllTables_def)
qed

text \<open>No statement changes the environment.\<close>

lemma set_table_env [simp]: "env (set_table oid tm c) = env c"
  by (simp add: set_table_def)

lemma flush_tables_env: "flush_tables tis c = Some c' \<Longrightarrow> env c' = env c"
  by (induction tis arbitrary: c) (auto split: bind_splits)

lemma Execute_env:
  assumes "Execute stmt c = Some (r, c')"
  shows "env c' = env c"
proof (cases stmt)
  case (CreateTableStatement n cols)
  with assms show ?thesis by (auto simp: Execute_def ExecuteCreate_def CreateTable_def Let_def split: if_splits)
next
  case (InsertStatement n raws)
  with assms show ?thesis by (auto simp: Execute_def ExecuteInsert_def split: sum.splits bind_splits)
next
  case (SelectStatement n)
  with assms show ?thesis by (auto simp: Execute_def ExecuteSelect_def split: sum.splits bind_splits)
next
  case (DeleteStatement n col val)
  with assms show ?thesis
    by (auto simp: Execute_def ExecuteDelete_def delete_matching_def split: sum.splits bind_splits if_splits option.splits)
next
  case CommitStatement
  with assms show ?thesis by (auto simp: Execute_def ExecuteCommit_def Let_def dest: flush_tables_env split: bind_splits)
qed

text \<open>So a committed database survives a restart, if the catalog could be written. If not, the client is told the same.\<close>

lemma ExecuteCommit_unwritable:
  assumes "cat_inv c" and "\<not> opens_to_write (env c) catalog_path"
  shows "\<exists>c'. ExecuteCommit c = Some (Inr \<lparr>success = True,
      message = ''COMMIT: '' @ to_string (int (length (tables c))) @ '' table(s) flushed to disk.'', rows = []\<rparr>, c') \<and> files c' = files c"
  using ExecuteCommit_spec [OF assms(1)] assms(2) by force

lemma commit_restart:
  assumes inv: "cat_inv c" and st: "storable_catalog c" and w: "opens_to_write (env c) catalog_path" and e: "visits_all e"
  shows "\<exists>r c'. ExecuteCommit c = Some (Inr r, c') \<and> success r \<and>
    cat_inv (LoadCatalog catalog_path (new_Catalog e (db_files c'))) \<and>
    cat_abs (LoadCatalog catalog_path (new_Catalog e (db_files c'))) = cat_abs c"
proof -
  from ExecuteCommit_spec [OF inv] obtain r c' where c': "ExecuteCommit c = Some (Inr r, c')" "success r"
    "cat_inv c'" "cat_abs c' = cat_abs c" "flushed c'" "files c' catalog_path = Some (catalog_bytes c')"
    "map table_entry (tables c') = map table_entry (tables c)" using w by force
  have st_iff: "storable_catalog d \<longleftrightarrow> list_all storable_entry (map table_entry (tables d)) \<and>
      length (map table_entry (tables d)) < 2 ^ 32" for d by (simp add: storable_catalog_def list_all_iff)
  have "storable_catalog c'" using st unfolding st_iff c'(7) .
  from LoadCatalog_flushed [OF c'(3) this c'(5,6) e] c' show ?thesis by auto
qed

end
