(* ===== verification/Database.thy ===== *)
theory Database
  imports Catalog_Commit
begin

section \<open>The database as relations\<close>

text \<open>
  What a client may rely on: a database is a finite map from table names to relations, a relation
  is a list of columns and a multiset of printed rows, and every statement is a step on it
  (\<open>db_step\<close>). The executor over the catalog, the heap files, the buffer pools and the disk
  refines it (\<^verbatim>\<open>interpretation db\<close>).
\<close>

type_synonym relation = "Column list \<times> string list multiset"

type_synonym database = "string \<Rightarrow> relation option"

subsection \<open>The specification\<close>

definition unknown_table :: "string \<Rightarrow> QueryResult" where
  "unknown_table n = \<lparr>success = False, message = ''Error: Table '' @ quoted n @ '' not found in catalog.'', rows = []\<rparr>"

definition column_at :: "Column list \<Rightarrow> string \<Rightarrow> nat option" where
  "column_at cols col = find (\<lambda>i. column_name (cols ! i) = col) [0..<length cols]"

text \<open>The condition of a \<^verbatim>\<open>WHERE\<close>; an empty column name stands for none. An \<^verbatim>\<open>INSERT\<close> into a table without columns
  is answered and stores nothing.\<close>

definition row_hit :: "Column list \<Rightarrow> string \<Rightarrow> string \<Rightarrow> string list \<Rightarrow> bool" where
  "row_hit cols col val row \<longleftrightarrow> col = [] \<or> row ! the (column_at cols col) = val"

inductive db_step :: "database \<Rightarrow> Statement \<Rightarrow> QueryResult result \<Rightarrow> database \<Rightarrow> bool" where
  db_create: "db n = None \<Longrightarrow> db_step db (CreateTableStatement n cols)
     (Inr \<lparr>success = True, message = ''Table '' @ quoted n @ '' created.'', rows = []\<rparr>) (db(n \<mapsto> (cols, {#})))"
| db_create_twice: "db n \<noteq> None \<Longrightarrow> db_step db (CreateTableStatement n cols)
     (Inr \<lparr>success = False, message = ''Error: Table '' @ quoted n @ '' already exists in catalog.'', rows = []\<rparr>) db"
| db_insert: "db n = Some (cols, R) \<Longrightarrow> cols \<noteq> [] \<Longrightarrow> parse_row cols raws = Inr row \<Longrightarrow> db_step db (InsertStatement n raws)
     (Inr \<lparr>success = True, message = ''1 row inserted.'', rows = []\<rparr>) (db(n \<mapsto> (cols, add_mset row R)))"
| db_insert_nothing: "db n = Some ([], R) \<Longrightarrow> db_step db (InsertStatement n [])
     (Inr \<lparr>success = True, message = ''1 row inserted.'', rows = []\<rparr>) db"
| db_insert_throws: "db n = Some (cols, R) \<Longrightarrow> parse_row cols raws = Inl e \<Longrightarrow>
     db_step db (InsertStatement n raws) (catch_runtime_error (Inl e)) db"
| db_select: "db n = Some (cols, R) \<Longrightarrow> mset rs = R \<Longrightarrow> db_step db (SelectStatement n)
     (Inr \<lparr>success = True, message = to_string (int (length rs)) @ '' rows returned.'', rows = rs\<rparr>) db"
| db_delete: "db n = Some (cols, R) \<Longrightarrow> col = [] \<or> column_at cols col \<noteq> None \<Longrightarrow>
     H = filter_mset (row_hit cols col val) R \<Longrightarrow> db_step db (DeleteStatement n col val)
     (Inr \<lparr>success = True, message = to_string (int (size H)) @ '' row(s) deleted.'', rows = []\<rparr>) (db(n \<mapsto> (cols, R - H)))"
| db_delete_unknown: "db n = Some (cols, R) \<Longrightarrow> col \<noteq> [] \<Longrightarrow> column_at cols col = None \<Longrightarrow>
     db_step db (DeleteStatement n col val)
     (Inr \<lparr>success = False, message = ''Error: Column '' @ quoted col @ '' not found.'', rows = []\<rparr>) db"
| db_commit: "db_step db CommitStatement (Inr \<lparr>success = True,
     message = ''COMMIT: '' @ to_string (int (card (dom db))) @ '' table(s) flushed to disk.'', rows = []\<rparr>) db"
| db_insert_nowhere: "db n = None \<Longrightarrow> db_step db (InsertStatement n raws) (Inr (unknown_table n)) db"
| db_select_nowhere: "db n = None \<Longrightarrow> db_step db (SelectStatement n) (Inr (unknown_table n)) db"
| db_delete_nowhere: "db n = None \<Longrightarrow> db_step db (DeleteStatement n col val) (Inr (unknown_table n)) db"

inductive_cases db_selectE: "db_step db (SelectStatement n) r db'"

text \<open>The state after a statement is determined; only the order of the rows of an answer is not.\<close>

fun db_next :: "database \<Rightarrow> Statement \<Rightarrow> database" where
  "db_next db (CreateTableStatement n cols) = (if db n = None then db(n \<mapsto> (cols, {#})) else db)"
| "db_next db (InsertStatement n raws) = (case db n of None \<Rightarrow> db
     | Some (cols, R) \<Rightarrow> (case parse_row cols raws of
         Inr row \<Rightarrow> if cols = [] then db else db(n \<mapsto> (cols, add_mset row R))
       | Inl _ \<Rightarrow> db))"
| "db_next db (DeleteStatement n col val) = (case db n of None \<Rightarrow> db
     | Some (cols, R) \<Rightarrow> if col = [] \<or> column_at cols col \<noteq> None
         then db(n \<mapsto> (cols, R - filter_mset (row_hit cols col val) R)) else db)"
| "db_next db stmt = db"

lemma db_step_next: "db_step db stmt r db' \<Longrightarrow> db' = db_next db stmt"
  by (auto elim!: db_step.cases)

subsection \<open>The abstraction of a catalog\<close>

definition db_abs :: "Catalog \<Rightarrow> database" where
  "db_abs c n = map_option (\<lambda>(cols, h). (cols, table_rows cols h)) (cat_abs c n)"

definition db_inv :: "Catalog \<Rightarrow> bool" where
  "db_inv c \<longleftrightarrow> cat_inv c \<and> (\<forall>n cols h. cat_abs c n = Some (cols, h) \<longrightarrow> tuples_ok cols h)"

text \<open>Statements within the contract: columns of the two types in number; object ids, record sizes
  and page ids within their ranges; and not more values than the table has columns.\<close>

definition db_adm :: "Statement \<Rightarrow> Catalog \<Rightarrow> bool" where
  "db_adm stmt c = (case stmt of
     CreateTableStatement n cols \<Rightarrow> good_columns cols \<and> unat (next_table_oid c) + 1 < 2 ^ 32
   | InsertStatement n raws \<Rightarrow> (case tab_of c n of None \<Rightarrow> True | Some ti \<Rightarrow>
       (let cols = columns (ti_schema ti) in length raws \<le> length cols \<and>
         sum_list (map clen cols) \<le> 4084 \<and> page_addr (rm_GetNextPageId (ti_table ti))))
   | _ \<Rightarrow> True)"

lemma db_abs_tab: "tab_of c n = Some ti \<Longrightarrow>
    db_abs c n = Some (columns (ti_schema ti), table_rows (columns (ti_schema ti)) (heap_of (ti_table ti)))"
  by (simp add: db_abs_def cat_abs_def)

lemma db_abs_none: "db_abs c n = None \<longleftrightarrow> tab_of c n = None"
  by (simp add: db_abs_def cat_abs_def)

lemma db_abs_upd: "cat_abs c' = (cat_abs c)(n \<mapsto> (cols, h)) \<Longrightarrow> db_abs c' = (db_abs c)(n \<mapsto> (cols, table_rows cols h))"
  by (simp add: db_abs_def fun_eq_iff)

lemma db_abs_cong: "cat_abs c' = cat_abs c \<Longrightarrow> db_abs c' = db_abs c"
  by (simp add: db_abs_def fun_eq_iff)

lemma db_inv_upd:
  "db_inv c \<Longrightarrow> cat_inv c' \<Longrightarrow> cat_abs c' = (cat_abs c)(n \<mapsto> (cols, h)) \<Longrightarrow> tuples_ok cols h \<Longrightarrow> db_inv c'"
  by (auto simp: db_inv_def)

lemma db_inv_cong: "db_inv c \<Longrightarrow> cat_inv c' \<Longrightarrow> cat_abs c' = cat_abs c \<Longrightarrow> db_inv c'"
  by (simp add: db_inv_def)

lemma cat_abs_new: "cat_abs (new_Catalog e fs) = Map.empty"
  by (simp add: cat_abs_def tab_of_def new_Catalog_def fun_eq_iff)

lemma db_inv_new: "visits_all e \<Longrightarrow> db_inv (new_Catalog e fs)" "db_abs (new_Catalog e fs) = Map.empty"
  by (simp_all add: db_inv_def cat_inv_new db_abs_def cat_abs_new fun_eq_iff)

text \<open>What is known of a table that is found.\<close>

lemma db_table:
  assumes inv: "db_inv c" and t: "tab_of c n = Some ti"
  defines "cols \<equiv> columns (ti_schema ti)"
  shows "good_columns cols" and "ti_schema ti = new_Schema cols" and "rm_inv True (ti_table ti)"
    and "tuples_ok cols (heap_of (ti_table ti))"
proof -
  from inv have c: "cat_inv c" by (simp add: db_inv_def)
  from tab_of_oid [OF c t] show "good_columns cols" "ti_schema ti = new_Schema cols" "rm_inv True (ti_table ti)"
    by (simp_all add: info_ok_def cols_def)
  from inv t show "tuples_ok cols (heap_of (ti_table ti))" by (auto simp: db_inv_def cat_abs_def cols_def)
qed

text \<open>A statement that leaves one table's manager behind.\<close>

lemma db_set_table:
  assumes inv: "db_inv c" and t: "tab_of c n = Some ti" and tm: "rm_inv True tm" "fname tm = fname (ti_table ti)"
    and ok: "tuples_ok (columns (ti_schema ti)) (heap_of tm)"
  shows "db_inv (set_table (ti_oid ti) tm c)"
    and "db_abs (set_table (ti_oid ti) tm c) =
      (db_abs c)(n \<mapsto> (columns (ti_schema ti), table_rows (columns (ti_schema ti)) (heap_of tm)))"
proof -
  from inv have "cat_inv c" by (simp add: db_inv_def)
  note s = set_table_spec [OF this t tm]
  show "db_inv (set_table (ti_oid ti) tm c)" by (rule db_inv_upd [OF inv s(1,3) ok])
  show "db_abs (set_table (ti_oid ti) tm c) =
      (db_abs c)(n \<mapsto> (columns (ti_schema ti), table_rows (columns (ti_schema ti)) (heap_of tm)))"
    by (rule db_abs_upd [OF s(3)])
qed

lemma db_same_table:
  assumes inv: "db_inv c" and t: "tab_of c n = Some ti" and s: "rm_same True (ti_table ti) tm"
  shows "db_inv (set_table (ti_oid ti) tm c)" and "db_abs (set_table (ti_oid ti) tm c) = db_abs c"
proof -
  from s have tm: "rm_inv True tm" "fname tm = fname (ti_table ti)" "heap_of tm = heap_of (ti_table ti)"
    by (simp_all add: rm_same_def)
  with db_set_table [OF inv t tm(1,2)] db_table(4) [OF inv t] db_abs_tab [OF t]
  show "db_inv (set_table (ti_oid ti) tm c)" "db_abs (set_table (ti_oid ti) tm c) = db_abs c"
    by (simp_all add: map_upd_triv)
qed

lemma GetTable_db:
  assumes "db_inv c"
  shows "GetTable n c = (case tab_of c n of
      None \<Rightarrow> Inl (Runtime_error (''Error: Table '' @ quoted n @ '' not found in catalog.'')) | Some ti \<Rightarrow> Inr ti)"
  using GetTable_tab_of assms by (simp add: db_inv_def)

end
