(* ===== verification/Database_Refinement.thy ===== *)
theory Database_Refinement
  imports Database Simulation
begin

section \<open>The executor refines the relational database\<close>

text \<open>
  One lemma per kind of statement, and their composition as an interpretation of the locale
  \<open>simulation\<close>.
\<close>

lemma card_tables:
  assumes "cat_inv c"
  shows "card (dom (db_abs c)) = length (tables c)"
proof -
  from assms have n: "table_names c = map (\<lambda>(oid, ti). (ti_name ti, oid)) (tables c)"
    and d: "distinct (map fst (table_names c))" unfolding cat_inv_def by blast+
  have "x \<in> dom (db_abs c) \<longleftrightarrow> x \<in> set (map fst (table_names c))" for x
    unfolding domIff db_abs_none tab_of_None [OF assms] by blast
  then have "dom (db_abs c) = set (map fst (table_names c))" by blast
  with distinct_card [OF d] show ?thesis by (simp add: n)
qed

lemma commit_refines:
  assumes inv: "db_inv c"
  shows "\<exists>r c'. ExecuteCommit c = Some (r, c') \<and> db_inv c' \<and> db_step (db_abs c) CommitStatement r (db_abs c')"
proof -
  from inv have c: "cat_inv c" by (simp add: db_inv_def)
  from ExecuteCommit_spec [OF c] obtain c' where
    c': "ExecuteCommit c = Some (Inr \<lparr>success = True,
      message = ''COMMIT: '' @ to_string (int (length (tables c))) @ '' table(s) flushed to disk.'', rows = []\<rparr>, c')"
      "cat_inv c'" "cat_abs c' = cat_abs c" by blast
  from db_inv_cong [OF inv c'(2,3)] c'(1) db_commit [of "db_abs c"] card_tables [OF c] db_abs_cong [OF c'(3)]
  show ?thesis by auto
qed

lemma create_refines:
  assumes inv: "db_inv c" and adm: "good_columns cols" "unat (next_table_oid c) + 1 < 2 ^ 32"
  shows "\<exists>r c'. ExecuteCreate n cols c = Some (r, c') \<and> db_inv c' \<and>
    db_step (db_abs c) (CreateTableStatement n cols) r (db_abs c')"
proof (cases "tab_of c n")
  case None
  from inv have c: "cat_inv c" by (simp add: db_inv_def)
  from CreateTable_spec [OF c None adm] obtain oid c' where
    c': "CreateTable n (new_Schema cols) c = (Inr oid, c')" "cat_inv c'" "cat_abs c' = (cat_abs c)(n \<mapsto> (cols, []))" by blast
  have "db_inv c'" by (rule db_inv_upd [OF inv c'(2,3)]) (simp add: tuples_ok_def)
  moreover have "db_abs c' = (db_abs c)(n \<mapsto> (cols, {#}))"
    using db_abs_upd [OF c'(3)] by (simp add: table_rows_def)
  ultimately show ?thesis
    using c'(1) db_create [of "db_abs c" n cols] None by (auto simp: ExecuteCreate_def db_abs_none)
next
  case (Some ti)
  from inv have c: "cat_inv c" by (simp add: db_inv_def)
  have "db_abs c n \<noteq> None" using Some by (simp add: db_abs_none)
  then show ?thesis
    using CreateTable_exists [OF c, of n "new_Schema cols"] Some inv db_create_twice [of "db_abs c" n cols]
    by (simp add: ExecuteCreate_def)
qed

lemma select_refines:
  assumes inv: "db_inv c"
  shows "\<exists>r c'. ExecuteSelect n c = Some (r, c') \<and> db_inv c' \<and> db_step (db_abs c) (SelectStatement n) r (db_abs c')"
proof (cases "tab_of c n")
  case None
  then show ?thesis
    using db_select_nowhere [of "db_abs c" n] inv GetTable_db [OF inv]
    by (simp add: ExecuteSelect_def db_abs_none unknown_table_def)
next
  case (Some ti)
  let ?cols = "columns (ti_schema ti)" and ?h = "heap_of (ti_table ti)"
  note t = db_table [OF inv Some]
  from select_scan [OF t(3,1,4)] obtain rs tm where
    s: "table_scan (select_body (new_Schema ?cols)) [] (ti_table ti) = Some (Inr rs, tm)"
      "rs = map (row_at ?cols ?h) (live_rids ?h)" "rm_same True (ti_table ti) tm" by blast
  note same = db_same_table [OF inv Some s(3)]
  have "mset rs = table_rows ?cols ?h" using s(2) mset_rows [OF t(3)] by simp
  from db_select [of "db_abs c" n ?cols, OF db_abs_tab [OF Some] this] same s(1) GetTable_db [OF inv] Some t(2)
  show ?thesis by (auto simp: ExecuteSelect_def)
qed

text \<open>Adding a record adds its row.\<close>

lemma table_rows_insert:
  assumes "finite (dom (heap_get h))" and "heap_get h rid = None" and "heap_get h' = (heap_get h)(rid \<mapsto> d)"
  shows "table_rows cols h' = add_mset (tuple_texts cols d) (table_rows cols h)"
proof -
  have "image_mset (row_at cols h') (mset_set (dom (heap_get h))) = image_mset (row_at cols h) (mset_set (dom (heap_get h)))"
    using assms by (intro image_mset_cong) (auto simp: row_at_def)
  with assms show ?thesis by (simp add: table_rows_def row_at_def domIff)
qed

lemma insert_without_columns:
  assumes inv: "db_inv c" and ti: "tab_of c n = Some ti" "columns (ti_schema ti) = []"
  shows "ExecuteInsert n [] c = Some (Inr \<lparr>success = True, message = ''1 row inserted.'', rows = []\<rparr>,
      set_table (ti_oid ti) (ti_table ti) c)"
    and "db_inv (set_table (ti_oid ti) (ti_table ti) c)" and "db_abs (set_table (ti_oid ti) (ti_table ti) c) = db_abs c"
proof -
  note t = db_table [OF inv ti(1), unfolded ti(2)]
  have "fits_columns [] []" by (simp add: fits_columns_def)
  from new_Tuple_texts [OF t(1) this] t(2) have "new_Tuple [] (ti_schema ti) = Some (Inr [])" by auto
  then show "ExecuteInsert n [] c = Some (Inr \<lparr>success = True, message = ''1 row inserted.'', rows = []\<rparr>,
      set_table (ti_oid ti) (ti_table ti) c)"
    using GetTable_db [OF inv, of n] ti(1)
    by (simp add: ExecuteInsert_def tm_InsertTuple_def tuple_GetLength_def rm_Insert_def)
  have "rm_same True (ti_table ti) (ti_table ti)" using t(3) by (simp add: rm_same_def)
  from db_same_table [OF inv ti(1) this]
  show "db_inv (set_table (ti_oid ti) (ti_table ti) c)" "db_abs (set_table (ti_oid ti) (ti_table ti) c) = db_abs c" .
qed

text \<open>Values that can be read make a tuple, which the record manager stores.\<close>

lemma insert_row:
  assumes inv: "db_inv c" and t: "tab_of c n = Some ti" and row: "parse_row (columns (ti_schema ti)) raws = Inr row"
    and adm: "length raws \<le> length (columns (ti_schema ti))" "sum_list (map clen (columns (ti_schema ti))) \<le> 4084"
    and ne: "columns (ti_schema ti) \<noteq> []" and next_ok: "page_addr (rm_GetNextPageId (ti_table ti))"
  shows "\<exists>d rid tm. rm_Insert (Some d) (length d) (ti_table ti) = Some (rid, tm) \<and> 0 < length d \<and> length d \<le> 4084 \<and>
    length d = sum_list (map clen (columns (ti_schema ti))) \<and> tuple_texts (columns (ti_schema ti)) d = row \<and>
    ExecuteInsert n raws c = Some (Inr \<lparr>success = True, message = ''1 row inserted.'', rows = []\<rparr>, set_table (ti_oid ti) tm c)"
proof -
  let ?cols = "columns (ti_schema ti)"
  note tb = db_table [OF inv t]
  from insert_values_row [OF tb(1) adm(1)] row obtain vs where
    vs: "insert_values (new_Schema ?cols) 0 raws = Some (Inr vs)" "row = texts ?cols vs" "fits_columns ?cols vs" by auto
  from new_Tuple_texts [OF tb(1) vs(3)] obtain d where
    d: "new_Tuple vs (new_Schema ?cols) = Some (Inr d)" "length d = sum_list (map clen ?cols)"
      "tuple_texts ?cols d = texts ?cols vs" by blast
  have "1 \<le> clen (hd ?cols)"
    using clen_bound [of "hd ?cols"] tb(1) ne by (simp add: good_columns_def)
  then have l: "0 < length d" "length d \<le> 4084" using d(2) ne adm(2) by (cases ?cols; simp)+
  from rm_Insert_spec [OF tb(3) l next_ok] obtain rid tm where i: "rm_Insert (Some d) (length d) (ti_table ti) = Some (rid, tm)"
    by blast
  have "unat (word_of_nat (length d) :: u32) = length d" using l by (simp add: unat_of_nat)
  then have "tm_InsertTuple d (ti_table ti) = Some (rid, tm)"
    using i by (simp add: tm_InsertTuple_def tuple_GetLength_def)
  then have "ExecuteInsert n raws c = Some (Inr \<lparr>success = True, message = ''1 row inserted.'', rows = []\<rparr>, set_table (ti_oid ti) tm c)"
    using d(1) vs(1) tb(2) t GetTable_db [OF inv] by (simp add: ExecuteInsert_def)
  moreover have "tuple_texts ?cols d = row" using d(3) vs(2) by simp
  ultimately show ?thesis using i l d(2) by blast
qed

lemma insert_throws:
  assumes "db_inv c" and "tab_of c n = Some ti" and "parse_row (columns (ti_schema ti)) raws = Inl e"
    and "length raws \<le> length (columns (ti_schema ti))"
  shows "ExecuteInsert n raws c = Some (catch_runtime_error (Inl e), c)"
  using insert_values_row [OF db_table(1) [OF assms(1,2)] assms(4)] db_table(2) [OF assms(1,2)] GetTable_db [OF assms(1)] assms(2,3)
  by (auto simp: ExecuteInsert_def)

lemma insert_refines:
  assumes inv: "db_inv c" and adm: "db_adm (InsertStatement n raws) c"
  shows "\<exists>r c'. ExecuteInsert n raws c = Some (r, c') \<and> db_inv c' \<and> db_step (db_abs c) (InsertStatement n raws) r (db_abs c')"
proof (cases "tab_of c n")
  case None
  then show ?thesis
    using db_insert_nowhere [of "db_abs c" n raws] inv GetTable_db [OF inv]
    by (simp add: ExecuteInsert_def db_abs_none unknown_table_def)
next
  case (Some ti)
  let ?cols = "columns (ti_schema ti)" and ?h = "heap_of (ti_table ti)"
  note t = db_table [OF inv Some]
  from adm Some have a: "length raws \<le> length ?cols" "sum_list (map clen ?cols) \<le> 4084"
    "page_addr (rm_GetNextPageId (ti_table ti))" by (simp_all add: db_adm_def Let_def)
  consider (none) "?cols = []" | (throws) e where "?cols \<noteq> []" "parse_row ?cols raws = Inl e"
    | (stores) row where "?cols \<noteq> []" "parse_row ?cols raws = Inr row" by (cases "parse_row ?cols raws") auto
  then show ?thesis
  proof cases
    case none
    with a(1) have "raws = []" by simp
    moreover have "db_abs c n = Some ([], table_rows ?cols ?h)" using db_abs_tab [OF Some] none by simp
    from db_insert_nothing [of "db_abs c" n, OF this] insert_without_columns [OF inv Some none] calculation show ?thesis by auto
  next
    case throws
    with db_insert_throws [of "db_abs c" n ?cols, OF db_abs_tab [OF Some]] insert_throws [OF inv Some _ a(1)] inv
    show ?thesis by auto
  next
    case stores
    from insert_row [OF inv Some stores(2) a(1,2) stores(1) a(3)] obtain d rid tm where
      i: "rm_Insert (Some d) (length d) (ti_table ti) = Some (rid, tm)" and l: "0 < length d" "length d \<le> 4084"
      and d: "length d = sum_list (map clen ?cols)" "tuple_texts ?cols d = row"
      and x: "ExecuteInsert n raws c = Some (Inr \<lparr>success = True, message = ''1 row inserted.'', rows = []\<rparr>, set_table (ti_oid ti) tm c)"
      by blast
    from rm_Insert_spec [OF t(3) l a(3)] i have tm: "rm_inv True tm"
        "unat (rid_slot_id rid) = length (recs_at ?h (rid_page_id rid))" "heap_of tm = heap_append (rid_page_id rid) d ?h" by auto
    note ap = heap_get_append [OF refl tm(2)]
    have "tuples_ok ?cols (heap_of tm)"
      using t(4) ap tm(3) d(1) by (auto simp: tuples_ok_def ran_def split: if_splits)
    note s = db_set_table [OF inv Some tm(1) rm_Insert_fname [OF i] this]
    have "table_rows ?cols (heap_of tm) = add_mset row (table_rows ?cols ?h)"
      using table_rows_insert [OF finite_heap [OF t(3)] ap(1), of "heap_of tm" d ?cols] ap(2) tm(3) d(2) by simp
    with db_insert [of "db_abs c" n ?cols, OF db_abs_tab [OF Some] stores] s x show ?thesis by auto
  qed
qed

text \<open>Deleting the matching records deletes the matching rows.\<close>

lemma table_rows_restrict:
  assumes fin: "finite (dom (heap_get h))" and h': "heap_get h' = heap_get h |` (- {rid \<in> dom (heap_get h). P (row_at cols h rid)})"
  shows "table_rows cols h' = table_rows cols h - filter_mset P (table_rows cols h)"
proof -
  let ?D = "dom (heap_get h)"
  have d: "dom (heap_get h') = {rid \<in> ?D. \<not> P (row_at cols h rid)}" unfolding h' by auto
  have m: "mset_set (dom (heap_get h')) = filter_mset (\<lambda>rid. \<not> P (row_at cols h rid)) (mset_set ?D)"
    using d fin by (simp add: filter_mset_mset_set)
  have "image_mset (row_at cols h') (mset_set (dom (heap_get h'))) = image_mset (row_at cols h) (mset_set (dom (heap_get h')))"
    using d fin h' by (intro image_mset_cong) (auto simp: row_at_def restrict_map_def)
  also have "\<dots> = filter_mset (\<lambda>row. \<not> P row) (table_rows cols h)"
    by (simp add: table_rows_def filter_mset_image_mset m)
  also have "\<dots> = table_rows cols h - filter_mset P (table_rows cols h)"
    by (metis add_diff_cancel_left' multiset_partition)
  finally show ?thesis by (simp only: table_rows_def)
qed

lemma delete_matching_refines:
  assumes inv: "db_inv c" and t: "tab_of c n = Some ti" and w: "\<forall>i. w = Some i \<longrightarrow> i < length (columns (ti_schema ti))"
    and P: "\<And>row. P row \<longleftrightarrow> (case w of None \<Rightarrow> True | Some i \<Rightarrow> row ! i = val)"
  defines "cols \<equiv> columns (ti_schema ti)"
  shows "\<exists>R H c'. db_abs c n = Some (cols, R) \<and> H = filter_mset P R \<and>
    delete_matching ti w val c = Some (Inr \<lparr>success = True, message = to_string (int (size H)) @ '' row(s) deleted.'', rows = []\<rparr>, c') \<and>
    db_inv c' \<and> db_abs c' = (db_abs c)(n \<mapsto> (cols, R - H))"
proof -
  let ?h = "heap_of (ti_table ti)"
  let ?M = "row_matches cols ?h w val"
  note tb = db_table [OF inv t, folded cols_def]
  have M: "?M = (\<lambda>rid. P (row_at cols ?h rid))" by (rule ext) (simp add: row_matches_def P)
  from delete_scan [OF tb(3,1,4)] w obtain tm where
    s: "table_scan (delete_body (new_Schema cols) w val) [] (ti_table ti) = Some (Inr (filter ?M (live_rids ?h)), tm)"
      "rm_same True (ti_table ti) tm" unfolding cols_def by blast
  then have sm: "rm_inv True tm" "heap_of tm = ?h" "page_ids tm = page_ids (ti_table ti)" "fname tm = fname (ti_table ti)"
    by (simp_all add: rm_same_def)
  have live: "set (live_rids ?h) = dom (heap_get ?h)" by (rule live_rids_complete [OF tb(3)])
  have "\<forall>rid \<in> set (filter ?M (live_rids ?h)). rid_page_id rid \<in> set (page_ids tm)"
    using live rid_on_page sm(3) by auto
  from delete_tuples_spec [OF sm(1) this] sm obtain tm' where
    d: "delete_tuples (filter ?M (live_rids ?h)) tm = Some tm'" "rm_inv True tm'"
      "heap_get (heap_of tm') = heap_get ?h |` (- set (filter ?M (live_rids ?h)))" "fname tm' = fname (ti_table ti)" by auto
  have "tuples_ok cols (heap_of tm')" using tb(4) d(3) by (auto simp: tuples_ok_def ran_def restrict_map_def split: if_splits)
  note st = db_set_table [OF inv t d(2,4), folded cols_def, OF this]
  have rows': "table_rows cols (heap_of tm') = table_rows cols ?h - filter_mset P (table_rows cols ?h)"
    using d(3) live by (intro table_rows_restrict [OF finite_heap [OF tb(3)]]) (simp add: M)
  have "size (filter_mset P (table_rows cols ?h)) = length (filter ?M (live_rids ?h))"
    unfolding mset_rows [OF tb(3), symmetric] mset_filter [symmetric] size_mset by (simp add: filter_map comp_def M)
  with st rows' s(1) d(1) tb(2) db_abs_tab [OF t, folded cols_def] show ?thesis
    by (simp add: delete_matching_def)
qed

lemma column_at_bound: "column_at cols col = Some i \<Longrightarrow> i < length cols"
  by (auto simp: column_at_def find_Some_iff)

lemma find_cong': "(\<And>x. x \<in> set xs \<Longrightarrow> P x = Q x) \<Longrightarrow> find P xs = find Q xs"
  by (induction xs) auto

lemma where_index_new: "good_columns cols \<Longrightarrow> where_index (new_Schema cols) col = column_at cols col"
  unfolding where_index_def column_at_def column_indices_new
  by (rule find_cong') (simp add: GetColumn_new)

lemma delete_refines:
  assumes inv: "db_inv c"
  shows "\<exists>r c'. ExecuteDelete n col val c = Some (r, c') \<and> db_inv c' \<and>
    db_step (db_abs c) (DeleteStatement n col val) r (db_abs c')"
proof (cases "tab_of c n")
  case None
  then show ?thesis
    using db_delete_nowhere [of "db_abs c" n col val] inv GetTable_db [OF inv]
    by (simp add: ExecuteDelete_def db_abs_none unknown_table_def)
next
  case (Some ti)
  let ?cols = "columns (ti_schema ti)"
  note t = db_table [OF inv Some]
  have g: "GetTable n c = Inr ti" using GetTable_db [OF inv] Some by simp
  have w: "where_index (ti_schema ti) col = column_at ?cols col"
    using where_index_new [OF t(1)] t(2) by simp
  show ?thesis
  proof (cases "col \<noteq> [] \<and> column_at ?cols col = None")
    case True
    with db_delete_unknown [of "db_abs c" n ?cols, OF db_abs_tab [OF Some]] g w inv show ?thesis
      by (auto simp: ExecuteDelete_def)
  next
    case False
    define wc where "wc = (if col = [] then None else column_at ?cols col)"
    have e: "ExecuteDelete n col val c = delete_matching ti wc val c"
      using False g w by (auto simp: ExecuteDelete_def wc_def)
    have wl: "\<forall>i. wc = Some i \<longrightarrow> i < length ?cols" by (auto simp: wc_def dest: column_at_bound)
    have P: "row_hit ?cols col val row \<longleftrightarrow> (case wc of None \<Rightarrow> True | Some i \<Rightarrow> row ! i = val)" for row
      using False by (auto simp: row_hit_def wc_def)
    from delete_matching_refines [OF inv Some wl P] obtain R H c' where
      d: "db_abs c n = Some (?cols, R)" "H = filter_mset (row_hit ?cols col val) R"
        "delete_matching ti wc val c = Some (Inr \<lparr>success = True,
           message = to_string (int (size H)) @ '' row(s) deleted.'', rows = []\<rparr>, c')" "db_inv c'"
        "db_abs c' = (db_abs c)(n \<mapsto> (?cols, R - H))" by blast
    with db_delete [of "db_abs c" n ?cols R col H val] False e show ?thesis by auto
  qed
qed

interpretation db: simulation Execute db_step db_abs db_inv db_adm
proof (unfold_locales, goal_cases)
  case (1 c q)
  then show ?case
    using commit_refines create_refines [of c] select_refines insert_refines [of c] delete_refines
    by (cases q) (auto simp: Execute_def db_adm_def)
qed

end
