(* ===== verification/Parser_Facts.thy ===== *)
theory Parser_Facts
  imports Parser
begin

section \<open>Statements are parsed as they are written\<close>

text \<open>
  \<open>words\<close> splits a text at white space; the loops of the parser read the words of their line. A
  statement printed with any letter case of its keywords is parsed back.
\<close>

definition is_word :: "string \<Rightarrow> bool" where
  "is_word w \<longleftrightarrow> w \<noteq> [] \<and> (\<forall>c \<in> set w. \<not> is_space c)"

text \<open>A word that the parser's clean-up leaves alone.\<close>

definition is_plain :: "string \<Rightarrow> bool" where
  "is_plain w \<longleftrightarrow> is_word w \<and> (\<forall>c \<in> set w. clean_char c = c)"

definition blank :: "string \<Rightarrow> bool" where
  "blank s \<longleftrightarrow> (\<forall>c \<in> set s. is_space c)"

function words :: "string \<Rightarrow> string list" where
  "words s = (let t = dropWhile is_space s in
     if t = [] then [] else takeWhile not_space t # words (dropWhile not_space t))"
  by pat_completeness auto
termination
proof (relation "measure length", goal_cases)
  case (2 s t)
  then have "t \<noteq> []" "\<not> is_space (hd t)" using hd_dropWhile [of is_space s] by auto
  then have "length (dropWhile not_space t) \<le> length (tl t)"
    by (cases t) (auto simp: not_space_def length_dropWhile_le)
  also have "\<dots> < length t" using \<open>t \<noteq> []\<close> by simp
  also have "\<dots> \<le> length s" using 2(1) length_dropWhile_le [of is_space s] by simp
  finally show ?case by simp
qed simp

declare words.simps [simp del]

lemma is_word_takeWhile: "is_word w \<Longrightarrow> takeWhile not_space (w @ r) = w @ takeWhile not_space r"
  by (simp add: is_word_def not_space_def takeWhile_append2)

lemma is_word_dropWhile: "is_word w \<Longrightarrow> dropWhile not_space (w @ r) = dropWhile not_space r"
  by (simp add: is_word_def not_space_def dropWhile_append2)

lemma blank_dropWhile: "blank p \<Longrightarrow> dropWhile is_space (p @ r) = dropWhile is_space r"
  by (simp add: blank_def dropWhile_append2)

lemma is_word_hd: "is_word w \<Longrightarrow> dropWhile is_space (w @ r) = w @ r"
  by (cases w) (auto simp: is_word_def)

definition at_end :: "string \<Rightarrow> bool" where
  "at_end r \<longleftrightarrow> r = [] \<or> is_space (hd r)"

lemma at_end_simps [simp]: "at_end []" "at_end (CHR '' '' # r)"
  by (simp_all add: at_end_def is_space_def char_code_def)

lemma at_end_append: "at_end r \<Longrightarrow> at_end (r @ CHR '' '' # b)"
  by (cases r) (simp_all add: at_end_def is_space_def char_code_def)

lemma at_end_while: "at_end r \<Longrightarrow> takeWhile not_space r = [] \<and> dropWhile not_space r = r"
  by (cases r) (auto simp: at_end_def not_space_def)

lemma next_word_word:
  assumes "is_word w" and "at_end r" and "blank p"
  shows "next_word \<lparr>ss_rest = p @ w @ r, ss_eof = False, ss_fail = False\<rparr> =
    (Some w, \<lparr>ss_rest = r, ss_eof = (r = []), ss_fail = False\<rparr>)"
proof -
  have "w \<noteq> []" using assms(1) by (simp add: is_word_def)
  with assms show ?thesis
    by (simp add: next_word_def blank_dropWhile is_word_hd is_word_takeWhile is_word_dropWhile at_end_while)
qed

lemmas next_word_first = next_word_word [where p = "[]", simplified blank_def, simplified]

lemma next_word_space:
  assumes "is_word w" and "at_end r"
  shows "next_word \<lparr>ss_rest = CHR '' '' # w @ r, ss_eof = False, ss_fail = False\<rparr> =
    (Some w, \<lparr>ss_rest = r, ss_eof = (r = []), ss_fail = False\<rparr>)"
  using next_word_word [OF assms, of "'' ''"] by (simp add: blank_def is_space_def char_code_def)

text \<open>Splitting at a blank.\<close>

lemma words_blank: "blank s \<Longrightarrow> words s = []"
  by (subst words.simps) (simp add: blank_def dropWhile_eq_Nil_conv)

lemma words_Cons_space: "is_space c \<Longrightarrow> words (c # s) = words s"
  by (subst (1 2) words.simps) simp

lemma words_word:
  assumes "is_word w" and "at_end r"
  shows "words (w @ r) = w # words r"
proof -
  have "w \<noteq> []" using assms(1) by (simp add: is_word_def)
  with assms show ?thesis
    by (subst words.simps) (simp add: is_word_hd is_word_takeWhile is_word_dropWhile at_end_while)
qed

definition stream_ok :: "sstream \<Rightarrow> bool" where
  "stream_ok i \<longleftrightarrow> \<not> ss_fail i \<and> (ss_eof i \<longrightarrow> ss_rest i = [])"

lemma next_word_words:
  assumes "stream_ok i"
  shows "(words (ss_rest i) = [] \<longrightarrow> fst (next_word i) = None) \<and>
    (\<forall>w ws. words (ss_rest i) = w # ws \<longrightarrow> (\<exists>i'. next_word i = (Some w, i') \<and> stream_ok i' \<and> words (ss_rest i') = ws))"
proof (cases "ss_eof i")
  case True
  with assms have "ss_rest i = []" by (simp add: stream_ok_def)
  then have "words (ss_rest i) = []" using words_blank [of "[]"] by (simp add: blank_def)
  with True show ?thesis by (simp add: next_word_def)
next
  case False
  with assms show ?thesis
    by (subst (1 2) words.simps) (auto simp: next_word_def stream_ok_def Let_def)
qed

lemma parse_values_words: "stream_ok i \<Longrightarrow> parse_values i = words (ss_rest i)"
proof (induction "words (ss_rest i)" arbitrary: i)
  case Nil
  with next_word_words [OF Nil(2)] show ?case
    by (subst parse_values.simps) (auto split: prod.splits option.splits)
next
  case (Cons w ws)
  from next_word_words [OF Cons(3)] Cons(2) obtain i' where
    "next_word i = (Some w, i')" "stream_ok i'" "words (ss_rest i') = ws" by metis
  with Cons(1) [of i'] Cons(2) show ?case by (subst parse_values.simps) simp
qed

fun word_pairs :: "string list \<Rightarrow> Column list" where
  "word_pairs (n # t # ws) = new_Column n (if upper t = ''BOOLEAN'' then BOOLEAN else INTEGER) # word_pairs ws"
| "word_pairs [] = []"
| "word_pairs [n] = []"

lemma parse_columns_words: "stream_ok i \<Longrightarrow> parse_columns i = word_pairs (words (ss_rest i))"
proof (induction "words (ss_rest i)" arbitrary: i rule: word_pairs.induct)
  case (1 n t ws)
  from next_word_words [OF 1(3)] 1(2) obtain i1 where
    i1: "next_word i = (Some n, i1)" "stream_ok i1" "words (ss_rest i1) = t # ws" by metis
  from next_word_words [OF i1(2)] i1(3) obtain i2 where
    i2: "next_word i1 = (Some t, i2)" "stream_ok i2" "words (ss_rest i2) = ws" by metis
  from i1(1) i2 1(1) [of i2] 1(2) show ?case
    by (subst parse_columns.simps) (simp flip: 1(2))
next
  case 2
  with next_word_words [OF 2(2)] show ?case
    by (subst parse_columns.simps) (auto split: prod.splits option.splits)
next
  case (3 n)
  from next_word_words [OF 3(2)] 3(1) obtain i1 where
    i1: "next_word i = (Some n, i1)" "stream_ok i1" "words (ss_rest i1) = []" by metis
  from next_word_words [OF i1(2)] i1 show ?case
    by (subst parse_columns.simps) (auto simp flip: 3(1) split: prod.splits option.splits)
qed

text \<open>The words of a text hold its characters but the white space.\<close>

lemma words_of_text: "list_all is_word (words s) \<and> concat (words s) = filter not_space s"
proof (induction s rule: words.induct)
  case (1 s)
  let ?p = "takeWhile is_space s" and ?t = "dropWhile is_space s"
  let ?w = "takeWhile not_space ?t" and ?r = "dropWhile not_space ?t"
  have p: "filter not_space ?p = []" by (auto simp: not_space_def filter_empty_conv dest: set_takeWhileD)
  have s: "filter not_space s = filter not_space ?t"
    using p takeWhile_dropWhile_id [of is_space s] by (metis append_Nil filter_append)
  show ?case
  proof (cases "?t = []")
    case True
    then have "words s = []" by (subst words.simps) (simp add: Let_def)
    with s True show ?thesis by (simp del: dropWhile_eq_Nil_conv)
  next
    case False
    then have ws: "words s = ?w # words ?r" by (subst words.simps) (simp add: Let_def del: dropWhile_eq_Nil_conv)
    have w: "is_word ?w"
      using False hd_dropWhile [of is_space s]
      by (cases ?t) (auto simp: is_word_def not_space_def dest: set_takeWhileD)
    have "filter not_space ?w = ?w" by (auto simp: filter_id_conv dest: set_takeWhileD)
    then have "filter not_space ?t = ?w @ filter not_space ?r"
      using takeWhile_dropWhile_id [of not_space ?t] by (metis filter_append)
    with 1 [OF refl False] ws w s show ?thesis by simp
  qed
qed

subsection \<open>Splitting a printed list\<close>

lemma words_skip: "blank p \<Longrightarrow> words (p @ s) = words s"
  by (subst (1 2) words.simps) (simp add: blank_dropWhile)

lemma words_append: "words (a @ CHR '' '' # b) = words a @ words b"
proof (induction a rule: words.induct)
  case (1 a)
  let ?p = "takeWhile is_space a" and ?t = "dropWhile is_space a"
  have p: "blank ?p" by (auto simp: blank_def dest: set_takeWhileD)
  have a: "words (a @ x) = words (?t @ x)" for x
    using words_skip [OF p, of "?t @ x"] by (simp flip: append_assoc)
  show ?case
  proof (cases "?t = []")
    case True
    with a [of "[]"] a [of "CHR '' '' # b"] show ?thesis
      using words_blank [of "[]"] by (simp add: blank_def words_Cons_space is_space_def char_code_def)
  next
    case False
    let ?w = "takeWhile not_space ?t" and ?r = "dropWhile not_space ?t"
    have w: "is_word ?w"
      using False hd_dropWhile [of is_space a]
      by (cases ?t) (auto simp: is_word_def not_space_def dest: set_takeWhileD)
    have r: "at_end ?r" using hd_dropWhile [of not_space ?t] by (auto simp: at_end_def not_space_def)
    then have r': "at_end (?r @ CHR '' '' # b)" by (rule at_end_append)
    have "words (a @ CHR '' '' # b) = words (?w @ ?r @ CHR '' '' # b)"
      using a by (simp flip: append_assoc)
    also have "\<dots> = ?w # words ?r @ words b"
      using words_word [OF w r'] 1 [OF refl False] by simp
    moreover have "?w # words ?r = words a"
      using False by (subst (2) words.simps) (simp add: Let_def)
    ultimately show ?thesis by simp
  qed
qed

lemma words_single: "is_word w \<Longrightarrow> words w = [w]"
  using words_word [of w "[]"] words_blank [of "[]"] by (simp add: blank_def)

fun sep_by :: "string \<Rightarrow> string list \<Rightarrow> string" where
  "sep_by s [] = []"
| "sep_by s [x] = x"
| "sep_by s (x # xs) = x @ s @ sep_by s xs"

definition clean :: "string \<Rightarrow> string" where
  "clean s = map clean_char s"

lemma clean_simps [simp]:
  "clean [] = []" "clean (a @ b) = clean a @ clean b" "clean (c # b) = clean_char c # clean b"
  by (simp_all add: clean_def)

lemma clean_plain: "is_plain w \<Longrightarrow> clean w = w"
  by (simp add: is_plain_def clean_def map_idI)

lemma clean_char_simps [simp]:
  "clean_char (CHR '' '') = CHR '' ''" "clean_char (CHR '','') = CHR '' ''" "clean_char (CHR ''('') = CHR '' ''"
  "clean_char (CHR '')'') = CHR '' ''" "clean_char (CHR '';'') = CHR '' ''"
  by (simp_all add: clean_char_def)

lemma words_sep_by: "words (clean (sep_by '', '' xs)) = concat (map (\<lambda>x. words (clean x)) xs)"
  by (induction "'', ''" xs rule: sep_by.induct)
    (simp_all add: words_append words_blank blank_def words_Cons_space is_space_def char_code_def)

text \<open>The list of a statement, as it is written after the table name or \<^verbatim>\<open>VALUES\<close>.\<close>

definition semi :: "bool \<Rightarrow> string" where
  "semi b = (if b then '';'' else [])"

definition list_text :: "bool \<Rightarrow> string list \<Rightarrow> string" where
  "list_text b xs = '' ('' @ sep_by '', '' xs @ '')'' @ semi b"

lemma words_list_text: "words (clean (list_text b xs)) = concat (map (\<lambda>x. words (clean x)) xs)"
proof -
  have "words (clean (list_text b xs)) = words (clean (sep_by '', '' xs) @ (if b then ''  '' else '' ''))"
    by (simp add: list_text_def semi_def words_Cons_space is_space_def char_code_def)
  also have "\<dots> = words (clean (sep_by '', '' xs))"
    using words_append [of _ "'' ''"] words_append [of _ "[]"] by (simp add: words_blank blank_def is_space_def char_code_def)
  finally show ?thesis by (simp add: words_sep_by)
qed

subsection \<open>Statements\<close>

text \<open>A keyword in any letter case is a word.\<close>

lemma is_space_to_upper [simp]: "is_space (to_upper c) = is_space c"
proof (cases "97 \<le> char_code c \<and> char_code c \<le> 122")
  case True
  then have "(char_code c - 32) mod 256 = char_code c - 32" by (intro mod_less) linarith
  with True have "char_code (to_upper c) = char_code c - 32" by (simp add: to_upper_def char_code_def)
  with True show ?thesis unfolding is_space_def by auto
next
  case False
  then have "to_upper c = c" unfolding to_upper_def by (rule if_not_P)
  then show ?thesis by simp
qed

lemma keyword_word: "upper k = K \<Longrightarrow> is_word K \<Longrightarrow> is_word k"
  by (auto simp: is_word_def upper_def)

definition one_line :: "string \<Rightarrow> bool" where
  "one_line s \<longleftrightarrow> CHR 0x0A \<notin> set s"

lemma getline_rest:
  "one_line r \<Longrightarrow> getline \<lparr>ss_rest = r, ss_eof = (r = []), ss_fail = False\<rparr> =
    (r, \<lparr>ss_rest = [], ss_eof = True, ss_fail = (r = [])\<rparr>)"
proof -
  assume "one_line r"
  then have "\<forall>x \<in> set r. x \<noteq> CHR 0x0A" unfolding one_line_def by blast
  then have t: "takeWhile (\<lambda>c. c \<noteq> CHR 0x0A) r = r" "dropWhile (\<lambda>c. c \<noteq> CHR 0x0A) r = []"
    unfolding takeWhile_eq_all_conv dropWhile_eq_Nil_conv by blast+
  show ?thesis unfolding getline_def Let_def by (simp add: t)
qed

lemma stream_ok_new: "stream_ok (new_sstream s)"
  by (simp add: stream_ok_def new_sstream_def)

lemma parse_values_text: "list_all is_plain vs \<Longrightarrow> parse_values (new_sstream (clean (list_text b vs))) = vs"
  unfolding parse_values_words [OF stream_ok_new]
  by (simp add: new_sstream_def words_list_text, induction vs)
    (simp_all add: clean_plain words_single is_plain_def)

definition type_word :: "TypeId \<Rightarrow> string" where
  "type_word ty = (if ty = BOOLEAN then ''BOOLEAN'' else ''INTEGER'')"

definition column_text :: "string \<times> string \<Rightarrow> string" where
  "column_text = (\<lambda>(n, t). n @ '' '' @ t)"

lemma parse_columns_text:
  assumes "list_all (\<lambda>(n, t). is_plain n \<and> is_plain t) cols"
  shows "parse_columns (new_sstream (clean (list_text b (map column_text cols)))) =
    map (\<lambda>(n, t). new_Column n (if upper t = ''BOOLEAN'' then BOOLEAN else INTEGER)) cols"
  unfolding parse_columns_words [OF stream_ok_new] using assms
  by (simp add: new_sstream_def words_list_text, induction cols)
    (auto simp: clean_plain column_text_def words_append words_single is_plain_def)

lemma one_line_text:
  assumes "list_all (\<lambda>x. one_line x) xs"
  shows "one_line (list_text b xs)"
proof -
  have "one_line (sep_by '', '' xs)"
    using assms by (induction "'', ''" xs rule: sep_by.induct) (auto simp: one_line_def)
  then show ?thesis by (simp add: one_line_def list_text_def semi_def)
qed

lemma one_line_word: "is_word w \<Longrightarrow> one_line w"
  by (auto simp: is_word_def one_line_def is_space_def char_code_def)

definition spaced :: "string list \<Rightarrow> string \<Rightarrow> string" where
  "spaced ws r = concat (map (\<lambda>w. CHR '' '' # w) ws) @ r"

lemma spaced_simps: "spaced [] r = r" "spaced (w # ws) r = CHR '' '' # w @ spaced ws r"
  by (simp_all add: spaced_def)

lemma at_end_spaced: "at_end r \<Longrightarrow> at_end (spaced ws r)"
  by (cases ws) (simp_all add: spaced_simps)

lemma list_text_at_end [simp]: "at_end (list_text b xs)" "list_text b xs \<noteq> []"
  by (simp_all add: list_text_def)

lemmas next_words = next_word_first next_word_space

lemma keyword_words:
  "upper k = ''CREATE'' \<Longrightarrow> is_word k" "upper k = ''TABLE'' \<Longrightarrow> is_word k" "upper k = ''INSERT'' \<Longrightarrow> is_word k"
  "upper k = ''INTO'' \<Longrightarrow> is_word k" "upper k = ''VALUES'' \<Longrightarrow> is_word k" "upper k = ''SELECT'' \<Longrightarrow> is_word k"
  "upper k = ''FROM'' \<Longrightarrow> is_word k" "upper k = ''DELETE'' \<Longrightarrow> is_word k" "upper k = ''WHERE'' \<Longrightarrow> is_word k"
  "upper k = ''COMMIT'' \<Longrightarrow> is_word k"
  by (rule keyword_word, assumption, simp add: is_word_def is_space_def char_code_def)+

lemma Parse_create:
  assumes "upper k1 = ''CREATE''" and "upper k2 = ''TABLE''" and "is_word name"
    and "list_all (\<lambda>(n, t). is_plain n \<and> is_plain t) cols"
  shows "Parse (k1 @ '' '' @ k2 @ '' '' @ name @ list_text b (map column_text cols)) =
    Some (CreateTableStatement name (map (\<lambda>(n, t). new_Column n (if upper t = ''BOOLEAN'' then BOOLEAN else INTEGER)) cols))"
proof -
  let ?r = "list_text b (map column_text cols)"
  have o: "one_line ?r"
    using assms(4) by (intro one_line_text)
      (auto simp: list_all_iff column_text_def one_line_def is_plain_def dest!: one_line_word)
  note k = keyword_words(1) [OF assms(1)] keyword_words(2) [OF assms(2)]
  show ?thesis
    using next_word_first [of k1 "CHR '' '' # k2 @ CHR '' '' # name @ ?r"] next_word_space [of k2 "CHR '' '' # name @ ?r"]
      next_word_space [of name ?r] getline_rest [OF o] k assms
    by (simp add: Parse_def ParseCreate_def next_word_into_def new_sstream_def parse_columns_text
        flip: clean_def new_sstream_def)
qed

lemma Parse_insert:
  assumes "upper k1 = ''INSERT''" and "upper k2 = ''INTO''" and "is_word name" and "upper k3 = ''VALUES''"
    and "list_all is_plain vs"
  shows "Parse (k1 @ '' '' @ k2 @ '' '' @ name @ '' '' @ k3 @ list_text b vs) = Some (InsertStatement name vs)"
proof -
  let ?r = "list_text b vs"
  have o: "one_line ?r"
    using assms(5) by (intro one_line_text) (auto simp: list_all_iff is_plain_def dest!: one_line_word)
  note k = keyword_words(3) [OF assms(1)] keyword_words(4) [OF assms(2)] keyword_words(5) [OF assms(4)]
  show ?thesis
    using next_word_first [of k1 "CHR '' '' # k2 @ CHR '' '' # name @ CHR '' '' # k3 @ ?r"]
      next_word_space [of k2 "CHR '' '' # name @ CHR '' '' # k3 @ ?r"]
      next_word_space [of name "CHR '' '' # k3 @ ?r"] next_word_space [of k3 ?r] getline_rest [OF o] k assms
    by (simp add: Parse_def ParseInsert_def next_word_into_def new_sstream_def parse_values_text
        flip: clean_def new_sstream_def)
qed

text \<open>A table name that may be followed by a semicolon.\<close>

definition is_name :: "string \<Rightarrow> bool" where
  "is_name w \<longleftrightarrow> is_word w \<and> last w \<noteq> CHR '';''"

lemma semi_word: "is_name w \<Longrightarrow> is_word (w @ semi b)"
  by (auto simp: is_name_def is_word_def semi_def is_space_def char_code_def)

lemma strip_semi: "is_name w \<Longrightarrow> strip_semicolon (w @ semi b) = w"
  by (simp add: is_name_def strip_semicolon_def semi_def)

lemma Parse_select:
  assumes "upper k1 = ''SELECT''" and "upper k2 = ''FROM''" and "is_name name"
  shows "Parse (k1 @ '' * '' @ k2 @ '' '' @ name @ semi b) = Some (SelectStatement name)"
proof -
  note k = keyword_words(6) [OF assms(1)] keyword_words(7) [OF assms(2)] semi_word [OF assms(3), of b]
  have star: "is_word ''*''" by (simp add: is_word_def is_space_def char_code_def)
  show ?thesis
    using next_word_first [of k1 "CHR '' '' # ''*'' @ CHR '' '' # k2 @ CHR '' '' # name @ semi b"]
      next_word_space [of "''*''" "CHR '' '' # k2 @ CHR '' '' # name @ semi b"]
      next_word_space [of k2 "CHR '' '' # name @ semi b"] next_word_space [of "name @ semi b" "[]"]
      strip_semi [OF assms(3)] k star assms
    by (simp add: Parse_def ParseSelect_def next_word_into_def new_sstream_def)
qed

lemma Parse_delete_all:
  assumes "upper k1 = ''DELETE''" and "upper k2 = ''FROM''" and "is_name name"
  shows "Parse (k1 @ '' '' @ k2 @ '' '' @ name @ semi b) = Some (DeleteStatement name [] [])"
proof -
  note k = keyword_words(8) [OF assms(1)] keyword_words(7) [OF assms(2)] semi_word [OF assms(3), of b]
  have "next_word \<lparr>ss_rest = [], ss_eof = True, ss_fail = False\<rparr> = (None, \<lparr>ss_rest = [], ss_eof = True, ss_fail = True\<rparr>)"
    by (simp add: next_word_def)
  then show ?thesis
    using next_word_first [of k1 "CHR '' '' # k2 @ CHR '' '' # name @ semi b"]
      next_word_space [of k2 "CHR '' '' # name @ semi b"] next_word_space [of "name @ semi b" "[]"]
      strip_semi [OF assms(3)] k assms
    by (simp add: Parse_def ParseDelete_def next_word_into_def new_sstream_def)
qed

lemma Parse_delete_where:
  assumes kw: "upper k1 = ''DELETE''" "upper k2 = ''FROM''" "upper k3 = ''WHERE''"
    and name: "is_name name" and col: "is_word col" and eq: "is_word eq" and val: "is_name val"
  shows "Parse (k1 @ '' '' @ k2 @ '' '' @ name @ '' '' @ k3 @ '' '' @ col @ '' '' @ eq @ '' '' @ val @ semi b) =
    Some (DeleteStatement name col val)"
proof -
  note k = keyword_words(8) [OF kw(1)] keyword_words(7) [OF kw(2)] keyword_words(9) [OF kw(3)]
  have nw: "is_word name" using name by (simp add: is_name_def)
  define r5 where "r5 = CHR '' '' # val @ semi b"
  define r4 where "r4 = CHR '' '' # eq @ r5"
  define r3 where "r3 = CHR '' '' # col @ r4"
  define r2 where "r2 = CHR '' '' # k3 @ r3"
  define r1 where "r1 = CHR '' '' # name @ r2"
  define r0 where "r0 = CHR '' '' # k2 @ r1"
  note rs = r0_def r1_def r2_def r3_def r4_def r5_def
  have e: "at_end r0" "at_end r1" "at_end r2" "at_end r3" "at_end r4" "at_end r5" by (simp_all add: rs)
  have ne: "r0 \<noteq> []" "r1 \<noteq> []" "r2 \<noteq> []" "r3 \<noteq> []" "r4 \<noteq> []" "r5 \<noteq> []" by (simp_all add: rs)
  note n = next_word_first [OF k(1) e(1)] next_word_space [OF k(2) e(2), folded r0_def]
    next_word_space [OF nw e(3), folded r1_def] next_word_space [OF k(3) e(4), folded r2_def]
    next_word_space [OF col e(5), folded r3_def] next_word_space [OF eq e(6), folded r4_def]
    next_word_space [OF semi_word [OF val] at_end_simps(1), of b, simplified, folded r5_def]
  have t: "k1 @ '' '' @ k2 @ '' '' @ name @ '' '' @ k3 @ '' '' @ col @ '' '' @ eq @ '' '' @ val @ semi b = k1 @ r0"
    by (simp add: rs)
  have s: "strip_semicolon name = name" using strip_semi [OF name, of False] by (simp add: semi_def)
  show ?thesis unfolding t Parse_def new_sstream_def next_word_into_def
    by (simp add: ParseDelete_def next_word_into_def n ne kw s strip_semi [OF val])
qed

subsection \<open>What the parser reads as a statement\<close>

text \<open>\<open>accepted_text t stmt\<close>: \<open>t\<close> is a text that the parser reads as \<open>stmt\<close>. These are more texts than the documented
  ones: names and values are any words, any word stands for the operator of a \<^verbatim>\<open>WHERE\<close>, and any word but BOOLEAN for
  the type INTEGER.\<close>

inductive accepted_text :: "string \<Rightarrow> Statement \<Rightarrow> bool" where
  text_create: "upper k1 = ''CREATE'' \<Longrightarrow> upper k2 = ''TABLE'' \<Longrightarrow> is_word name \<Longrightarrow>
     list_all (\<lambda>(n, t). is_plain n \<and> is_plain t) cols \<Longrightarrow>
     accepted_text (k1 @ '' '' @ k2 @ '' '' @ name @ '' ('' @ sep_by '', '' (map (\<lambda>(n, t). n @ '' '' @ t) cols) @ '')'' @ semi b)
       (CreateTableStatement name (map (\<lambda>(n, t). new_Column n (if upper t = ''BOOLEAN'' then BOOLEAN else INTEGER)) cols))"
| text_insert: "upper k1 = ''INSERT'' \<Longrightarrow> upper k2 = ''INTO'' \<Longrightarrow> is_word name \<Longrightarrow> upper k3 = ''VALUES'' \<Longrightarrow>
     list_all is_plain vs \<Longrightarrow>
     accepted_text (k1 @ '' '' @ k2 @ '' '' @ name @ '' '' @ k3 @ '' ('' @ sep_by '', '' vs @ '')'' @ semi b) (InsertStatement name vs)"
| text_select: "upper k1 = ''SELECT'' \<Longrightarrow> upper k2 = ''FROM'' \<Longrightarrow> is_name name \<Longrightarrow>
     accepted_text (k1 @ '' * '' @ k2 @ '' '' @ name @ semi b) (SelectStatement name)"
| text_delete: "upper k1 = ''DELETE'' \<Longrightarrow> upper k2 = ''FROM'' \<Longrightarrow> is_name name \<Longrightarrow>
     accepted_text (k1 @ '' '' @ k2 @ '' '' @ name @ semi b) (DeleteStatement name [] [])"
| text_delete_where: "upper k1 = ''DELETE'' \<Longrightarrow> upper k2 = ''FROM'' \<Longrightarrow> upper k3 = ''WHERE'' \<Longrightarrow> is_name name \<Longrightarrow>
     is_word col \<Longrightarrow> is_word eq \<Longrightarrow> is_name val \<Longrightarrow>
     accepted_text (k1 @ '' '' @ k2 @ '' '' @ name @ '' '' @ k3 @ '' '' @ col @ '' '' @ eq @ '' '' @ val @ semi b)
       (DeleteStatement name col val)"
| text_commit: "upper k = ''COMMIT'' \<Longrightarrow> accepted_text k CommitStatement"

lemma Parse_commit:
  assumes "upper k = ''COMMIT''"
  shows "Parse k = Some CommitStatement"
  using next_word_first [OF keyword_words(10) [OF assms] at_end_simps(1)] assms
  by (simp add: Parse_def next_word_into_def new_sstream_def)

lemma Parse_accepted:
  assumes "accepted_text t stmt"
  shows "Parse t = Some stmt"
  using assms
proof cases
  case (text_create k1 k2 name cols b)
  with Parse_create [of k1 k2 name cols b] show ?thesis by (simp add: list_text_def column_text_def)
next
  case (text_insert k1 k2 name k3 vs b)
  with Parse_insert [of k1 k2 name k3 vs b] show ?thesis by (simp add: list_text_def)
qed (simp_all only: Parse_select Parse_delete_all Parse_delete_where Parse_commit)

end
