(* ===== verification/Tcp_Server.thy ===== *)
theory Tcp_Server
  imports Database_Refinement Parser_Facts
begin

section \<open>A client session (src/network/tcp_server.cpp)\<close>

text \<open>
  \<open>HandleClient\<close> answers the reads of one connection, given what has arrived before each: \<^verbatim>\<open>read\<close> takes
  at most 1023 characters, what is left is for the reads that follow (\<open>read_pieces\<close>); nothing arrived
  means that the client has gone. The result is what is sent, and the exception
  that ended the server if one escaped the executor. \<open>Start\<close> takes the results of the socket calls; the calls
  themselves, with their descriptors, are in \<open>Server_Sockets\<close>.
\<close>

definition newline :: string where
  "newline = [CHR 0x0A]"

definition prompt :: string where
  "prompt = newline @ ''> ''"

definition welcome_text :: string where
  "welcome_text = ''Welcome to pragmaticDB! Type your SQL queries below.'' @ newline @ ''> ''"

fun format_row :: "string list \<Rightarrow> string" where
  "format_row [] = []"
| "format_row [x] = x"
| "format_row (x # xs) = x @ '' | '' @ format_row xs"

definition FormatResult :: "QueryResult \<Rightarrow> string" where
  "FormatResult result = (if \<not> success result then ''Error: '' @ message result @ newline
     else concat (map (\<lambda>row. format_row row @ newline) (rows result)) @ message result @ newline)"

text \<open>\<^verbatim>\<open>std::string(buffer)\<close>, and the loop that removes line ends.\<close>

definition c_string :: "string \<Rightarrow> string" where
  "c_string buf = takeWhile (\<lambda>c. c \<noteq> CHR 0x00) buf"

definition trim_line_ends :: "string \<Rightarrow> string" where
  "trim_line_ends s = rev (dropWhile (\<lambda>c. c = CHR 0x0A \<or> c = CHR 0x0D) (rev s))"

type_synonym session = "string list \<times> exn option \<times> Catalog"

definition send_first :: "string list \<Rightarrow> session option \<Rightarrow> session option" where
  "send_first out s = do { (outs, e, c) \<leftarrow> s; Some (out @ outs, e, c) }"

fun client_loop :: "string list \<Rightarrow> Catalog \<Rightarrow> session option" where
  "client_loop [] c = Some ([], None, c)"
| "client_loop (buf # bufs) c = (
     if buf = [] then Some ([], None, c)
     else let input = trim_line_ends (c_string buf) in
       if input = [] then send_first [''> ''] (client_loop bufs c)
       else if input = ''exit'' \<or> input = ''quit'' then Some ([''Bye!'' @ newline], None, c)
       else case Parse input of
           None \<Rightarrow> send_first [''Error: Invalid or unsupported SQL statement.'' @ newline, prompt] (client_loop bufs c)
         | Some stmt \<Rightarrow> do {
             (r, c1) \<leftarrow> Execute stmt c;
             case r of
               Inl e \<Rightarrow> Some ([], Some e, c1)
             | Inr result \<Rightarrow> send_first [FormatResult result, prompt] (client_loop bufs c1) })"

text \<open>\<^verbatim>\<open>read(client_socket, buffer, sizeof(buffer) - 1)\<close>, again and again, on one arrival.\<close>

function read_pieces :: "string \<Rightarrow> string list" where
  "read_pieces s = (if length s \<le> 1023 then [s] else take 1023 s # read_pieces (drop 1023 s))"
  by pat_completeness auto
termination
  by (relation "measure length") auto

declare read_pieces.simps [simp del]

definition HandleClient :: "string list \<Rightarrow> Catalog \<Rightarrow> session option" where
  "HandleClient arrivals c = send_first [welcome_text] (client_loop (concat (map read_pieces arrivals)) c)"

text \<open>
  What the socket calls of one process answer: the results of \<^verbatim>\<open>socket\<close>, \<^verbatim>\<open>bind\<close> and \<^verbatim>\<open>listen\<close>, and for each
  \<^verbatim>\<open>accept\<close> what the connection's reads return, or \<^term>\<open>None\<close> when it fails. The accept loop serves one connection
  after the other until the process is stopped, which is when the list ends; an exception that escapes a
  session ends it as well. \<open>server_main\<close> is the program: the catalog is loaded, then clients are served.
\<close>

record Sockets =
  socket_fd :: int
  bind_result :: int
  listen_result :: int
  accepts :: "string list option list"

fun accept_loop :: "string list option list \<Rightarrow> Catalog \<Rightarrow> (string list list \<times> exn option \<times> Catalog) option" where
  "accept_loop [] c = Some ([], None, c)"
| "accept_loop (None # conns) c = accept_loop conns c"
| "accept_loop (Some reads # conns) c = do {
     (out, e, c1) \<leftarrow> HandleClient reads c;
     case e of
       Some _ \<Rightarrow> Some ([out], e, c1)
     | None \<Rightarrow> do {
         (outs, e', c2) \<leftarrow> accept_loop conns c1;
         Some (out # outs, e', c2) } }"

definition Start :: "Sockets \<Rightarrow> Catalog \<Rightarrow> (string list list \<times> exn option \<times> Catalog) option" where
  "Start s c = (if socket_fd s < 0 then Some ([], None, c)
     else if bind_result s < 0 then Some ([], None, c)
     else if listen_result s < 0 then Some ([], None, c)
     else accept_loop (accepts s) c)"

definition server_main :: "Environment \<Rightarrow> (string \<Rightarrow> byte list option) \<Rightarrow> Sockets \<Rightarrow>
    (string list list \<times> exn option \<times> Catalog) option" where
  "server_main e fs s = Start s (LoadCatalog catalog_path (new_Catalog e fs))"

text \<open>The server is up and gets these connections, whatever calls of \<^verbatim>\<open>accept\<close> fail in between.\<close>

definition serving :: "string list list \<Rightarrow> Sockets \<Rightarrow> bool" where
  "serving clients s \<longleftrightarrow> 0 \<le> socket_fd s \<and> 0 \<le> bind_result s \<and> 0 \<le> listen_result s \<and>
     List.map_filter id (accepts s) = clients"

lemma accept_loop_failures: "accept_loop conns c = accept_loop (map Some (List.map_filter id conns)) c"
proof (induction conns arbitrary: c)
  case (Cons a conns)
  show ?case by (cases a) (simp_all add: List.map_filter_simps Cons [unfolded id_def] cong: option.case_cong)
qed (simp add: List.map_filter_simps)

lemma Start_serving: "serving clients s \<Longrightarrow> Start s c = accept_loop (map Some clients) c"
  unfolding Start_def serving_def by (subst accept_loop_failures) auto

subsection \<open>A session runs its statements\<close>

text \<open>A line that a client types: no null inside, not a session command, and with its line end short enough for one
  read, whose buffer takes 1023 characters.\<close>

definition is_query :: "string \<Rightarrow> bool" where
  "is_query t \<longleftrightarrow> t \<noteq> [] \<and> CHR 0x00 \<notin> set t \<and> last t \<noteq> CHR 0x0A \<and> last t \<noteq> CHR 0x0D \<and> t \<noteq> ''exit'' \<and> t \<noteq> ''quit'' \<and>
     length t < 1023"

lemma read_pieces_line [simp]: "is_query t \<Longrightarrow> read_pieces (t @ newline) = [t @ newline]"
  by (subst read_pieces.simps) (simp add: is_query_def newline_def)

lemma read_pieces_lines: "list_all is_query ts \<Longrightarrow> concat (map read_pieces (map (\<lambda>t. t @ newline) ts)) = map (\<lambda>t. t @ newline) ts"
  by (induction ts) simp_all

lemma trim_query: "is_query t \<Longrightarrow> trim_line_ends (c_string (t @ newline)) = t"
proof -
  assume q: "is_query t"
  then have "\<forall>c \<in> set (t @ newline). c \<noteq> CHR 0x00" by (auto simp: is_query_def newline_def)
  then have c: "c_string (t @ newline) = t @ newline"
    unfolding c_string_def takeWhile_eq_all_conv .
  from q have "t = butlast t @ [last t]" "last t \<noteq> CHR 0x0A" "last t \<noteq> CHR 0x0D" by (auto simp: is_query_def)
  then obtain u x where "t = u @ [x]" "x \<noteq> CHR 0x0A" "x \<noteq> CHR 0x0D" by blast
  then show ?thesis unfolding c by (simp add: trim_line_ends_def newline_def)
qed

definition answers :: "QueryResult list \<Rightarrow> string list" where
  "answers qs = concat (map (\<lambda>q. [FormatResult q, prompt]) qs)"

lemma client_loop_runs:
  assumes "list_all2 (\<lambda>t stmt. is_query t \<and> Parse t = Some stmt) ts stmts"
    and "run Execute stmts c = Some (map Inr qs, c')"
  shows "client_loop (map (\<lambda>t. t @ newline) ts) c = Some (answers qs, None, c')"
  using assms
proof (induction ts stmts arbitrary: c qs rule: list_all2_induct)
  case (Cons t ts stmt stmts)
  from Cons.prems obtain q qs' c1 where r: "Execute stmt c = Some (Inr q, c1)"
    "run Execute stmts c1 = Some (map Inr qs', c')" "qs = q # qs'"
    by (auto split: bind_splits)
  from Cons.hyps(1) have q: "is_query t" "Parse t = Some stmt" by auto
  then have "t \<noteq> []" "t \<noteq> ''exit''" "t \<noteq> ''quit''" by (simp_all add: is_query_def)
  with trim_query [OF q(1)] q(2) r(1) Cons.IH [OF r(2)] r(3) show ?case
    by (simp add: send_first_def answers_def)
qed (simp add: answers_def)

text \<open>Clients are served one after the other on the same database.\<close>

lemma accept_loop_runs:
  assumes "list_all2 (list_all2 (\<lambda>t stmt. is_query t \<and> Parse t = Some stmt)) tss stmtss"
    and "map length qss = map length stmtss" and "run Execute (concat stmtss) c = Some (map Inr (concat qss), c')"
  shows "accept_loop (map Some (map (map (\<lambda>t. t @ newline)) tss)) c = Some (map (\<lambda>qs. welcome_text # answers qs) qss, None, c')"
  using assms
proof (induction tss stmtss arbitrary: c qss rule: list_all2_induct)
  case (Cons ts tss stmts stmtss)
  from Cons.prems(1) obtain qs qss' where q: "qss = qs # qss'" "length qs = length stmts" "map length qss' = map length stmtss"
    by (cases qss) auto
  from Cons.prems(2) q(1) obtain rs c1 rs' where r: "run Execute stmts c = Some (rs, c1)"
    "run Execute (concat stmtss) c1 = Some (rs', c')" "rs @ rs' = map Inr qs @ map Inr (concat qss')"
    by (auto simp: run_append split: bind_splits)
  have "length rs = length (map Inr qs)" using run_length [OF r(1)] q(2) by simp
  then have e: "rs = map Inr qs" "rs' = map Inr (concat qss')" using r(3) by auto
  have "list_all is_query ts" using Cons.hyps(1) by (induction rule: list_all2_induct) auto
  note p = read_pieces_lines [OF this]
  with client_loop_runs [OF Cons.hyps(1)] r(1) e(1) have "HandleClient (map (\<lambda>t. t @ newline) ts) c = Some (welcome_text # answers qs, None, c1)"
    unfolding HandleClient_def p by (simp add: send_first_def)
  with Cons.IH [OF q(3)] r(2) e(2) q(1) show ?case by simp
qed simp

end
