(* ===== verification/Example_Database.thy ===== *)
theory Example_Database
  imports Tcp_Server
begin

section \<open>A database with one table and one row\<close>

text \<open>The state on which the properties of the upper layers are instantiated: what \<^verbatim>\<open>CREATE TABLE t (id
  INTEGER, ok BOOLEAN)\<close> and \<^verbatim>\<open>INSERT INTO t VALUES (42)\<close> make of an empty database.\<close>

definition ex_env :: Environment where
  "ex_env = \<lparr>hash_order = rev, opens_to_write = (\<lambda>fn. True)\<rparr>"

lemma ex_env_good [simp]: "visits_all ex_env" "opens_to_write ex_env path"
  by (simp_all add: visits_all_def ex_env_def)

definition ex_cols :: "Column list" where
  "ex_cols = [new_Column ''id'' INTEGER, new_Column ''ok'' BOOLEAN]"

definition ex_table :: TableManager where
  "ex_table = new_RecordManager \<lparr>filename = table_file 0, contents = None\<rparr>"

definition ex_created :: Catalog where
  "ex_created = SaveCatalog catalog_path \<lparr>env = ex_env, tables = [(0, \<lparr>ti_schema = new_Schema ex_cols, ti_name = ''t'',
     ti_table = ex_table, ti_oid = 0\<rparr>)], table_names = [(''t'', 0)], next_table_oid = 1, files = Map.empty\<rparr>"

lemma ex_cols_good: "good_columns ex_cols"
  by (simp add: ex_cols_def good_columns_def good_new_Column)

lemma ex_cols_len: "sum_list (map clen ex_cols) = 5" "length ex_cols = 2"
  by (simp_all add: ex_cols_def clen_def new_Column_def)

lemma ex_create: "Execute (CreateTableStatement ''t'' ex_cols) (new_Catalog ex_env Map.empty) =
    Some (Inr \<lparr>success = True, message = ''Table '' @ quoted ''t'' @ '' created.'', rows = []\<rparr>, ex_created)"
  by (simp add: Execute_def ExecuteCreate_def CreateTable_def new_Catalog_def Let_def new_TableManager_def
      db_files_def ex_created_def ex_table_def)

lemma ex_adm_create: "db_adm (CreateTableStatement ''t'' ex_cols) (new_Catalog ex_env Map.empty)"
  by (simp add: db_adm_def ex_cols_good new_Catalog_def)

lemma ex_created_inv: "db_inv ex_created" "db_abs ex_created = [''t'' \<mapsto> (ex_cols, {#})]"
proof -
  from db.step_sim [OF db_inv_new(1) [OF ex_env_good(1)] ex_adm_create] ex_create obtain r where
    "db_inv ex_created" "db_step (db_abs (new_Catalog ex_env Map.empty)) (CreateTableStatement ''t'' ex_cols) r (db_abs ex_created)"
    by auto
  then show "db_inv ex_created" "db_abs ex_created = [''t'' \<mapsto> (ex_cols, {#})]"
    by (auto simp: db_inv_new(2) elim: db_step.cases)
qed

lemma ex_created_env [simp]: "env ex_created = ex_env"
  by (simp add: ex_created_def)

lemma ex_created_tab: "tab_of ex_created ''t'' = Some \<lparr>ti_schema = new_Schema ex_cols, ti_name = ''t'', ti_table = ex_table, ti_oid = 0\<rparr>"
  by (simp add: tab_of_def ex_created_def)

lemma ex_adm_insert: "length raws \<le> 2 \<Longrightarrow> db_adm (InsertStatement ''t'' raws) ex_created"
  using ex_cols_len new_Schema_spec(1) [OF ex_cols_good]
  by (auto simp: db_adm_def ex_created_tab Let_def ex_table_def rm_GetNextPageId_def new_RecordManager_def
      new_BufferPool_def page_addr_def MAX_PAGES_def)

lemma ex_row: "parse_row ex_cols [''42''] = Inr [''42'', ''false'']"
  by code_simp

lemma ex_bytes: "insert_values (new_Schema ex_cols) 0 [''42''] = Some (Inr [\<lparr>type_id = INTEGER, vdata = Int32 42\<rparr>])"
  by code_simp

text \<open>The state after the insertion, described by what the properties need of it.\<close>

definition ex_state :: "Catalog \<Rightarrow> bool" where
  "ex_state c \<longleftrightarrow> db_inv c \<and> db_abs c = [''t'' \<mapsto> (ex_cols, {#[''42'', ''false'']#})] \<and> storable_catalog c \<and> env c = ex_env \<and>
     (\<exists>ti. tab_of c ''t'' = Some ti \<and> columns (ti_schema ti) = ex_cols \<and> ti_oid ti = 0 \<and> page_ids (ti_table ti) = [0])"

lemma ex_insert: "\<exists>c. Execute (InsertStatement ''t'' [''42'']) ex_created =
    Some (Inr \<lparr>success = True, message = ''1 row inserted.'', rows = []\<rparr>, c) \<and> ex_state c"
proof -
  let ?v = "\<lparr>type_id = INTEGER, vdata = Int32 42\<rparr>"
  have "fits_columns ex_cols [?v]" by (simp add: fits_columns_def ex_cols_def typed_def new_Column_def)
  from new_Tuple_texts [OF ex_cols_good this] ex_cols_len obtain d where
    d: "new_Tuple [?v] (new_Schema ex_cols) = Some (Inr d)" "length d = 5" by auto
  have n0: "rm_GetNextPageId ex_table = 0" "page_ids ex_table = []"
    by (simp_all add: ex_table_def rm_GetNextPageId_def new_RecordManager_def new_BufferPool_def)
  have "rm_inv True ex_table" unfolding ex_table_def by (rule rm_inv_new)
  from rm_Insert_spec [OF this, of d] d(2) n0 obtain rid tm where
    i: "rm_Insert (Some d) 5 ex_table = Some (rid, tm)"
      "page_ids tm = [0] \<and> rm_GetNextPageId tm = 1"
    by (auto simp: page_addr_def MAX_PAGES_def)
  let ?c = "set_table 0 tm ex_created"
  have e: "Execute (InsertStatement ''t'' [''42'']) ex_created =
      Some (Inr \<lparr>success = True, message = ''1 row inserted.'', rows = []\<rparr>, ?c)"
    using d i(1) ex_bytes ex_created_tab GetTable_db [OF ex_created_inv(1), of "''t''"]
    by (simp add: Execute_def ExecuteInsert_def tm_InsertTuple_def tuple_GetLength_def)
  have "storable_catalog ?c"
    using i(2) new_Schema_spec(1) [OF ex_cols_good]
    by (auto simp: storable_catalog_def set_table_def ex_created_def storable_entry_def ex_cols_def storable_column_def
        good_new_Column new_Column_def good_column_def)
  moreover from db.step_sim [OF ex_created_inv(1) ex_adm_insert, of "[''42'']"] e have
    "db_inv ?c" "db_abs ?c = [''t'' \<mapsto> (ex_cols, {#[''42'', ''false'']#})]"
    by (auto simp: ex_created_inv(2) ex_row elim: db_step.cases)
  moreover have "tab_of ?c ''t'' = Some \<lparr>ti_schema = new_Schema ex_cols, ti_name = ''t'', ti_table = tm, ti_oid = 0\<rparr>"
    by (simp add: tab_of_def set_table_def ex_created_def)
  ultimately show ?thesis using e i(2) new_Schema_spec(1) [OF ex_cols_good] by (auto simp: ex_state_def)
qed

end
