(* ===== verification/Catalog_Properties.thy ===== *)
theory Catalog_Properties
  imports Example_Database
begin

section \<open>Properties of the catalog and of table scans\<close>

text \<open>
  The properties of \<open>Catalog\<close> and \<open>Table_Scan\<close>: the catalog file is read back as it was written,
  \<open>CreateTable\<close> adds a table or throws, and the iterator loop visits each record once and ends.
\<close>

text \<open>C24. The catalog file holds the catalog: loading the bytes that \<open>SaveCatalog\<close> wrote, in any process and over
  any file system that has them, gives two hash maps with the same entries: the index by name, and under each object
  id a table with the same name, columns, page list and next page id; and the same next object id. The order in
  which the C++ library visits the entries when it writes them does not matter.\<close>
theorem catalog_save_load:
  assumes "cat_inv c" and "storable_catalog c" and "opens_to_write (env c) catalog_path"
    and "fs catalog_path = files (SaveCatalog catalog_path c) catalog_path"
  shows "let c2 = LoadCatalog catalog_path (new_Catalog e fs) in
    map_of (table_names c2) = map_of (table_names c) \<and> next_table_oid c2 = next_table_oid c \<and>
    (\<lambda>oid. map_option (\<lambda>ti. (ti_name ti, ti_schema ti, ti_oid ti, page_ids (ti_table ti), rm_GetNextPageId (ti_table ti)))
      (map_of (tables c2) oid)) =
    (\<lambda>oid. map_option (\<lambda>ti. (ti_name ti, ti_schema ti, ti_oid ti, page_ids (ti_table ti), rm_GetNextPageId (ti_table ti)))
      (map_of (tables c) oid))"
proof -
  have "fs catalog_path = Some (catalog_bytes c)" using assms(3,4) by (simp add: SaveCatalog_def)
  note l = LoadCatalog_bytes [where fs = fs and e = e, OF assms(1,2) this]
  have s: "ti_schema ti = new_Schema (columns (ti_schema ti))" "ti_oid ti = oid" if "map_of (tables c) oid = Some ti" for oid ti
    using cat_inv_info [OF assms(1) map_of_SomeD [OF that]] by (simp_all add: info_ok_def)
  have r: "page_ids (rm_reopen dm ids n) = ids" "rm_GetNextPageId (rm_reopen dm ids n) = n" for dm ids n
    by (simp_all add: rm_reopen_def rm_SetNextPageId_def SetPageIds_def rm_GetNextPageId_def SetNextPageId_def)
  have "map_option (\<lambda>ti. (ti_name ti, ti_schema ti, ti_oid ti, page_ids (ti_table ti), rm_GetNextPageId (ti_table ti)))
      (map_option (\<lambda>ti. restored fs (table_entry (oid, ti))) (map_of (tables c) oid)) =
    map_option (\<lambda>ti. (ti_name ti, ti_schema ti, ti_oid ti, page_ids (ti_table ti), rm_GetNextPageId (ti_table ti))) (map_of (tables c) oid)" for oid
    using s [of oid] by (cases "map_of (tables c) oid") (simp_all add: restored_def r)
  then show ?thesis unfolding Let_def l
    using names_in_order_facts(3) [OF assms(1)] tables_in_order_facts(4) [OF assms(1)] by (simp add: map_of_map_key)
qed

lemma catalog_save_load_witness:
  "map_of (table_names (LoadCatalog catalog_path (new_Catalog ex_env (files ex_created)))) = [''t'' \<mapsto> 0]"
proof -
  have st: "storable_catalog ex_created"
    using new_Schema_spec(1) [OF ex_cols_good]
    by (auto simp: storable_catalog_def ex_created_def storable_entry_def ex_cols_def storable_column_def
        good_new_Column new_Column_def good_column_def ex_table_def new_RecordManager_def rm_GetNextPageId_def new_BufferPool_def)
  have "cat_inv ex_created" using ex_created_inv(1) by (simp add: db_inv_def)
  from catalog_save_load [OF this st, of "files ex_created" ex_env] show ?thesis
    by (simp add: Let_def ex_created_def SaveCatalog_def catalog_bytes_def tables_in_order_def fun_eq_iff)
qed

text \<open>C28. \<open>CreateTable\<close> with a new name adds one empty table under the next object id, keeps every other table
  and the invariant, and saves the catalog if its file can be opened; with a name that is taken it throws and changes
  nothing.\<close>
theorem CreateTable_adds_or_throws:
  assumes "cat_inv c" and "good_columns cols" and "unat (next_table_oid c) + 1 < 2 ^ 32"
  shows "if tab_of c name = None
    then \<exists>oid c'. CreateTable name (new_Schema cols) c = (Inr oid, c') \<and> cat_inv c' \<and>
      cat_abs c' = (cat_abs c)(name \<mapsto> (cols, [])) \<and> env c' = env c \<and> next_table_oid c' = next_table_oid c + 1 \<and>
      files c' = (if opens_to_write (env c) catalog_path then (files c)(catalog_path \<mapsto> catalog_bytes c') else files c)
    else CreateTable name (new_Schema cols) c =
      (throw (Runtime_error (''Error: Table '' @ quoted name @ '' already exists in catalog.'')), c)"
  using CreateTable_spec [OF assms(1) _ assms(2,3), of name] CreateTable_exists [OF assms(1), of name] by simp

lemma CreateTable_adds_or_throws_witness:
  "\<exists>oid c'. CreateTable ''u'' (new_Schema ex_cols) ex_created = (Inr oid, c') \<and> cat_abs c' ''u'' = Some (ex_cols, []) \<and>
    CreateTable ''t'' (new_Schema ex_cols) ex_created =
      (throw (Runtime_error (''Error: Table '' @ quoted ''t'' @ '' already exists in catalog.'')), ex_created)"
proof -
  have i: "cat_inv ex_created" "unat (next_table_oid ex_created) + 1 < 2 ^ 32"
    using ex_created_inv(1) by (simp_all add: db_inv_def ex_created_def)
  have "tab_of ex_created ''u'' = None" by (simp add: tab_of_def ex_created_def)
  with CreateTable_adds_or_throws [OF i(1) ex_cols_good i(2), of "''u''"] CreateTable_adds_or_throws [OF i(1) ex_cols_good i(2), of "''t''"]
    ex_created_tab show ?thesis by auto
qed

text \<open>C23. A table scan visits every stored record exactly once: the loop over the iterator folds its body over a
  list of ids without repetition that holds just the ids of the stored records, and leaves the heap and the
  page list as they are. The body may do anything that changes no record.\<close>
theorem table_scan_visits_each_once:
  assumes "rm_inv b rm" and "reads_as b (heap_of rm) f body"
  shows "\<exists>rids rm'. table_scan body acc rm = Some (fold_result f rids acc, rm') \<and> distinct rids \<and>
    set rids = {rid. heap_get (heap_of rm) rid \<noteq> None} \<and> rm_same b rm rm'"
  using table_scan_spec [OF assms, of acc] live_rids_distinct [OF assms(1)] live_rids_complete [OF assms(1)]
  unfolding dom_def by blast

lemma table_scan_visits_each_once_witness:
  "\<exists>c ti rid rm'. ex_state c \<and> tab_of c ''t'' = Some ti \<and>
    table_scan (delete_body (ti_schema ti) None []) [] (ti_table ti) = Some (Inr [rid], rm')"
proof -
  from ex_insert obtain c where c: "ex_state c" by blast
  then obtain ti where ti: "tab_of c ''t'' = Some ti" "columns (ti_schema ti) = ex_cols" by (auto simp: ex_state_def)
  from c have i: "db_inv c" "db_abs c ''t'' = Some (ex_cols, {#[''42'', ''false'']#})" by (auto simp: ex_state_def)
  note t = db_table [OF i(1) ti(1)]
  let ?h = "heap_of (ti_table ti)"
  have b: "reads_as True ?h (\<lambda>rid rids. Inr (rids @ [rid])) (delete_body (ti_schema ti) None [])"
    (is "reads_as _ _ ?f _") using delete_body_reads [OF t(1,4), of None True "[]"] t(2) by (simp add: row_matches_def)
  from table_scan_visits_each_once [OF t(3) b, of "[]"] obtain rids rm' where
    s: "table_scan (delete_body (ti_schema ti) None []) [] (ti_table ti) = Some (Inr rids, rm')" "distinct rids"
      "set rids = dom (heap_get ?h)" using fold_result_append [of "\<lambda>x. x" _ "[]"] unfolding dom_def by (metis append_Nil list.map_ident)
  have "table_rows ex_cols ?h = {#[''42'', ''false'']#}" using db_abs_tab [OF ti(1)] i(2) ti(2) by simp
  then have "size (table_rows ex_cols ?h) = 1" by simp
  then have "card (set rids) = 1" using s(3) by (simp add: table_rows_def)
  then obtain rid where "rids = [rid]" using s(2) by (auto simp: distinct_card length_Suc_conv)
  with c ti s(1) show ?thesis by blast
qed

end
