(* ===== verification/Parser_Bounds.thy ===== *)
theory Parser_Bounds
  imports Parser_Facts Catalog_File
begin

section \<open>How large a parsed statement can be\<close>

text \<open>
  A line has a bounded length, so a table that it creates has short names and few columns. These
  bounds discharge the size conditions of the layers below.
\<close>

definition small_columns :: "Column list \<Rightarrow> bool" where
  "small_columns cols \<longleftrightarrow> list_all storable_column cols \<and> length cols \<le> 1021"

lemma small_columns_good: "small_columns cols \<Longrightarrow> good_columns cols"
  by (auto simp: small_columns_def good_columns_def storable_column_def list_all_iff)

lemma small_columns_bytes: "small_columns cols \<Longrightarrow> sum_list (map clen cols) \<le> 4084"
proof -
  assume s: "small_columns cols"
  then have "clen c \<le> 4" if "c \<in> set cols" for c
    using that by (auto simp: small_columns_def list_all_iff storable_column_def good_column_def clen_def)
  then have "sum_list (map clen cols) \<le> sum_list (map (\<lambda>_. 4) cols)" by (rule sum_list_mono)
  also have "\<dots> = 4 * length cols" by (simp add: sum_list_triv)
  finally show ?thesis using s by (simp add: small_columns_def)
qed

lemma concat_words: "list_all is_word ws \<Longrightarrow> length ws \<le> length (concat ws)"
proof (induction ws)
  case (Cons w ws)
  then have "1 \<le> length w" "length ws \<le> length (concat ws)" by (auto simp: is_word_def Suc_le_eq)
  then show ?case unfolding concat.simps list.size length_append by linarith
qed simp

lemma words_length: "length (words s) \<le> length s" "w \<in> set (words s) \<Longrightarrow> length w \<le> length s"
proof -
  from words_of_text [of s] have w: "list_all is_word (words s)" "concat (words s) = filter not_space s" by auto
  then have c: "length (concat (words s)) \<le> length s" by simp
  with concat_words [OF w(1)] show "length (words s) \<le> length s" by simp
  assume "w \<in> set (words s)"
  then obtain us vs where "words s = us @ w # vs" by (auto simp: in_set_conv_decomp)
  with c show "length w \<le> length s" by simp
qed

lemma word_pairs_small:
  "2 * length (word_pairs ws) \<le> length ws \<and>
    list_all (\<lambda>c. good_column c \<and> column_name c \<in> set ws) (word_pairs ws)"
  by (induction ws rule: word_pairs.induct) (auto simp: good_column_def new_Column_def list_all_iff)

lemma parse_columns_small:
  assumes "length s < 1024"
  shows "small_columns (parse_columns (new_sstream s))"
proof -
  have p: "parse_columns (new_sstream s) = word_pairs (words s)"
    using parse_columns_words [OF stream_ok_new] by (simp add: new_sstream_def)
  have "storable_column c" if "c \<in> set (word_pairs (words s))" for c
    using that word_pairs_small [of "words s"] words_length(2) [of _ s] assms
    by (fastforce simp: storable_column_def list_all_iff)
  moreover have "length (word_pairs (words s)) \<le> 1021"
    using word_pairs_small [of "words s"] words_length(1) [of s] assms by linarith
  ultimately show ?thesis by (simp add: p small_columns_def list_all_iff)
qed

lemma next_word_length:
  "next_word i = (w, i') \<Longrightarrow> length (ss_rest i') + (case w of None \<Rightarrow> 0 | Some v \<Rightarrow> length v) \<le> length (ss_rest i)"
proof -
  assume e: "next_word i = (w, i')"
  let ?r = "dropWhile is_space (ss_rest i)"
  have "length (takeWhile not_space ?r) + length (dropWhile not_space ?r) = length ?r"
    by (metis length_append takeWhile_dropWhile_id)
  then show ?thesis
    using e length_dropWhile_le [of is_space "ss_rest i"] by (auto simp: next_word_def Let_def split: if_splits)
qed

lemma next_word_into_length:
  "next_word_into v i = (w, i') \<Longrightarrow> length (ss_rest i') \<le> length (ss_rest i) \<and> length w \<le> max (length v) (length (ss_rest i))"
  using next_word_length [of i] by (auto simp: next_word_into_def split: prod.splits option.splits)

lemma getline_length: "getline i = (line, i') \<Longrightarrow> length line \<le> length (ss_rest i)"
  using length_takeWhile_le [of "\<lambda>c. c \<noteq> CHR 0x0A" "ss_rest i"] by (auto simp: getline_def Let_def split: if_splits)

lemma Parse_create_small:
  assumes "Parse t = Some (CreateTableStatement n cols)" and "length t < 1024"
  shows "small_columns cols" and "length n < 1024"
proof -
  obtain w i where 1: "next_word_into [] (new_sstream t) = (w, i)" by fastforce
  have "ParseCreate i = Some (CreateTableStatement n cols)"
    using assms(1) 1
    by (auto simp: Parse_def ParseInsert_def ParseSelect_def ParseDelete_def Let_def split: if_splits prod.splits option.splits)
  then obtain k i1 i2 rest i3 where 2: "next_word_into [] i = (k, i1)" "next_word_into [] i1 = (n, i2)" "getline i2 = (rest, i3)"
    "cols = parse_columns (new_sstream (map clean_char rest))"
    by (auto simp: ParseCreate_def Let_def split: if_splits prod.splits)
  note l = next_word_into_length [OF 1] next_word_into_length [OF 2(1)] next_word_into_length [OF 2(2)] getline_length [OF 2(3)]
  have b: "length rest < 1024" "length n < 1024" using l assms(2) by (auto simp: new_sstream_def)
  from parse_columns_small [of "map clean_char rest"] b 2(4) show "small_columns cols" "length n < 1024" by simp_all
qed

end
