(* ===== verification/Database_Capacity.thy ===== *)
theory Database_Capacity
  imports Database_Refinement Parser_Bounds
begin

section \<open>How much of its ranges a database uses\<close>

text \<open>
  The object ids, page ids and lists of a catalog are 32-bit numbers. \<open>capacity k c\<close> bounds all of
  them by \<open>k\<close>; one statement raises the bound by at most one. So a client that sends fewer than
  \<open>2^19\<close> statements need not know the layers below: what it must keep to is \<open>stmt_ok\<close>, which
  speaks of tables and values only.
\<close>

definition entry_within :: "nat \<Rightarrow> TableEntry \<Rightarrow> bool" where
  "entry_within k e \<longleftrightarrow> length (te_name e) < 2 ^ 32 \<and> small_columns (te_columns e) \<and>
     (\<forall>p \<in> set (te_pages e). 0 \<le> p \<and> p < int k) \<and> length (te_pages e) \<le> k \<and> 0 \<le> te_next e \<and> te_next e \<le> int k"

definition capacity :: "nat \<Rightarrow> Catalog \<Rightarrow> bool" where
  "capacity k c \<longleftrightarrow> list_all (entry_within k) (map table_entry (tables c)) \<and> length (tables c) \<le> k \<and>
     unat (next_table_oid c) \<le> k"

lemma entry_within_mono: "entry_within k e \<Longrightarrow> k \<le> m \<Longrightarrow> entry_within m e"
  by (force simp: entry_within_def)

lemma within_mono: "capacity k c \<Longrightarrow> k \<le> m \<Longrightarrow> capacity m c"
  by (auto simp: capacity_def list_all_iff intro: entry_within_mono)

lemma within_cong:
  assumes "mset (map table_entry (tables c')) = mset (map table_entry (tables c))" and "next_table_oid c' = next_table_oid c"
  shows "capacity k c' = capacity k c"
proof -
  have "length (tables c') = length (tables c)" using mset_eq_length [OF assms(1)] by simp
  with mset_eq_setD [OF assms(1)] assms(2) show ?thesis by (simp only: capacity_def list_all_iff)
qed

lemma within_new: "capacity 0 (new_Catalog e fs)"
  by (simp add: capacity_def new_Catalog_def)

lemma within_storable: "capacity k c \<Longrightarrow> k \<le> 2 ^ 19 \<Longrightarrow> storable_catalog c"
  by (force simp: capacity_def storable_catalog_def list_all_iff entry_within_def storable_entry_def small_columns_def)

lemma within_table:
  assumes inv: "cat_inv c" and t: "tab_of c n = Some ti" and w: "capacity k c"
  shows "entry_within k (table_entry (ti_oid ti, ti))"
proof -
  from tab_of_oid [OF inv t] have "(ti_oid ti, ti) \<in> set (tables c)" by simp
  with w show ?thesis by (auto simp: capacity_def list_all_iff)
qed

lemma within_set_table:
  assumes inv: "cat_inv c" and t: "tab_of c n = Some ti" and w: "capacity k c" "k \<le> m"
    and p: "\<forall>p \<in> set (page_ids tm). 0 \<le> p \<and> p < int m" "length (page_ids tm) \<le> m"
    and nx: "0 \<le> rm_GetNextPageId tm" "rm_GetNextPageId tm \<le> int m"
  shows "capacity m (set_table (ti_oid ti) tm c)"
proof -
  note w' = within_mono [OF w]
  have "entry_within m (table_entry (k, if k = ti_oid ti then x\<lparr>ti_table := tm\<rparr> else x))"
    if "(k, x) \<in> set (tables c)" for k x
  proof -
    from that w' have "entry_within m (table_entry (k, x))" by (auto simp: capacity_def list_all_iff)
    with p nx show ?thesis by (auto simp: entry_within_def table_entry_def)
  qed
  then have "list_all (entry_within m) (map table_entry (tables (set_table (ti_oid ti) tm c)))"
    by (auto simp: list_all_iff set_table_def)
  with w' show ?thesis by (simp add: capacity_def set_table_def)
qed

lemma within_same_table:
  assumes "cat_inv c" and "tab_of c n = Some ti" and "capacity k c" and "page_ids tm = page_ids (ti_table ti)"
    and "rm_GetNextPageId tm = rm_GetNextPageId (ti_table ti)"
  shows "capacity k (set_table (ti_oid ti) tm c)"
  using within_table [OF assms(1-3)] assms(4,5)
  by (intro within_set_table [OF assms(1-3) order_refl]) (auto simp: entry_within_def)

subsection \<open>Each statement\<close>

text \<open>What a client must keep to: an \<^verbatim>\<open>INSERT\<close> gives at most as many values as there are columns, and an INTEGER
  column gets a number in range.\<close>

definition stmt_ok :: "database \<Rightarrow> Statement \<Rightarrow> bool" where
  "stmt_ok db stmt = (case stmt of
     CreateTableStatement n cols \<Rightarrow> length n < 2 ^ 32 \<and> small_columns cols
   | InsertStatement n raws \<Rightarrow> (case db n of None \<Rightarrow> True
       | Some (cols, R) \<Rightarrow> length raws \<le> length cols \<and>
           (case parse_row cols raws of Inl (Runtime_error _) \<Rightarrow> True | Inl _ \<Rightarrow> False | Inr _ \<Rightarrow> True))
   | _ \<Rightarrow> True)"

lemma stmt_ok_adm:
  assumes inv: "db_inv c" and w: "capacity k c" "k < 2 ^ 19" and ok: "stmt_ok (db_abs c) stmt"
  shows "db_adm stmt c"
proof (cases stmt)
  case (CreateTableStatement n cols)
  with w ok show ?thesis by (auto simp: db_adm_def stmt_ok_def capacity_def small_columns_good)
next
  case (InsertStatement n raws)
  show ?thesis
  proof (cases "tab_of c n")
    case (Some ti)
    from inv have "cat_inv c" by (simp add: db_inv_def)
    from within_table [OF this Some w(1)] have "entry_within k (table_entry (ti_oid ti, ti))" .
    with Some ok InsertStatement w(2) show ?thesis
      by (auto simp: db_adm_def stmt_ok_def db_abs_tab entry_within_def small_columns_bytes page_addr_def MAX_PAGES_def)
  qed (simp add: db_adm_def InsertStatement)
qed (simp_all add: db_adm_def)

lemma commit_within:
  assumes "db_inv c" and "capacity k c" and "ExecuteCommit c = Some (r, c')"
  shows "capacity k c'"
proof -
  from assms(1) have "cat_inv c" by (simp add: db_inv_def)
  from ExecuteCommit_spec [OF this] assms(3) have "mset (map table_entry (tables c')) = mset (map table_entry (tables c))"
    "next_table_oid c' = next_table_oid c" by auto
  from within_cong [OF this] assms(2) show ?thesis by simp
qed

lemma create_within:
  assumes inv: "db_inv c" and w: "capacity k c" "k < 2 ^ 19" and ok: "length n < 2 ^ 32" "small_columns cols"
    and x: "ExecuteCreate n cols c = Some (r, c')"
  shows "capacity (Suc k) c'"
proof (cases "tab_of c n")
  case None
  from inv have c: "cat_inv c" by (simp add: db_inv_def)
  let ?oid = "next_table_oid c" and ?tm = "new_TableManager (table_file (next_table_oid c)) c"
  let ?info = "\<lparr>ti_schema = new_Schema cols, ti_name = n, ti_table = ?tm, ti_oid = ?oid\<rparr>"
  from c have new: "?oid \<notin> set (map fst (tables c))" by (auto simp: cat_inv_def)
  have "map_of (table_names c) n = None" using None tab_of_None [OF c, of n] by (simp add: map_of_eq_None_iff)
  with x alist_update_new [OF new] have t: "tables c' = tables c @ [(?oid, ?info)]" "next_table_oid c' = ?oid + 1"
    by (auto simp: ExecuteCreate_def CreateTable_def Let_def)
  have "unat (?oid + 1) = unat ?oid + 1" using w by (intro unat_u32_Suc) (simp add: capacity_def)
  moreover have "entry_within (Suc k) (table_entry (?oid, ?info))"
    using ok new_Schema_spec(1) [OF small_columns_good [OF ok(2)]]
    by (simp add: entry_within_def table_entry_def new_TableManager_def new_RecordManager_def rm_GetNextPageId_def new_BufferPool_def)
  ultimately show ?thesis using within_mono [OF w(1), of "Suc k"] w(1) by (simp add: capacity_def t)
next
  case (Some ti)
  from inv have c: "cat_inv c" by (simp add: db_inv_def)
  have "c' = c" using CreateTable_exists [OF c, of n "new_Schema cols"] Some x by (simp add: ExecuteCreate_def)
  with within_mono [OF w(1)] show ?thesis by simp
qed

lemma select_within:
  assumes inv: "db_inv c" and w: "capacity k c" and x: "ExecuteSelect n c = Some (r, c')"
  shows "capacity k c'"
proof (cases "tab_of c n")
  case None
  with x w GetTable_db [OF inv] show ?thesis by (simp add: ExecuteSelect_def)
next
  case (Some ti)
  from inv have c: "cat_inv c" by (simp add: db_inv_def)
  note t = db_table [OF inv Some]
  from select_scan [OF t(3,1,4)] obtain rs tm where
    s: "table_scan (select_body (new_Schema (columns (ti_schema ti)))) [] (ti_table ti) = Some (Inr rs, tm)"
      "rm_same True (ti_table ti) tm" by blast
  with x GetTable_db [OF inv] Some t(2) have "c' = set_table (ti_oid ti) tm c" by (auto simp: ExecuteSelect_def)
  with within_same_table [OF c Some w] s(2) show ?thesis by (simp add: rm_same_def)
qed

lemma delete_matching_within:
  assumes inv: "db_inv c" and t: "tab_of c n = Some ti" and wi: "\<forall>i. w = Some i \<longrightarrow> i < length (columns (ti_schema ti))"
    and k: "capacity k c" and x: "delete_matching ti w val c = Some (r, c')"
  shows "capacity k c'"
proof -
  let ?cols = "columns (ti_schema ti)" and ?h = "heap_of (ti_table ti)"
  from inv have c: "cat_inv c" by (simp add: db_inv_def)
  note tb = db_table [OF inv t]
  from delete_scan [OF tb(3,1,4) wi] obtain tm where
    s: "table_scan (delete_body (new_Schema ?cols) w val) [] (ti_table ti) =
        Some (Inr (filter (row_matches ?cols ?h w val) (live_rids ?h)), tm)" "rm_same True (ti_table ti) tm" by blast
  then have sm: "rm_inv True tm" "page_ids tm = page_ids (ti_table ti)" "rm_GetNextPageId tm = rm_GetNextPageId (ti_table ti)"
    by (simp_all add: rm_same_def)
  have "\<forall>rid \<in> set (filter (row_matches ?cols ?h w val) (live_rids ?h)). rid_page_id rid \<in> set (page_ids tm)"
    using live_rids_complete [OF tb(3)] rid_on_page sm(2) by auto
  from delete_tuples_spec [OF sm(1) this] obtain tm' where
    "delete_tuples (filter (row_matches ?cols ?h w val) (live_rids ?h)) tm = Some tm'"
    "page_ids tm' = page_ids tm" "rm_GetNextPageId tm' = rm_GetNextPageId tm" by blast
  with x s(1) tb(2) sm within_same_table [OF c t k, of tm'] show ?thesis by (simp add: delete_matching_def)
qed

lemma delete_within:
  assumes inv: "db_inv c" and w: "capacity k c" and x: "ExecuteDelete n col val c = Some (r, c')"
  shows "capacity k c'"
proof (cases "tab_of c n")
  case None
  with x w GetTable_db [OF inv] show ?thesis by (simp add: ExecuteDelete_def)
next
  case (Some ti)
  note t = db_table [OF inv Some]
  have "where_index (ti_schema ti) col = column_at (columns (ti_schema ti)) col"
    using where_index_new [OF t(1)] t(2) by simp
  then have b: "\<forall>j. where_index (ti_schema ti) col = Some j \<longrightarrow> j < length (columns (ti_schema ti))"
    by (auto dest: column_at_bound)
  from x GetTable_db [OF inv] Some consider "c' = c"
    | "delete_matching ti None val c = Some (r, c')"
    | "delete_matching ti (where_index (ti_schema ti) col) val c = Some (r, c')"
    by (auto simp: ExecuteDelete_def split: if_splits option.splits)
  then show ?thesis
  proof cases
    case 2
    show ?thesis by (rule delete_matching_within [OF inv Some _ w 2]) simp
  next
    case 3
    show ?thesis by (rule delete_matching_within [OF inv Some b w 3])
  qed (use w in simp)
qed

lemma insert_within:
  assumes inv: "db_inv c" and w: "capacity k c" "k < 2 ^ 19" and ok: "stmt_ok (db_abs c) (InsertStatement n raws)"
    and x: "ExecuteInsert n raws c = Some (r, c')"
  shows "capacity (Suc k) c'"
proof (cases "tab_of c n")
  case None
  with x within_mono [OF w(1)] GetTable_db [OF inv] show ?thesis by (simp add: ExecuteInsert_def)
next
  case (Some ti)
  let ?cols = "columns (ti_schema ti)"
  from inv have c: "cat_inv c" by (simp add: db_inv_def)
  note t = db_table [OF inv Some]
  from stmt_ok_adm [OF inv w ok] Some have a: "length raws \<le> length ?cols" "sum_list (map clen ?cols) \<le> 4084"
    "page_addr (rm_GetNextPageId (ti_table ti))" by (simp_all add: db_adm_def Let_def)
  have "capacity (Suc k) c" using within_mono [OF w(1)] by simp
  from within_table [OF c Some this] within_table [OF c Some w(1)] have e: "\<forall>p \<in> set (page_ids (ti_table ti)). 0 \<le> p \<and> p < 1 + int k"
    "length (page_ids (ti_table ti)) \<le> k" "0 \<le> rm_GetNextPageId (ti_table ti)" "rm_GetNextPageId (ti_table ti) \<le> int k"
    by (auto simp: entry_within_def)
  consider (none) "?cols = []" | (throws) e where "?cols \<noteq> []" "parse_row ?cols raws = Inl e"
    | (stores) row where "?cols \<noteq> []" "parse_row ?cols raws = Inr row" by (cases "parse_row ?cols raws") auto
  then show ?thesis
  proof cases
    case none
    with a(1) insert_without_columns(1) [OF inv Some none] x have "c' = set_table (ti_oid ti) (ti_table ti) c" by simp
    with within_mono [OF within_same_table [OF c Some w(1) refl refl]] show ?thesis by simp
  next
    case throws
    with insert_throws [OF inv Some _ a(1)] x within_mono [OF w(1)] show ?thesis by simp
  next
    case stores
    from insert_row [OF inv Some stores(2) a(1,2) stores(1) a(3)] x obtain d rid tm where
      i: "rm_Insert (Some d) (length d) (ti_table ti) = Some (rid, tm)" "0 < length d" "length d \<le> 4084"
        "c' = set_table (ti_oid ti) tm c" by auto
    from rm_Insert_spec [OF t(3) i(2,3) a(3)] i(1) have "page_ids tm = page_ids (ti_table ti) \<and>
        rm_GetNextPageId tm = rm_GetNextPageId (ti_table ti) \<or>
        page_ids tm = page_ids (ti_table ti) @ [rm_GetNextPageId (ti_table ti)] \<and>
        rm_GetNextPageId tm = rm_GetNextPageId (ti_table ti) + 1" by auto
    with e show ?thesis unfolding i(4) by (intro within_set_table [OF c Some w(1)]) auto
  qed
qed

text \<open>One statement within the client's contract: it is answered, no exception escapes, and the bound grows by at most one.\<close>

lemma Execute_step:
  assumes inv: "db_inv c" and w: "capacity k c" "k < 2 ^ 19" and ok: "stmt_ok (db_abs c) stmt"
  shows "\<exists>q c'. Execute stmt c = Some (Inr q, c') \<and> db_inv c' \<and> capacity (Suc k) c' \<and>
    db_step (db_abs c) stmt (Inr q) (db_abs c')"
proof -
  from db.step_sim [OF inv stmt_ok_adm [OF inv w ok]] obtain r c' where
    x: "Execute stmt c = Some (r, c')" "db_inv c'" "db_step (db_abs c) stmt r (db_abs c')" by blast
  have "\<exists>q. r = Inr q"
    using x(3) ok by (cases rule: db_step.cases) (auto simp: stmt_ok_def split: exn.splits)
  moreover have "capacity (Suc k) c'"
    using x(1) ok create_within [OF inv w] insert_within [OF inv w] within_mono [of k _ "Suc k"]
      select_within [OF inv w(1)] delete_within [OF inv w(1)] commit_within [OF inv w(1)]
    by (cases stmt) (auto simp: Execute_def stmt_ok_def [of _ "CreateTableStatement _ _"])
  ultimately show ?thesis using x by blast
qed

end
