(* ===== verification/Row_Order.thy ===== *)
theory Row_Order
  imports Insert_Order Database_Capacity
begin

section \<open>The order of the rows\<close>

text \<open>
  The relations of \<open>Database\<close> are multisets. For a table that is only filled more is true: \<^verbatim>\<open>SELECT\<close> lists its
  rows in the order in which they were inserted. \<open>filled c n cols rs\<close>: table \<open>n\<close> is packed and its scan gives \<open>rs\<close>.
\<close>

definition filled :: "Catalog \<Rightarrow> string \<Rightarrow> Column list \<Rightarrow> string list list \<Rightarrow> bool" where
  "filled c n cols rs \<longleftrightarrow> (\<exists>ti. tab_of c n = Some ti \<and> columns (ti_schema ti) = cols \<and>
     packed (sum_list (map clen cols)) (heap_of (ti_table ti)) \<and>
     map (row_at cols (heap_of (ti_table ti))) (live_rids (heap_of (ti_table ti))) = rs)"

lemma filled_create:
  assumes inv: "db_inv c" and w: "capacity k c" "k < 2 ^ 19" and new: "db_abs c n = None"
    and cols: "length n < 2 ^ 32" "small_columns cols"
  shows "\<exists>q c'. Execute (CreateTableStatement n cols) c = Some (Inr q, c') \<and> db_inv c' \<and> capacity (Suc k) c' \<and>
    filled c' n cols [] \<and> success q"
proof -
  have ok: "stmt_ok (db_abs c) (CreateTableStatement n cols)" using cols by (simp add: stmt_ok_def)
  from Execute_step [OF inv w ok] obtain q c' where x: "Execute (CreateTableStatement n cols) c = Some (Inr q, c')"
    "db_inv c'" "capacity (Suc k) c'" "db_step (db_abs c) (CreateTableStatement n cols) (Inr q) (db_abs c')" by blast
  from inv have c: "cat_inv c" by (simp add: db_inv_def)
  have t: "tab_of c n = None" using new by (simp add: db_abs_none)
  from stmt_ok_adm [OF inv w ok] have "unat (next_table_oid c) + 1 < 2 ^ 32" by (simp add: db_adm_def)
  from CreateTable_spec [OF c t small_columns_good [OF cols(2)] this] x(1)
  have "cat_abs c' = (cat_abs c)(n \<mapsto> (cols, []))" by (auto simp: Execute_def ExecuteCreate_def)
  then have "cat_abs c' n = Some (cols, [])" by simp
  moreover have "live_rids [] = []" by (simp add: live_rids_def)
  ultimately have "filled c' n cols []" by (auto simp: filled_def cat_abs_def)
  moreover have "success q" using x(4) new by (auto elim: db_step.cases)
  ultimately show ?thesis using x by blast
qed

lemma filled_insert:
  assumes inv: "db_inv c" and w: "capacity k c" "k < 2 ^ 19" and f: "filled c n cols rs" and cols: "cols \<noteq> []"
    and raws: "length raws \<le> length cols" "parse_row cols raws = Inr row"
  shows "\<exists>q c'. Execute (InsertStatement n raws) c = Some (Inr q, c') \<and> db_inv c' \<and> capacity (Suc k) c' \<and>
    filled c' n cols (rs @ [row]) \<and> success q"
proof -
  from f obtain ti where ti: "tab_of c n = Some ti" "columns (ti_schema ti) = cols"
    "packed (sum_list (map clen cols)) (heap_of (ti_table ti))"
    "map (row_at cols (heap_of (ti_table ti))) (live_rids (heap_of (ti_table ti))) = rs" by (auto simp: filled_def)
  let ?h = "heap_of (ti_table ti)"
  have ok: "stmt_ok (db_abs c) (InsertStatement n raws)" using raws by (simp add: stmt_ok_def db_abs_tab [OF ti(1)] ti(2))
  from Execute_step [OF inv w ok] obtain q c' where x: "Execute (InsertStatement n raws) c = Some (Inr q, c')"
    "db_inv c'" "capacity (Suc k) c'" by blast
  note t = db_table [OF inv ti(1), unfolded ti(2)]
  from stmt_ok_adm [OF inv w ok] ti have adm: "sum_list (map clen cols) \<le> 4084" "page_addr (rm_GetNextPageId (ti_table ti))"
    by (simp_all add: db_adm_def Let_def)
  note a = raws(2) raws(1) adm(1) cols
  from insert_row [OF inv ti(1), unfolded ti(2), OF a adm(2)] obtain d rid tm where
    i: "rm_Insert (Some d) (length d) (ti_table ti) = Some (rid, tm)" "0 < length d" "length d \<le> 4084"
      "length d = sum_list (map clen cols)" "tuple_texts cols d = row"
      "ExecuteInsert n raws c = Some (Inr \<lparr>success = True, message = ''1 row inserted.'', rows = []\<rparr>, set_table (ti_oid ti) tm c)"
    by blast
  from rm_Insert_packed [OF t(3) _ i(2,3) adm(2)] ti(3) i(1,4) have tm: "rm_inv True tm" "packed (sum_list (map clen cols)) (heap_of tm)"
    "live_rids (heap_of tm) = live_rids ?h @ [rid]" "heap_get (heap_of tm) = (heap_get ?h)(rid \<mapsto> d)" "heap_get ?h rid = None" by auto
  from inv have c: "cat_inv c" by (simp add: db_inv_def)
  have c': "c' = set_table (ti_oid ti) tm c" "success q" using x(1) i(6) by (auto simp: Execute_def)
  from set_table_spec(2) [OF c ti(1) tm(1) rm_Insert_fname [OF i(1)]]
  have "tab_of c' n = Some (ti\<lparr>ti_table := tm\<rparr>)" unfolding c' by simp
  moreover have "rid \<notin> set (live_rids ?h)" using live_rids_complete [OF t(3)] tm(5) by auto
  then have "map (row_at cols (heap_of tm)) (live_rids ?h) = map (row_at cols ?h) (live_rids ?h)"
    by (intro map_cong) (auto simp: row_at_def tm(4))
  then have "map (row_at cols (heap_of tm)) (live_rids (heap_of tm)) = rs @ [row]"
    using ti(4) i(5) by (simp add: tm(3)) (simp add: row_at_def tm(4))
  ultimately have "filled c' n cols (rs @ [row])" using ti(2) tm(2) by (simp add: filled_def)
  then show ?thesis using x c'(2) by blast
qed

lemma filled_select:
  assumes inv: "db_inv c" and f: "filled c n cols rs"
  shows "\<exists>c'. Execute (SelectStatement n) c =
    Some (Inr \<lparr>success = True, message = to_string (int (length rs)) @ '' rows returned.'', rows = rs\<rparr>, c')"
proof -
  from f obtain ti where ti: "tab_of c n = Some ti" "columns (ti_schema ti) = cols"
    "map (row_at cols (heap_of (ti_table ti))) (live_rids (heap_of (ti_table ti))) = rs" by (auto simp: filled_def)
  note t = db_table [OF inv ti(1), unfolded ti(2)]
  from select_scan [OF t(3,1,4)] ti(3) obtain tm where
    "table_scan (select_body (new_Schema cols)) [] (ti_table ti) = Some (Inr rs, tm)" by blast
  then show ?thesis using GetTable_db [OF inv, of n] ti(1) t(2) by (simp add: Execute_def ExecuteSelect_def)
qed

lemma filled_inserts:
  assumes "db_inv c" and "capacity k c" and "k + length rawss \<le> 2 ^ 19" and "filled c n cols rs" and "cols \<noteq> []"
    and "\<forall>raws \<in> set rawss. length raws \<le> length cols" and "map (parse_row cols) rawss = map Inr new"
  shows "\<exists>qs c'. run Execute (map (InsertStatement n) rawss) c = Some (map Inr qs, c') \<and> db_inv c' \<and>
    filled c' n cols (rs @ new) \<and> (\<forall>q \<in> set qs. success q)"
  using assms(1-4,6,7)
proof (induction rawss arbitrary: c k rs new)
  case Nil
  then show ?case by (intro exI [of _ "[]"] exI [of _ c]) simp
next
  case (Cons raws rawss)
  from Cons.prems(6) obtain row new' where new: "new = row # new'" "parse_row cols raws = Inr row"
    "map (parse_row cols) rawss = map Inr new'" by (cases new) auto
  have k: "k < 2 ^ 19" "length raws \<le> length cols" using Cons.prems(3,5) by simp_all
  from filled_insert [OF Cons.prems(1,2) k(1) Cons.prems(4) assms(5) k(2) new(2)] obtain q c1 where
    1: "Execute (InsertStatement n raws) c = Some (Inr q, c1)" "db_inv c1" "capacity (Suc k) c1"
      "filled c1 n cols (rs @ [row])" "success q" by blast
  from Cons.IH [OF 1(2,3) _ 1(4) _ new(3)] Cons.prems(3,5) obtain qs c2 where
    "run Execute (map (InsertStatement n) rawss) c1 = Some (map Inr qs, c2)" "db_inv c2"
    "filled c2 n cols (rs @ row # new')" "\<forall>q \<in> set qs. success q" by auto
  with 1(1,5) new(1) show ?case by (intro exI [of _ "q # qs"] exI [of _ c2]) auto
qed

end
