(* ===== verification/Row_Origin.thy ===== *)
theory Row_Origin
  imports Database_Refinement
begin

section \<open>Where rows and exceptions come from\<close>

text \<open>
  In a run of statements every row that is selected was written by an earlier \<^verbatim>\<open>INSERT\<close> into the table that an
  earlier \<^verbatim>\<open>CREATE TABLE\<close> made, and every exception is one of \<^verbatim>\<open>std::stoi\<close> on a value for an INTEGER column. Shown
  for the relations of \<open>Database\<close>, by the invariant \<open>origin\<close> of their runs.
\<close>

text \<open>The statements \<open>P ! k\<close> and \<open>P ! j\<close> create a table with these columns and insert these values into it, in this order.\<close>

definition written :: "Statement list \<Rightarrow> nat \<Rightarrow> nat \<Rightarrow> string \<Rightarrow> Column list \<Rightarrow> string list \<Rightarrow> bool" where
  "written P k j n cols raws \<longleftrightarrow> k < j \<and> j < length P \<and> P ! k = CreateTableStatement n cols \<and> P ! j = InsertStatement n raws"

definition origin :: "Statement list \<Rightarrow> database \<Rightarrow> bool" where
  "origin P db \<longleftrightarrow> (\<forall>n cols R. db n = Some (cols, R) \<longrightarrow> (\<exists>k < length P. P ! k = CreateTableStatement n cols \<and>
     (\<forall>row \<in># R. \<exists>j raws. written P k j n cols raws \<and> parse_row cols raws = Inr row)))"

definition answer_origin :: "Statement list \<Rightarrow> nat \<Rightarrow> QueryResult result \<Rightarrow> bool" where
  "answer_origin P i r \<longleftrightarrow> (case r of
     Inl ex \<Rightarrow> \<exists>k n cols raws m. k < i \<and> P ! k = CreateTableStatement n cols \<and> P ! i = InsertStatement n raws \<and>
       m < length raws \<and> m < length cols \<and> column_type (cols ! m) = INTEGER \<and> stoi (raws ! m) = Inl ex
   | Inr q \<Rightarrow> \<forall>row \<in> set (rows q). \<exists>k j n cols raws. j < i \<and> written P k j n cols raws \<and> P ! i = SelectStatement n \<and>
       parse_row cols raws = Inr row)"

lemma written_append: "written P k j n cols raws \<Longrightarrow> written (P @ Q) k j n cols raws"
  by (auto simp: written_def nth_append)

lemma answer_origin_append:
  assumes "i < length P"
  shows "answer_origin (P @ Q) i r \<longleftrightarrow> answer_origin P i r"
proof -
  have "k < i \<Longrightarrow> (P @ Q) ! k = P ! k" for k using assms by (simp add: nth_append)
  moreover have "j < i \<Longrightarrow> written (P @ Q) k j n cols raws \<longleftrightarrow> written P k j n cols raws" for k j n cols raws
    using assms by (auto simp: written_def nth_append)
  ultimately show ?thesis using assms by (simp add: answer_origin_def nth_append cong: conj_cong split: sum.splits)
qed

lemma canon_throws: "canon t raw = Inl e \<Longrightarrow> (\<forall>w. e \<noteq> Runtime_error w) \<Longrightarrow> t = INTEGER \<and> stoi raw = Inl e"
  by (cases "stoi raw") (auto simp: canon_def split: if_splits)

lemma parse_row_throws:
  "parse_row cols raws = Inl e \<Longrightarrow> (\<forall>w. e \<noteq> Runtime_error w) \<Longrightarrow>
    \<exists>m. m < length raws \<and> m < length cols \<and> column_type (cols ! m) = INTEGER \<and> stoi (raws ! m) = Inl e"
proof (induction cols raws rule: parse_row.induct)
  case (3 c cols raw raws)
  show ?case
  proof (cases "canon (column_type c) raw")
    case (Inl e')
    with 3 canon_throws [of "column_type c" raw e] show ?thesis by (intro exI [of _ 0]) auto
  next
    case (Inr s)
    with 3(2) have "parse_row cols raws = Inl e" by (cases "parse_row cols raws") auto
    from 3(1) [OF Inr this 3(3)] obtain m where "m < length raws" "m < length cols"
      "column_type (cols ! m) = INTEGER" "stoi (raws ! m) = Inl e" by blast
    then show ?thesis by (intro exI [of _ "Suc m"]) simp
  qed
qed simp_all

lemma catch_Inl: "catch_runtime_error (Inl e) = Inl ex \<Longrightarrow> e = ex \<and> (\<forall>w. ex \<noteq> Runtime_error w)"
  by (cases e) auto

lemma originD:
  assumes "origin P db" and "db n = Some (cols, R)"
  obtains k where "k < length P" and "P ! k = CreateTableStatement n cols"
    and "\<And>row. row \<in># R \<Longrightarrow> \<exists>j raws. written P k j n cols raws \<and> parse_row cols raws = Inr row"
  using assms unfolding origin_def by blast

lemma origin_append:
  assumes "origin P db"
  shows "origin (P @ Q) db"
  unfolding origin_def
proof (intro allI impI)
  fix n cols R assume "db n = Some (cols, R)"
  from originD [OF assms this] obtain k where k: "k < length P" "P ! k = CreateTableStatement n cols"
    "\<And>row. row \<in># R \<Longrightarrow> \<exists>j raws. written P k j n cols raws \<and> parse_row cols raws = Inr row" by blast
  then show "\<exists>k < length (P @ Q). (P @ Q) ! k = CreateTableStatement n cols \<and>
      (\<forall>row \<in># R. \<exists>j raws. written (P @ Q) k j n cols raws \<and> parse_row cols raws = Inr row)"
    by (intro exI [of _ k]) (auto simp: nth_append dest!: k(3) intro: written_append)
qed

lemma origin_upd:
  assumes "origin P db" and "k < length P" and "P ! k = CreateTableStatement n cols"
    and "\<And>row. row \<in># R \<Longrightarrow> \<exists>j raws. written P k j n cols raws \<and> parse_row cols raws = Inr row"
  shows "origin P (db(n \<mapsto> (cols, R)))"
  using assms unfolding origin_def by (auto split: if_splits)

lemma step_origin:
  assumes P: "origin P db" and st: "db_step db q r db'"
  shows "origin (P @ [q]) db'"
proof -
  note keep = origin_append [OF P, of "[q]"]
  from st show ?thesis
  proof cases
    case (db_create n cols)
    have "origin (P @ [q]) (db(n \<mapsto> (cols, {#})))" by (rule origin_upd [OF keep, of "length P"]) (simp_all add: db_create)
    with db_create show ?thesis by simp
  next
    case (db_insert n cols R raws row)
    from originD [OF P db_insert(4)] obtain k where k: "k < length P" "P ! k = CreateTableStatement n cols"
      "\<And>row. row \<in># R \<Longrightarrow> \<exists>j raws. written P k j n cols raws \<and> parse_row cols raws = Inr row" by blast
    have "written (P @ [q]) k (length P) n cols raws" using k db_insert(1) by (simp add: written_def nth_append)
    then have "origin (P @ [q]) (db(n \<mapsto> (cols, add_mset row R)))"
      using k db_insert(6) by (intro origin_upd [OF keep, of k]) (auto simp: nth_append dest!: k(3) intro: written_append)
    with db_insert show ?thesis by simp
  next
    case (db_delete n cols R col H val)
    from originD [OF P db_delete(4)] obtain k where k: "k < length P" "P ! k = CreateTableStatement n cols"
      "\<And>row. row \<in># R \<Longrightarrow> \<exists>j raws. written P k j n cols raws \<and> parse_row cols raws = Inr row" by blast
    have "origin (P @ [q]) (db(n \<mapsto> (cols, R - H)))"
    proof (rule origin_upd [OF keep, of k])
      show "k < length (P @ [q])" "(P @ [q]) ! k = CreateTableStatement n cols" using k(1,2) by (simp_all add: nth_append)
      show "\<exists>j raws. written (P @ [q]) k j n cols raws \<and> parse_row cols raws = Inr row" if "row \<in># R - H" for row
        using k(3) [OF in_diffD [OF that]] written_append by blast
    qed
    with db_delete show ?thesis by simp
  qed (use keep in simp_all)
qed

lemma step_answer_origin:
  assumes P: "origin P db" and st: "db_step db q r db'"
  shows "answer_origin (P @ [q]) (length P) r"
  using st
proof cases
  case (db_select n cols R rs)
  from originD [OF P db_select(4)] obtain k where k: "k < length P" "P ! k = CreateTableStatement n cols"
    "\<And>row. row \<in># R \<Longrightarrow> \<exists>j raws. written P k j n cols raws \<and> parse_row cols raws = Inr row" by blast
  have rs: "\<exists>k j n' cols raws. j < length P \<and> written (P @ [q]) k j n' cols raws \<and> q = SelectStatement n' \<and>
      parse_row cols raws = Inr row" if "row \<in> set rs" for row
  proof -
    have "row \<in># R" using that db_select(5) by auto
    from k(3) [OF this] obtain j raws where "written P k j n cols raws" "parse_row cols raws = Inr row" by blast
    then show ?thesis using written_append [of P k j n cols raws "[q]"] db_select(1)
      by (intro exI [of _ k] exI [of _ j] exI [of _ n] exI [of _ cols] exI [of _ raws]) (simp add: written_def)
  qed
  show ?thesis unfolding answer_origin_def db_select(2) sum.case QueryResult.simps nth_append_length by (intro ballI rs)
next
  case (db_insert_throws n cols R raws e)
  show ?thesis
  proof (cases r)
    case (Inl ex)
    have "catch_runtime_error (Inl e) = Inl ex" using db_insert_throws(2) Inl by (rule subst)
    then have e: "e = ex" "\<forall>w. e \<noteq> Runtime_error w" using catch_Inl by blast+
    from originD [OF P db_insert_throws(4)] obtain k where k: "k < length P" "P ! k = CreateTableStatement n cols" by blast
    from parse_row_throws [OF db_insert_throws(5) e(2)] obtain m where
      m: "m < length raws" "m < length cols" "column_type (cols ! m) = INTEGER" "stoi (raws ! m) = Inl e" by blast
    show ?thesis unfolding answer_origin_def Inl sum.case nth_append_length
      by (intro exI [of _ k] exI [of _ n] exI [of _ cols] exI [of _ raws] exI [of _ m])
        (use k m e(1) db_insert_throws(1) in \<open>simp add: nth_append\<close>)
  next
    case (Inr res)
    with db_insert_throws(2) have "rows res = []" by (cases e) auto
    with Inr show ?thesis by (simp add: answer_origin_def)
  qed
qed (simp_all add: answer_origin_def unknown_table_def)

lemma run_origin:
  assumes "spec_run db_step db qs rs db'" and "origin P db"
  shows "length rs = length qs \<and> (\<forall>i < length qs. answer_origin (P @ qs) (length P + i) (rs ! i))"
  using assms
proof (induction arbitrary: P rule: spec_run.induct)
  case (spec_run_Cons db q r db1 qs rs db2)
  from spec_run_Cons.IH [OF step_origin [OF spec_run_Cons.prems spec_run_Cons.hyps(1)]]
  have IH: "length rs = length qs" "\<forall>i < length qs. answer_origin (P @ q # qs) (Suc (length P + i)) (rs ! i)" by simp_all
  have "answer_origin (P @ q # qs) (length P) r"
    using step_answer_origin [OF spec_run_Cons.prems spec_run_Cons.hyps(1)] answer_origin_append [of "length P" "P @ [q]" qs r] by simp
  with IH show ?case by (auto simp: nth_Cons split: nat.splits)
qed simp

subsection \<open>Rows in their printed form\<close>

text \<open>Reading a printed row gives it back.\<close>

lemma canon_canon: "canon t raw = Inr s \<Longrightarrow> canon t s = Inr s"
proof (cases "t = INTEGER")
  case True
  assume "canon t raw = Inr s"
  with True obtain i where "stoi raw = Inr i" "s = to_string i" by (cases "stoi raw") (auto simp: canon_def)
  with True stoi_range [of raw i] stoi_to_string [of i] show ?thesis by (simp add: canon_def)
next
  case False
  have "upper ''true'' = ''TRUE''" "upper ''false'' = ''FALSE''" by code_simp+
  moreover assume "canon t raw = Inr s"
  ultimately show ?thesis using False by (auto simp: canon_def split: if_splits)
qed

lemma canon_default: "good_column c \<Longrightarrow> canon (column_type c) (default_text (column_type c)) = Inr (default_text (column_type c))"
proof -
  assume "good_column c"
  moreover have "canon INTEGER (default_text INTEGER) = Inr (default_text INTEGER)"
    "canon BOOLEAN (default_text BOOLEAN) = Inr (default_text BOOLEAN)" by code_simp+
  ultimately show ?thesis by (auto simp: good_column_def)
qed

lemma parse_row_typed:
  "parse_row cols raws = Inr row \<Longrightarrow> \<forall>c \<in> set cols. good_column c \<Longrightarrow>
    list_all2 (\<lambda>c s. canon (column_type c) s = Inr s) cols row"
proof (induction cols raws arbitrary: row rule: parse_row.induct)
  case (2 c cols)
  then show ?case by (auto simp: canon_default list_all2_map2 list.rel_refl_strong)
next
  case (3 c cols raw raws)
  then obtain s row' where "canon (column_type c) raw = Inr s" "parse_row cols raws = Inr row'" "row = s # row'"
    by (cases "parse_row cols raws") (auto split: sum.splits)
  with 3 canon_canon show ?case by simp
qed simp

lemma adm_good_columns:
  "run_adm Execute db_adm stmts c \<Longrightarrow> run Execute stmts c = Some (rs, c') \<Longrightarrow> CreateTableStatement n cols \<in> set stmts \<Longrightarrow>
    good_columns cols"
  by (induction stmts arbitrary: c rs) (auto simp: db_adm_def split: bind_splits)

lemma answer_typed:
  assumes "answer_origin P i (Inr q)" and "i < length P" and "row \<in> set (rows q)"
    and "\<And>n cols. CreateTableStatement n cols \<in> set P \<Longrightarrow> good_columns cols"
  shows "\<exists>k j n cols raws. k < j \<and> j < i \<and> P ! k = CreateTableStatement n cols \<and> P ! j = InsertStatement n raws \<and>
    P ! i = SelectStatement n \<and> parse_row cols raws = Inr row \<and> list_all2 (\<lambda>c s. canon (column_type c) s = Inr s) cols row"
proof -
  from assms(1,3) obtain k j n cols raws where w: "j < i" "written P k j n cols raws" "P ! i = SelectStatement n"
    "parse_row cols raws = Inr row" unfolding answer_origin_def sum.case by blast
  then have "k < length P" "P ! k = CreateTableStatement n cols" using assms(2) by (simp_all add: written_def)
  then have "good_columns cols" using assms(4) [of n cols] nth_mem [of k P] by simp
  then have "list_all2 (\<lambda>c s. canon (column_type c) s = Inr s) cols row"
    using parse_row_typed [OF w(4)] by (simp add: good_columns_def)
  with w show ?thesis unfolding written_def by blast
qed

end
