(* ===== verification/Database_Properties.thy ===== *)
theory Database_Properties
  imports Example_Database Row_Order Row_Origin
begin

section \<open>Properties of the executor\<close>

text \<open>
  The properties of the executor over catalog, heap files, pools and disk, as consequences of its
  refinement of the relations of \<open>Database\<close>.
\<close>

inductive_simps db_step_simps:
  "db_step db (InsertStatement n raws) r db'"
  "db_step db (SelectStatement n) r db'"
  "db_step db (DeleteStatement n col val) r db'"

text \<open>C2. The executor behaves as a relational database: from any state that satisfies the invariant, any
  sequence of admissible statements is executed without undefined behaviour, every answer is the one
  the specification allows, and the invariant holds at the end. The specification knows tables as
  multisets of printed rows only; catalog, tuples, heap files, buffer pools and disk are behind it.\<close>
theorem db_runs_as_relations:
  assumes "db_inv c" and "run_adm Execute db_adm stmts c"
  shows "\<exists>rs c'. run Execute stmts c = Some (rs, c') \<and> db_inv c' \<and> spec_run db_step (db_abs c) stmts rs (db_abs c')"
  by (rule db.run_sim [OF assms])

lemma db_runs_as_relations_witness:
  "\<exists>rs c. run Execute [CreateTableStatement ''t'' ex_cols, InsertStatement ''t'' [''42''], SelectStatement ''t''] (new_Catalog ex_env Map.empty) =
      Some (rs, c) \<and> rs ! 2 = Inr \<lparr>success = True, message = ''1 rows returned.'', rows = [[''42'', ''false'']]\<rparr>"
proof -
  from ex_insert obtain c2 where c2: "Execute (InsertStatement ''t'' [''42'']) ex_created =
      Some (Inr \<lparr>success = True, message = ''1 row inserted.'', rows = []\<rparr>, c2)" "ex_state c2" by blast
  have sel: "db_adm (SelectStatement ''t'') c2" by (simp add: db_adm_def)
  obtain r c3 where "Execute (SelectStatement ''t'') c2 = Some (r, c3)"
    using db.step_sim [OF _ sel] c2(2) by (auto simp: ex_state_def)
  then have adm: "run_adm Execute db_adm [CreateTableStatement ''t'' ex_cols, InsertStatement ''t'' [''42''], SelectStatement ''t'']
      (new_Catalog ex_env Map.empty)"
    using ex_create ex_adm_create ex_adm_insert [of "[''42'']"] c2(1) sel by simp
  have one: "to_string 1 = ''1''" by code_simp
  from db_runs_as_relations [OF db_inv_new(1) adm] show ?thesis
    by (auto simp: db_inv_new(2) ex_row one db_step_simps elim!: db_step.cases [of _ "CreateTableStatement _ _"])
qed

text \<open>C27. Runs are type safe. In any run of admissible statements from an empty catalog: an exception that leaves the executor is
  one of \<^verbatim>\<open>std::stoi\<close>, on a value that an \<^verbatim>\<open>INSERT\<close> gives for a column that an earlier \<^verbatim>\<open>CREATE TABLE\<close> declared
  INTEGER; no \<^verbatim>\<open>any_cast\<close> ever meets a value of another type, and no type is unknown to a conversion. Every row that a
  \<^verbatim>\<open>SELECT\<close> prints is the one that an earlier \<^verbatim>\<open>INSERT\<close> into this table wrote (its values in canonical form, defaults
  where it gave none), with one text per declared column that reads back, as a value of that column's type, to itself.\<close>
theorem runs_type_safe:
  assumes "visits_all e" and "run_adm Execute db_adm stmts (new_Catalog e fs)"
  shows "\<exists>rs c'. run Execute stmts (new_Catalog e fs) = Some (rs, c') \<and> length rs = length stmts \<and>
    (\<forall>i < length stmts. case rs ! i of
       Inl ex \<Rightarrow> \<exists>k n cols raws m. k < i \<and> stmts ! k = CreateTableStatement n cols \<and> stmts ! i = InsertStatement n raws \<and>
         m < length raws \<and> m < length cols \<and> column_type (cols ! m) = INTEGER \<and> stoi (raws ! m) = Inl ex
     | Inr q \<Rightarrow> \<forall>row \<in> set (rows q). \<exists>k j n cols raws. k < j \<and> j < i \<and> stmts ! k = CreateTableStatement n cols \<and>
         stmts ! j = InsertStatement n raws \<and> stmts ! i = SelectStatement n \<and> parse_row cols raws = Inr row \<and>
         list_all2 (\<lambda>c s. canon (column_type c) s = Inr s) cols row)"
proof -
  from db.run_sim [OF db_inv_new(1) [OF assms(1)] assms(2)] obtain rs c' where
    r: "run Execute stmts (new_Catalog e fs) = Some (rs, c')" "spec_run db_step Map.empty stmts rs (db_abs c')"
    by (auto simp: db_inv_new(2))
  have "origin [] Map.empty" by (simp add: origin_def)
  from run_origin [OF r(2) this] have o: "length rs = length stmts" "\<forall>i < length stmts. answer_origin stmts i (rs ! i)" by simp_all
  note g = adm_good_columns [OF assms(2) r(1)]
  show ?thesis
  proof (intro exI [of _ rs] exI [of _ c'] conjI allI impI)
    fix i assume i: "i < length stmts"
    with o(2) have a: "answer_origin stmts i (rs ! i)" by blast
    show "case rs ! i of
       Inl ex \<Rightarrow> \<exists>k n cols raws m. k < i \<and> stmts ! k = CreateTableStatement n cols \<and> stmts ! i = InsertStatement n raws \<and>
         m < length raws \<and> m < length cols \<and> column_type (cols ! m) = INTEGER \<and> stoi (raws ! m) = Inl ex
     | Inr q \<Rightarrow> \<forall>row \<in> set (rows q). \<exists>k j n cols raws. k < j \<and> j < i \<and> stmts ! k = CreateTableStatement n cols \<and>
         stmts ! j = InsertStatement n raws \<and> stmts ! i = SelectStatement n \<and> parse_row cols raws = Inr row \<and>
         list_all2 (\<lambda>c s. canon (column_type c) s = Inr s) cols row"
    proof (cases "rs ! i")
      case (Inl ex)
      from a show ?thesis unfolding answer_origin_def Inl sum.case .
    next
      case (Inr q)
      show ?thesis unfolding Inr sum.case by (rule ballI, rule answer_typed [OF a [unfolded Inr] i _ g])
    qed
  qed (use r(1) o(1) in simp_all)
qed

text \<open>A value that is no number, then a row, then the rows.\<close>

lemma runs_type_safe_witness:
  "\<exists>rs c. run Execute [CreateTableStatement ''t'' ex_cols, InsertStatement ''t'' [''abc''], InsertStatement ''t'' [''42''],
      SelectStatement ''t''] (new_Catalog ex_env Map.empty) = Some (rs, c) \<and> rs ! 1 = Inl Invalid_argument \<and>
    (\<exists>q. rs ! 3 = Inr q \<and> rows q \<noteq> [] \<and> (\<forall>row \<in> set (rows q). row = [''42'', ''false'']))"
proof -
  let ?stmts = "[CreateTableStatement ''t'' ex_cols, InsertStatement ''t'' [''abc''], InsertStatement ''t'' [''42''], SelectStatement ''t'']"
  from ex_insert obtain c2 where c2: "Execute (InsertStatement ''t'' [''42'']) ex_created =
      Some (Inr \<lparr>success = True, message = ''1 row inserted.'', rows = []\<rparr>, c2)" "ex_state c2" by blast
  have sel: "db_adm (SelectStatement ''t'') c2" by (simp add: db_adm_def)
  have "db_inv c2" "db_abs c2 ''t'' = Some (ex_cols, {#[''42'', ''false'']#})" using c2(2) by (simp_all add: ex_state_def)
  from db.step_sim [OF this(1) sel] this(2) obtain q c3 where
    q: "Execute (SelectStatement ''t'') c2 = Some (Inr q, c3)" "mset (rows q) = {#[''42'', ''false'']#}"
    by (auto simp: Execute_def elim: db_selectE)
  have bad: "parse_row ex_cols [''abc''] = Inl Invalid_argument" "stoi ''42'' = Inr 42" by code_simp+
  have "Execute (InsertStatement ''t'' [''abc'']) ex_created = Some (Inl Invalid_argument, ex_created)"
    using insert_throws [OF ex_created_inv(1) ex_created_tab, of "[''abc'']" Invalid_argument] bad(1) new_Schema_spec(1) [OF ex_cols_good]
      ex_cols_len by (simp add: Execute_def)
  with c2(1) q(1) ex_create have r: "run Execute ?stmts (new_Catalog ex_env Map.empty) = Some ([
      Inr \<lparr>success = True, message = ''Table '' @ quoted ''t'' @ '' created.'', rows = []\<rparr>, Inl Invalid_argument,
      Inr \<lparr>success = True, message = ''1 row inserted.'', rows = []\<rparr>, Inr q], c3)"
    and adm: "run_adm Execute db_adm ?stmts (new_Catalog ex_env Map.empty)"
    using ex_adm_create ex_adm_insert [of "[''abc'']"] ex_adm_insert [of "[''42'']"] sel by simp_all
  have "\<forall>row \<in> set (rows q). \<exists>k j n cols raws. k < j \<and> j < (3 :: nat) \<and> ?stmts ! k = CreateTableStatement n cols \<and>
      ?stmts ! j = InsertStatement n raws \<and> ?stmts ! 3 = SelectStatement n \<and> parse_row cols raws = Inr row \<and>
      list_all2 (\<lambda>c s. canon (column_type c) s = Inr s) cols row"
    using runs_type_safe [OF ex_env_good(1) adm] r by (auto dest: spec [of _ 3])
  then have "\<forall>row \<in> set (rows q). row = [''42'', ''false'']"
    using bad(1) ex_row by (fastforce simp: less_Suc_eq numeral_3_eq_3)
  moreover have "rows q \<noteq> []" using q(2) by auto
  ultimately show ?thesis using r by (simp del: run.simps)
qed

text \<open>C17. A committed database survives a restart: after \<^verbatim>\<open>COMMIT\<close> with a catalog file that can be opened, loading the catalog from the files as
  they are on disk, with nothing kept from memory, gives a database that satisfies the invariant and has
  the same tables, columns and rows.\<close>
theorem commit_survives_restart:
  assumes "db_inv c" and "storable_catalog c" and "opens_to_write (env c) catalog_path" and "visits_all e"
  shows "\<exists>m c'. Execute CommitStatement c = Some (Inr \<lparr>success = True, message = m, rows = []\<rparr>, c') \<and>
    db_inv (LoadCatalog catalog_path (new_Catalog e (db_files c'))) \<and>
    db_abs (LoadCatalog catalog_path (new_Catalog e (db_files c'))) = db_abs c"
proof -
  from assms(1) have inv: "cat_inv c" by (simp add: db_inv_def)
  from commit_restart [OF inv assms(2-4)] ExecuteCommit_spec [OF inv] obtain m c' where
    c': "ExecuteCommit c = Some (Inr \<lparr>success = True, message = m, rows = []\<rparr>, c')"
      "cat_inv (LoadCatalog catalog_path (new_Catalog e (db_files c')))"
      "cat_abs (LoadCatalog catalog_path (new_Catalog e (db_files c'))) = cat_abs c" by auto
  from db_inv_cong [OF assms(1) c'(2,3)] db_abs_cong [OF c'(3)] c'(1) show ?thesis by (auto simp: Execute_def)
qed

lemma commit_survives_restart_witness:
  "\<exists>c r c'. Execute CommitStatement c = Some (Inr r, c') \<and>
    db_abs (LoadCatalog catalog_path (new_Catalog ex_env (db_files c'))) = [''t'' \<mapsto> (ex_cols, {#[''42'', ''false'']#})]"
proof -
  from ex_insert obtain c where "ex_state c" by blast
  with commit_survives_restart [of c ex_env] show ?thesis by (metis ex_state_def ex_env_good)
qed

text \<open>C19. What is inserted is selected: after an \<^verbatim>\<open>INSERT\<close> with admissible values, \<^verbatim>\<open>SELECT\<close> returns the rows of
  before and the new row, printed in canonical form and completed with defaults; every other table is unchanged.\<close>
theorem insert_then_select:
  assumes "db_inv c" and "db_abs c n = Some (cols, R)" and "db_adm (InsertStatement n raws) c"
    and "parse_row cols raws = Inr row" and "cols \<noteq> []"
  shows "\<exists>c1 rs c2. Execute (InsertStatement n raws) c = Some (Inr \<lparr>success = True, message = ''1 row inserted.'', rows = []\<rparr>, c1) \<and>
    Execute (SelectStatement n) c1 = Some (Inr \<lparr>success = True, message = to_string (int (size R + 1)) @ '' rows returned.'', rows = rs\<rparr>, c2) \<and>
    mset rs = add_mset row R \<and> (\<forall>m. m \<noteq> n \<longrightarrow> db_abs c2 m = db_abs c m)"
proof -
  from db.step_sim [OF assms(1,3)] obtain r c1 where 1: "Execute (InsertStatement n raws) c = Some (r, c1)" "db_inv c1"
    "db_step (db_abs c) (InsertStatement n raws) r (db_abs c1)" by blast
  from 1(3) assms(2,4,5) have i: "r = Inr \<lparr>success = True, message = ''1 row inserted.'', rows = []\<rparr>"
    "db_abs c1 = (db_abs c)(n \<mapsto> (cols, add_mset row R))" by (auto simp: db_step_simps)
  have "db_adm (SelectStatement n) c1" by (simp add: db_adm_def)
  from db.step_sim [OF 1(2) this] obtain r2 c2 where 2: "Execute (SelectStatement n) c1 = Some (r2, c2)"
    "db_step (db_abs c1) (SelectStatement n) r2 (db_abs c2)" by blast
  from 2(2) i(2) obtain rs where "mset rs = add_mset row R" "db_abs c2 = db_abs c1"
    "r2 = Inr \<lparr>success = True, message = to_string (int (length rs)) @ '' rows returned.'', rows = rs\<rparr>"
    by (auto simp: db_step_simps)
  with 1(1) 2(1) i show ?thesis by (auto simp flip: size_mset)
qed

lemma insert_then_select_witness:
  "\<exists>c1 c2. Execute (InsertStatement ''t'' [''42'']) ex_created = Some (Inr \<lparr>success = True, message = ''1 row inserted.'', rows = []\<rparr>, c1) \<and>
    Execute (SelectStatement ''t'') c1 = Some (Inr \<lparr>success = True, message = ''1 rows returned.'', rows = [[''42'', ''false'']]\<rparr>, c2)"
proof -
  have one: "to_string 1 = ''1''" by code_simp
  from insert_then_select [where R = "{#}", OF ex_created_inv(1) _ ex_adm_insert ex_row] ex_created_inv(2)
  show ?thesis by (auto simp: one ex_cols_def)
qed

text \<open>C20. \<^verbatim>\<open>DELETE ... WHERE\<close> removes exactly the rows whose printed value in the named column equals the
  given text, and reports their number; all other rows and all other tables stay. Without a \<^verbatim>\<open>WHERE\<close> every row
  of the table goes.\<close>
theorem delete_removes_matches:
  assumes "db_inv c" and "db_abs c n = Some (cols, R)"
    and k: "col = [] \<or> column_at cols col = Some k"
  shows "\<exists>c'. Execute (DeleteStatement n col val) c = Some (Inr \<lparr>success = True,
      message = to_string (int (size (filter_mset (\<lambda>row. col = [] \<or> row ! k = val) R))) @ '' row(s) deleted.'', rows = []\<rparr>, c') \<and>
    db_inv c' \<and> db_abs c' = (db_abs c)(n \<mapsto> (cols, filter_mset (\<lambda>row. \<not> (col = [] \<or> row ! k = val)) R))"
proof -
  have hit: "row_hit cols col val = (\<lambda>row. col = [] \<or> row ! k = val)"
    using k by (auto simp: row_hit_def fun_eq_iff)
  have "db_adm (DeleteStatement n col val) c" by (simp add: db_adm_def)
  from db.step_sim [OF assms(1) this] obtain r c' where 1: "Execute (DeleteStatement n col val) c = Some (r, c')" "db_inv c'"
    "db_step (db_abs c) (DeleteStatement n col val) r (db_abs c')" by blast
  have "R - filter_mset P R = filter_mset (\<lambda>row. \<not> P row) R" for P
    by (metis add_diff_cancel_left' multiset_partition)
  with 1 assms(2) k show ?thesis by (auto simp: db_step_simps hit)
qed

lemma delete_removes_matches_witness:
  "\<exists>c c'. Execute (DeleteStatement ''t'' ''id'' ''42'') c = Some (Inr \<lparr>success = True, message = ''1 row(s) deleted.'', rows = []\<rparr>, c') \<and>
    db_abs c' = [''t'' \<mapsto> (ex_cols, {#})]"
proof -
  from ex_insert obtain c where c: "db_inv c" "db_abs c ''t'' = Some (ex_cols, {#[''42'', ''false'']#})" "db_abs c = [''t'' \<mapsto> (ex_cols, {#[''42'', ''false'']#})]"
    by (auto simp: ex_state_def)
  have one: "to_string 1 = ''1''" by code_simp
  have "column_at ex_cols ''id'' = Some 0" by code_simp
  with delete_removes_matches [OF c(1,2), of "''id''" 0 "''42''"] c(3) one show ?thesis by auto
qed

text \<open>C25. Insertion order: after a table is created and any number of rows are inserted into it, across as many pages as
  they take, \<^verbatim>\<open>SELECT\<close> lists exactly these rows in the order of their insertion. (New rows always go to the last
  page, because all pages before it are full.)\<close>
theorem inserts_selected_in_order:
  assumes "db_inv c" and "capacity k c" and "k + length rawss < 2 ^ 19" and "db_abs c n = None"
    and "length n < 2 ^ 32" and "small_columns cols" and "cols \<noteq> []"
    and "\<forall>raws \<in> set rawss. length raws \<le> length cols" and "map (parse_row cols) rawss = map Inr new"
  shows "\<exists>qs q c'. run Execute (CreateTableStatement n cols # map (InsertStatement n) rawss @ [SelectStatement n]) c =
      Some (map Inr (qs @ [q]), c') \<and> (\<forall>q \<in> set qs. success q) \<and> success q \<and> rows q = new"
proof -
  have "k < 2 ^ 19" using assms(3) by simp
  from filled_create [OF assms(1,2) this assms(4-6)] obtain q0 c0 where
    0: "Execute (CreateTableStatement n cols) c = Some (Inr q0, c0)" "db_inv c0" "capacity (Suc k) c0"
      "filled c0 n cols []" "success q0" by blast
  from filled_inserts [OF 0(2,3) _ 0(4) assms(7-9)] assms(3) obtain qs c1 where
    1: "run Execute (map (InsertStatement n) rawss) c0 = Some (map Inr qs, c1)" "db_inv c1" "filled c1 n cols new"
      "\<forall>q \<in> set qs. success q" by auto
  from filled_select [OF 1(2,3)] obtain c2 where
    2: "Execute (SelectStatement n) c1 = Some (Inr \<lparr>success = True,
      message = to_string (int (length new)) @ '' rows returned.'', rows = new\<rparr>, c2)" by blast
  from 0(1,5) 1(1,4) 2 show ?thesis
    by (intro exI [of _ "q0 # qs"] exI [of _ "\<lparr>success = True,
      message = to_string (int (length new)) @ '' rows returned.'', rows = new\<rparr>"] exI [of _ c2]) (simp add: run_append)
qed

lemma inserts_selected_in_order_witness:
  "\<exists>qs q c'. run Execute [CreateTableStatement ''t'' ex_cols, InsertStatement ''t'' [''2'', ''true''], InsertStatement ''t'' [''1''],
      InsertStatement ''t'' [''3''], SelectStatement ''t''] (new_Catalog ex_env Map.empty) = Some (map Inr (qs @ [q]), c') \<and>
    rows q = [[''2'', ''true''], [''1'', ''false''], [''3'', ''false'']]"
proof -
  have s: "small_columns ex_cols" by (simp add: small_columns_def ex_cols_def storable_column_def good_column_def new_Column_def)
  have p: "map (parse_row ex_cols) [[''2'', ''true''], [''1''], [''3'']] =
      map Inr [[''2'', ''true''], [''1'', ''false''], [''3'', ''false'']]" by code_simp
  have l: "\<forall>raws \<in> set [[''2'', ''true''], [''1''], [''3'']]. length raws \<le> length ex_cols" using ex_cols_len by simp
  have n: "ex_cols \<noteq> []" "length ''t'' < 2 ^ 32" "db_abs (new_Catalog ex_env Map.empty) ''t'' = None"
    "0 + length [[''2'', ''true''], [''1''], [''3'']] < 2 ^ 19" by (simp_all add: ex_cols_def db_inv_new(2))
  from inserts_selected_in_order [OF db_inv_new(1) [OF ex_env_good(1)] within_new n(4,3,2) s n(1) l p] show ?thesis
    unfolding list.map append.simps by blast
qed

text \<open>\<^verbatim>\<open>SELECT\<close> returns one row for each stored record, in page order and within a page in slot order,
  decoded with the table's schema, and changes no table.\<close>
lemma select_in_scan_order:
  assumes "db_inv c" and "tab_of c n = Some ti"
  shows "\<exists>c'. Execute (SelectStatement n) c = Some (Inr \<lparr>success = True,
      message = to_string (int (length (live_rids (heap_of (ti_table ti))))) @ '' rows returned.'',
      rows = map (\<lambda>rid. tuple_texts (columns (ti_schema ti)) (the (heap_get (heap_of (ti_table ti)) rid)))
        (live_rids (heap_of (ti_table ti)))\<rparr>, c') \<and> db_inv c' \<and> db_abs c' = db_abs c"
proof -
  note t = db_table [OF assms]
  from select_scan [OF t(3,1,4)] obtain tm where
    s: "table_scan (select_body (ti_schema ti)) [] (ti_table ti) =
        Some (Inr (map (row_at (columns (ti_schema ti)) (heap_of (ti_table ti))) (live_rids (heap_of (ti_table ti)))), tm)"
      "rm_same True (ti_table ti) tm" unfolding t(2) [symmetric] by blast
  from db_same_table [OF assms s(2)] s(1) GetTable_db [OF assms(1), of n] assms(2) show ?thesis
    by (simp add: Execute_def ExecuteSelect_def row_at_def [abs_def])
qed

lemma select_in_scan_order_witness:
  "\<exists>c'. Execute (SelectStatement ''t'') ex_created = Some (Inr \<lparr>success = True, message = ''0 rows returned.'', rows = []\<rparr>, c')"
proof -
  have z: "to_string 0 = ''0''" by code_simp
  have "live_rids (heap_of ex_table) = []" by (simp add: live_rids_def ex_table_def heap_of_new)
  with select_in_scan_order [OF ex_created_inv(1) ex_created_tab] z show ?thesis by auto
qed

end
