(* ===== verification/Parser_Lines.thy ===== *)
theory Parser_Lines
  imports Parser_Facts
begin

section \<open>Only the first line of a text is parsed\<close>

text \<open>
  A statement that ends at a line end is read to there and no further, whatever follows: column and value
  lists are taken with \<open>getline\<close>, the other statements read a fixed number of words. The one word that
  is looked at beyond a line is that after \<^verbatim>\<open>DELETE FROM t\<close>.
\<close>

abbreviation line_end :: char where
  "line_end \<equiv> CHR 0x0A"

lemma at_end_line [simp]: "at_end (line_end # u)"
  by (simp add: at_end_def is_space_def char_code_def)

lemma getline_line:
  assumes "one_line r"
  shows "getline \<lparr>ss_rest = r @ line_end # u, ss_eof = False, ss_fail = False\<rparr> =
    (r, \<lparr>ss_rest = u, ss_eof = False, ss_fail = False\<rparr>)"
proof -
  have "\<forall>x \<in> set r. x \<noteq> line_end" using assms unfolding one_line_def by blast
  then show ?thesis by (simp add: getline_def takeWhile_append2 dropWhile_append2)
qed

definition not_where :: "string \<Rightarrow> bool" where
  "not_where u \<longleftrightarrow> words u = [] \<or> upper (hd (words u)) \<noteq> ''WHERE''"

lemma next_word_not_where:
  assumes "not_where u" and "next_word \<lparr>ss_rest = line_end # u, ss_eof = False, ss_fail = False\<rparr> = (Some w, i)"
  shows "upper w \<noteq> ''WHERE''"
proof -
  let ?i = "\<lparr>ss_rest = line_end # u, ss_eof = False, ss_fail = False\<rparr>"
  have ws: "words (ss_rest ?i) = words u" by (simp add: words_Cons_space is_space_def char_code_def)
  have "stream_ok ?i" by (simp add: stream_ok_def)
  from next_word_words [OF this, unfolded ws] assms(2) have "words u \<noteq> [] \<and> w = hd (words u)"
    by (cases "words u") auto
  with assms(1) show ?thesis by (auto simp: not_where_def)
qed

lemma Parse_insert_line:
  assumes "upper k1 = ''INSERT''" and "upper k2 = ''INTO''" and "is_word name" and "upper k3 = ''VALUES''"
    and "list_all is_plain vs"
  shows "Parse (k1 @ '' '' @ k2 @ '' '' @ name @ '' '' @ k3 @ list_text b vs @ line_end # u) = Some (InsertStatement name vs)"
proof -
  let ?r = "list_text b vs" and ?e = "list_text b vs @ line_end # u"
  have o: "one_line ?r"
    using assms(5) by (intro one_line_text) (auto simp: list_all_iff is_plain_def dest!: one_line_word)
  have e: "at_end ?e" "?e \<noteq> []" by (simp_all add: list_text_def)
  note k = keyword_words(3) [OF assms(1)] keyword_words(4) [OF assms(2)] keyword_words(5) [OF assms(4)]
  show ?thesis
    using next_word_first [of k1 "CHR '' '' # k2 @ CHR '' '' # name @ CHR '' '' # k3 @ ?e"]
      next_word_space [of k2 "CHR '' '' # name @ CHR '' '' # k3 @ ?e"]
      next_word_space [of name "CHR '' '' # k3 @ ?e"] next_word_space [of k3 ?e] getline_line [OF o, of u] k assms e
    by (simp add: Parse_def ParseInsert_def next_word_into_def new_sstream_def parse_values_text
        flip: clean_def new_sstream_def)
qed

lemma Parse_create_line:
  assumes "upper k1 = ''CREATE''" and "upper k2 = ''TABLE''" and "is_word name"
    and "list_all (\<lambda>(n, t). is_plain n \<and> is_plain t) cols"
  shows "Parse (k1 @ '' '' @ k2 @ '' '' @ name @ list_text b (map column_text cols) @ line_end # u) =
    Some (CreateTableStatement name (map (\<lambda>(n, t). new_Column n (if upper t = ''BOOLEAN'' then BOOLEAN else INTEGER)) cols))"
proof -
  let ?r = "list_text b (map column_text cols)" and ?e = "list_text b (map column_text cols) @ line_end # u"
  have o: "one_line ?r"
    using assms(4) by (intro one_line_text)
      (auto simp: list_all_iff column_text_def one_line_def is_plain_def dest!: one_line_word)
  have e: "at_end ?e" "?e \<noteq> []" by (simp_all add: list_text_def)
  note k = keyword_words(1) [OF assms(1)] keyword_words(2) [OF assms(2)]
  show ?thesis
    using next_word_first [of k1 "CHR '' '' # k2 @ CHR '' '' # name @ ?e"] next_word_space [of k2 "CHR '' '' # name @ ?e"]
      next_word_space [of name ?e] getline_line [OF o, of u] k assms e
    by (simp add: Parse_def ParseCreate_def next_word_into_def new_sstream_def parse_columns_text
        flip: clean_def new_sstream_def)
qed

lemma Parse_select_line:
  assumes "upper k1 = ''SELECT''" and "upper k2 = ''FROM''" and "is_name name"
  shows "Parse (k1 @ '' * '' @ k2 @ '' '' @ name @ semi b @ line_end # u) = Some (SelectStatement name)"
proof -
  note k = keyword_words(6) [OF assms(1)] keyword_words(7) [OF assms(2)] semi_word [OF assms(3), of b]
  have star: "is_word ''*''" by (simp add: is_word_def is_space_def char_code_def)
  let ?e = "name @ semi b @ line_end # u"
  show ?thesis
    using next_word_first [of k1 "CHR '' '' # ''*'' @ CHR '' '' # k2 @ CHR '' '' # ?e"]
      next_word_space [of "''*''" "CHR '' '' # k2 @ CHR '' '' # ?e"]
      next_word_space [of k2 "CHR '' '' # ?e"] next_word_space [of "name @ semi b" "line_end # u"]
      strip_semi [OF assms(3)] k star assms
    by (simp add: Parse_def ParseSelect_def next_word_into_def new_sstream_def)
qed

lemma Parse_delete_line:
  assumes "upper k1 = ''DELETE''" and "upper k2 = ''FROM''" and "is_name name" and "not_where u"
  shows "Parse (k1 @ '' '' @ k2 @ '' '' @ name @ semi b @ line_end # u) = Some (DeleteStatement name [] [])"
proof -
  note k = keyword_words(8) [OF assms(1)] keyword_words(7) [OF assms(2)] semi_word [OF assms(3), of b]
  show ?thesis
    using next_word_first [of k1 "CHR '' '' # k2 @ CHR '' '' # name @ semi b @ line_end # u"]
      next_word_space [of k2 "CHR '' '' # name @ semi b @ line_end # u"] next_word_space [of "name @ semi b" "line_end # u"]
      strip_semi [OF assms(3)] k assms next_word_not_where [OF assms(4)]
    by (auto simp: Parse_def ParseDelete_def next_word_into_def new_sstream_def split: prod.splits option.splits)
qed

lemma Parse_delete_where_line:
  assumes kw: "upper k1 = ''DELETE''" "upper k2 = ''FROM''" "upper k3 = ''WHERE''"
    and name: "is_name name" and col: "is_word col" and eq: "is_word eq" and val: "is_name val"
  shows "Parse (k1 @ '' '' @ k2 @ '' '' @ name @ '' '' @ k3 @ '' '' @ col @ '' '' @ eq @ '' '' @ val @ semi b @ line_end # u) =
    Some (DeleteStatement name col val)"
proof -
  note k = keyword_words(8) [OF kw(1)] keyword_words(7) [OF kw(2)] keyword_words(9) [OF kw(3)]
  have nw: "is_word name" using name by (simp add: is_name_def)
  define r5 where "r5 = CHR '' '' # val @ semi b @ line_end # u"
  define r4 where "r4 = CHR '' '' # eq @ r5"
  define r3 where "r3 = CHR '' '' # col @ r4"
  define r2 where "r2 = CHR '' '' # k3 @ r3"
  define r1 where "r1 = CHR '' '' # name @ r2"
  define r0 where "r0 = CHR '' '' # k2 @ r1"
  note rs = r0_def r1_def r2_def r3_def r4_def r5_def
  have e: "at_end r0" "at_end r1" "at_end r2" "at_end r3" "at_end r4" "at_end r5" by (simp_all add: rs)
  have ne: "r0 \<noteq> []" "r1 \<noteq> []" "r2 \<noteq> []" "r3 \<noteq> []" "r4 \<noteq> []" "r5 \<noteq> []" by (simp_all add: rs)
  note n = next_word_first [OF k(1) e(1)] next_word_space [OF k(2) e(2), folded r0_def]
    next_word_space [OF nw e(3), folded r1_def] next_word_space [OF k(3) e(4), folded r2_def]
    next_word_space [OF col e(5), folded r3_def] next_word_space [OF eq e(6), folded r4_def]
    next_word_space [OF semi_word [OF val] at_end_line, of b u, simplified, folded r5_def]
  have t: "k1 @ '' '' @ k2 @ '' '' @ name @ '' '' @ k3 @ '' '' @ col @ '' '' @ eq @ '' '' @ val @ semi b @ line_end # u = k1 @ r0"
    by (simp add: rs)
  have s: "strip_semicolon name = name" using strip_semi [OF name, of False] by (simp add: semi_def)
  show ?thesis unfolding t Parse_def new_sstream_def next_word_into_def
    by (simp add: ParseDelete_def next_word_into_def n ne kw s strip_semi [OF val])
qed

lemma Parse_commit_line:
  assumes "upper k = ''COMMIT''"
  shows "Parse (k @ line_end # u) = Some CommitStatement"
  using next_word_first [OF keyword_words(10) [OF assms] at_end_line] assms
  by (simp add: Parse_def next_word_into_def new_sstream_def)

lemma Parse_first_line:
  assumes "accepted_text t stmt" and "not_where u"
  shows "Parse (t @ line_end # u) = Some stmt"
  using assms(1)
proof cases
  case (text_create k1 k2 name cols b)
  with Parse_create_line [of k1 k2 name cols b u] show ?thesis by (simp add: list_text_def column_text_def)
next
  case (text_insert k1 k2 name k3 vs b)
  with Parse_insert_line [of k1 k2 name k3 vs b u] show ?thesis by (simp add: list_text_def)
next
  case (text_select k1 k2 name b)
  with Parse_select_line [of k1 k2 name b u] show ?thesis by simp
next
  case (text_delete k1 k2 name b)
  with Parse_delete_line [of k1 k2 name u b] assms(2) show ?thesis by simp
next
  case (text_delete_where k1 k2 k3 name col eq val b)
  with Parse_delete_where_line [of k1 k2 k3 name col eq val b u] show ?thesis by simp
next
  case text_commit
  with Parse_commit_line [of t u] show ?thesis by simp
qed

end
