(* ===== verification/Sql_Grammar.thy ===== *)
theory Sql_Grammar
  imports Parser_Facts
begin

section \<open>The documented grammar\<close>

text \<open>
  What the document of the project promises of the parser, independent of how the parser is written, and where
  the two agree.

  \<open>sql_text t stmt\<close>: \<open>t\<close> is a way to write \<open>stmt\<close> in the syntax that \<^verbatim>\<open>docs/sql-reference.md\<close> lists as implemented.
  Keywords, types and Boolean values are in any letter case; a name is made of letters, digits and underscores; a value is
  an integer or a Boolean; a statement may end in a semicolon.\<close>

definition is_letter :: "char \<Rightarrow> bool" where
  "is_letter c \<longleftrightarrow> 65 \<le> char_code c \<and> char_code c \<le> 90 \<or> 97 \<le> char_code c \<and> char_code c \<le> 122"

definition is_identifier :: "string \<Rightarrow> bool" where
  "is_identifier w \<longleftrightarrow> w \<noteq> [] \<and> (\<forall>c \<in> set w. is_letter c \<or> is_digit c \<or> c = CHR ''_'')"

definition is_literal :: "string \<Rightarrow> bool" where
  "is_literal v \<longleftrightarrow> upper v = ''TRUE'' \<or> upper v = ''FALSE'' \<or>
     (let ds = (if v \<noteq> [] \<and> hd v = CHR ''-'' then tl v else v) in ds \<noteq> [] \<and> (\<forall>c \<in> set ds. is_digit c))"

fun type_named :: "string \<Rightarrow> TypeId option" where
  "type_named t = (if upper t = ''INTEGER'' then Some INTEGER else if upper t = ''BOOLEAN'' then Some BOOLEAN else None)"

definition is_column_def :: "string \<times> string \<Rightarrow> bool" where
  "is_column_def = (\<lambda>(n, t). is_identifier n \<and> type_named t \<noteq> None)"

inductive sql_text :: "string \<Rightarrow> Statement \<Rightarrow> bool" where
  sql_create: "upper k1 = ''CREATE'' \<Longrightarrow> upper k2 = ''TABLE'' \<Longrightarrow> is_identifier name \<Longrightarrow>
     cols \<noteq> [] \<Longrightarrow> list_all is_column_def cols \<Longrightarrow>
     sql_text (k1 @ '' '' @ k2 @ '' '' @ name @ '' ('' @ sep_by '', '' (map (\<lambda>(n, t). n @ '' '' @ t) cols) @ '')'' @ semi b)
       (CreateTableStatement name (map (\<lambda>(n, t). new_Column n (the (type_named t))) cols))"
| sql_insert: "upper k1 = ''INSERT'' \<Longrightarrow> upper k2 = ''INTO'' \<Longrightarrow> is_identifier name \<Longrightarrow> upper k3 = ''VALUES'' \<Longrightarrow>
     vs \<noteq> [] \<Longrightarrow> list_all is_literal vs \<Longrightarrow>
     sql_text (k1 @ '' '' @ k2 @ '' '' @ name @ '' '' @ k3 @ '' ('' @ sep_by '', '' vs @ '')'' @ semi b) (InsertStatement name vs)"
| sql_select: "upper k1 = ''SELECT'' \<Longrightarrow> upper k2 = ''FROM'' \<Longrightarrow> is_identifier name \<Longrightarrow>
     sql_text (k1 @ '' * '' @ k2 @ '' '' @ name @ semi b) (SelectStatement name)"
| sql_delete: "upper k1 = ''DELETE'' \<Longrightarrow> upper k2 = ''FROM'' \<Longrightarrow> is_identifier name \<Longrightarrow>
     sql_text (k1 @ '' '' @ k2 @ '' '' @ name @ semi b) (DeleteStatement name [] [])"
| sql_delete_where: "upper k1 = ''DELETE'' \<Longrightarrow> upper k2 = ''FROM'' \<Longrightarrow> upper k3 = ''WHERE'' \<Longrightarrow> is_identifier name \<Longrightarrow>
     is_identifier col \<Longrightarrow> is_literal val \<Longrightarrow>
     sql_text (k1 @ '' '' @ k2 @ '' '' @ name @ '' '' @ k3 @ '' '' @ col @ '' = '' @ val @ semi b) (DeleteStatement name col val)"
| sql_commit: "upper k = ''COMMIT'' \<Longrightarrow> sql_text (k @ semi b) CommitStatement"

lemma plain_name:
  assumes "is_plain w"
  shows "is_name w"
proof -
  have "clean_char (last w) = last w" using assms last_in_set [of w] by (simp add: is_plain_def is_word_def)
  then have "last w \<noteq> CHR '';''" by auto
  with assms show ?thesis by (simp add: is_plain_def is_name_def)
qed

lemma clean_char_to_upper: "clean_char (to_upper c) = to_upper c \<Longrightarrow> clean_char c = c"
  by (auto simp: clean_char_def to_upper_def char_code_def split: if_splits)

lemma plain_upper: "upper k = K \<Longrightarrow> is_plain K \<Longrightarrow> is_plain k"
  using keyword_word [of k K] by (auto simp: is_plain_def upper_def intro: clean_char_to_upper)

lemma plain_keywords: "is_plain ''INTEGER''" "is_plain ''BOOLEAN''" "is_plain ''TRUE''" "is_plain ''FALSE''"
  by code_simp+

lemma clean_char_code: "char_code c \<notin> {40, 41, 44, 59} \<Longrightarrow> clean_char c = c"
  by (auto simp: clean_char_def char_code_def)

lemma plain_char:
  assumes "is_letter c \<or> is_digit c \<or> c = CHR ''_'' \<or> c = CHR ''-''"
  shows "\<not> is_space c" and "clean_char c = c"
proof -
  have "char_code (CHR ''_'') = 95" "char_code (CHR ''-'') = 45" by (simp_all add: char_code_def)
  with assms have "char_code c = 45 \<or> 48 \<le> char_code c \<and> char_code c \<le> 57 \<or> 65 \<le> char_code c \<and> char_code c \<noteq> 59"
    by (auto simp: is_letter_def is_digit_def)
  then show "\<not> is_space c" "clean_char c = c" by (auto simp: is_space_def intro!: clean_char_code)
qed

lemma plain_chars:
  assumes "w \<noteq> []" and "\<forall>c \<in> set w. is_letter c \<or> is_digit c \<or> c = CHR ''_'' \<or> c = CHR ''-''"
  shows "is_plain w"
proof -
  have "\<forall>c \<in> set w. \<not> is_space c \<and> clean_char c = c" using assms(2) plain_char by blast
  with assms(1) show ?thesis by (simp add: is_plain_def is_word_def)
qed

lemma identifier_plain: "is_identifier w \<Longrightarrow> is_plain w"
  unfolding is_identifier_def by (rule plain_chars) blast+

lemma literal_plain: "is_literal v \<Longrightarrow> is_plain v"
proof -
  assume v: "is_literal v"
  show ?thesis
  proof (cases "upper v = ''TRUE'' \<or> upper v = ''FALSE''")
    case True
    then show ?thesis using plain_upper plain_keywords by blast
  next
    case False
    with v have "v \<noteq> []" "\<forall>c \<in> set v. is_digit c \<or> c = CHR ''-''"
      by (cases v; auto simp: is_literal_def Let_def split: if_splits)+
    then show ?thesis by (intro plain_chars) blast+
  qed
qed

lemma column_def_plain:
  "is_column_def (n, t) \<Longrightarrow> is_plain n \<and> is_plain t \<and> the (type_named t) = (if upper t = ''BOOLEAN'' then BOOLEAN else INTEGER)"
  using identifier_plain plain_upper plain_keywords by (auto simp: is_column_def_def split: if_splits)

text \<open>Every documented text but \<^verbatim>\<open>COMMIT;\<close> is one that the parser reads.\<close>

lemma sql_accepted:
  assumes "sql_text t stmt" and "\<not> (stmt = CommitStatement \<and> last t = CHR '';'')"
  shows "accepted_text t stmt"
  using assms(1)
proof cases
  case (sql_create k1 k2 name cols b)
  then have c: "list_all (\<lambda>(n, t). is_plain n \<and> is_plain t) cols"
    "map (\<lambda>(n, t). new_Column n (the (type_named t))) cols =
      map (\<lambda>(n, t). new_Column n (if upper t = ''BOOLEAN'' then BOOLEAN else INTEGER)) cols"
    using column_def_plain by (fastforce simp: list_all_iff simp del: type_named.simps)+
  from sql_create identifier_plain have "is_word name" by (simp add: is_plain_def)
  from text_create [OF sql_create(3,4) this c(1)] show ?thesis unfolding sql_create(1,2) c(2) .
next
  case (sql_insert k1 k2 name k3 vs b)
  then have "list_all is_plain vs" "is_word name" using literal_plain identifier_plain by (auto simp: list_all_iff is_plain_def)
  with text_insert sql_insert show ?thesis by blast
next
  case (sql_select k1 k2 name b)
  with text_select identifier_plain plain_name show ?thesis by blast
next
  case (sql_delete k1 k2 name b)
  with text_delete identifier_plain plain_name show ?thesis by blast
next
  case (sql_delete_where k1 k2 k3 name col val b)
  have h: "is_name name" "is_word col" "is_name val" "is_word ''=''"
    using plain_name [OF identifier_plain [OF sql_delete_where(6)]] identifier_plain [OF sql_delete_where(7)]
      plain_name [OF literal_plain [OF sql_delete_where(8)]]
    by (simp_all add: is_plain_def) (simp add: is_word_def is_space_def char_code_def)
  from text_delete_where [OF sql_delete_where(3-5) h(1,2,4,3), of b] show ?thesis unfolding sql_delete_where(1,2) by simp
next
  case (sql_commit k b)
  with assms(2) have "\<not> b" by (auto simp: semi_def)
  with text_commit [OF sql_commit(3)] sql_commit(1,2) show ?thesis by (simp add: semi_def)
qed

lemma keyword_semicolon:
  assumes "upper k = ''COMMIT''"
  shows "Parse (k @ '';'') = None"
proof -
  have k: "is_word (k @ '';'')"
    using keyword_words(10) [OF assms] by (auto simp: is_word_def is_space_def char_code_def)
  have u: "upper (k @ '';'') = ''COMMIT;''" using assms by (simp add: upper_def to_upper_def char_code_def)
  show ?thesis
    using next_word_first [OF k at_end_simps(1)] u by (simp add: Parse_def next_word_into_def new_sstream_def)
qed

text \<open>Each documented text is parsed to the statement that it writes, with one exception.\<close>

lemma Parse_sql:
  assumes "sql_text t stmt"
  shows "Parse t = (if stmt = CommitStatement \<and> last t = CHR '';'' then None else Some stmt)"
proof (cases "stmt = CommitStatement \<and> last t = CHR '';''")
  case True
  with assms obtain k b where k: "upper k = ''COMMIT''" "t = k @ semi b" by (auto elim: sql_text.cases)
  have "Parse k = Some CommitStatement" by (rule Parse_commit [OF k(1)])
  have "b"
  proof (rule ccontr)
    assume "\<not> b"
    with k True have "last k = CHR '';''" "k \<noteq> []" by (auto simp: semi_def upper_def)
    then have "to_upper (CHR '';'') \<in> set (upper k)" by (metis image_eqI last_in_set list.set_map upper_def)
    then show False unfolding k(1) by (simp add: to_upper_def char_code_def)
  qed
  with k keyword_semicolon [OF k(1)] True show ?thesis by (simp add: semi_def)
next
  case False
  with Parse_accepted [OF sql_accepted [OF assms]] show ?thesis by simp
qed

end
