(* ===== verification/Session_Properties.thy ===== *)
theory Session_Properties
  imports Example_Database Parser_Lines Sql_Grammar
begin

section \<open>Properties of the parser and of a client session\<close>

text \<open>
  The parser and the sessions of the server together: which texts are statements, and what a client
  is sent for them.
\<close>

text \<open>C22. The server runs the statements it is sent: if the lines of its clients parse to statements which the
  executor, taken in the order of the connections, runs to results without an uncaught exception, then every
  client receives the welcome, and for each of its lines the formatted result and the prompt, in order; and the
  database is the one the statements leave. Calls of \<^verbatim>\<open>accept\<close> that fail do not matter.\<close>
theorem sessions_run_statements:
  assumes "serving (map (map (\<lambda>t. t @ newline)) tss) s"
    and "list_all2 (list_all2 (\<lambda>t stmt. is_query t \<and> Parse t = Some stmt)) tss stmtss"
    and "map length qss = map length stmtss" and "run Execute (concat stmtss) c = Some (map Inr (concat qss), c')"
  shows "Start s c = Some (map (\<lambda>qs. welcome_text # concat (map (\<lambda>q. [FormatResult q, prompt]) qs)) qss, None, c')"
  using accept_loop_runs [OF assms(2-4)] Start_serving [OF assms(1)] by (simp add: answers_def)

lemma sessions_run_statements_witness:
  "\<exists>c. Start \<lparr>socket_fd = 3, bind_result = 0, listen_result = 0, accepts = [Some [''CREATE TABLE t (id INTEGER, ok BOOLEAN);'' @ newline],
      None, Some [''INSERT INTO t VALUES (42);'' @ newline]]\<rparr> (new_Catalog ex_env Map.empty) =
    Some ([[welcome_text, ''Table '' @ quoted ''t'' @ '' created.'' @ newline, prompt],
      [welcome_text, ''1 row inserted.'' @ newline, prompt]], None, c) \<and> ex_state c"
proof -
  let ?t = "''CREATE TABLE t (id INTEGER, ok BOOLEAN);''" and ?u = "''INSERT INTO t VALUES (42);''"
  let ?s = "\<lparr>socket_fd = 3, bind_result = 0, listen_result = 0, accepts = [Some [?t @ newline], None, Some [?u @ newline]]\<rparr>"
  have q: "is_query ?t" "is_query ?u" by code_simp+
  have p: "Parse ?t = Some (CreateTableStatement ''t'' ex_cols)" "Parse ?u = Some (InsertStatement ''t'' [''42''])"
    unfolding ex_cols_def by code_simp+
  let ?q = "\<lparr>success = True, message = ''Table '' @ quoted ''t'' @ '' created.'', rows = []\<rparr>"
  let ?r = "\<lparr>success = True, message = ''1 row inserted.'', rows = []\<rparr>"
  from ex_insert obtain c where c: "Execute (InsertStatement ''t'' [''42'']) ex_created = Some (Inr ?r, c)" "ex_state c" by blast
  have "run Execute (concat [[CreateTableStatement ''t'' ex_cols], [InsertStatement ''t'' [''42'']]]) (new_Catalog ex_env Map.empty) =
      Some (map Inr (concat [[?q], [?r]]), c)"
    using ex_create c(1) by simp
  moreover have "serving (map (map (\<lambda>t. t @ newline)) [[?t], [?u]]) ?s"
    by (simp add: serving_def List.map_filter_simps)
  ultimately show ?thesis
    using sessions_run_statements [of "[[?t], [?u]]" ?s "[[CreateTableStatement ''t'' ex_cols], [InsertStatement ''t'' [''42'']]]"
      "[[?q], [?r]]" "new_Catalog ex_env Map.empty" c] q p c(2) by (auto simp: FormatResult_def)
qed

text \<open>C21. The parser reads the documented syntax: every text that \<open>sql_text\<close> allows for a statement (what
  \<^verbatim>\<open>docs/sql-reference.md\<close> lists as implemented, in the layout shown there, with keywords, types and Boolean values in any letter case and with
  or without the final semicolon) is parsed to that statement, with the single exception of a \<^verbatim>\<open>COMMIT\<close> written with
  the semicolon, which is parsed to none.\<close>
theorem parser_accepts_grammar:
  assumes "sql_text t stmt"
  shows "Parse t = (if stmt = CommitStatement \<and> last t = CHR '';'' then None else Some stmt)"
  using assms by (rule Parse_sql)

lemma parser_accepts_grammar_witness:
  "Parse ''create Table users (id integer, is_active Boolean);'' =
      Some (CreateTableStatement ''users'' [new_Column ''id'' INTEGER, new_Column ''is_active'' BOOLEAN]) \<and>
    Parse ''INSERT INTO users VALUES (-42, True)'' = Some (InsertStatement ''users'' [''-42'', ''True'']) \<and>
    Parse ''delete FROM users where id = 42;'' = Some (DeleteStatement ''users'' ''id'' ''42'') \<and>
    Parse ''Commit;'' = None"
proof -
  have h: "upper ''create'' = ''CREATE''" "upper ''Table'' = ''TABLE''" "is_identifier ''users''"
    "[(''id'', ''integer''), (''is_active'', ''Boolean'')] \<noteq> []" "list_all is_column_def [(''id'', ''integer''), (''is_active'', ''Boolean'')]"
    "upper ''INSERT'' = ''INSERT''" "upper ''INTO'' = ''INTO''" "upper ''VALUES'' = ''VALUES''" "[''-42'', ''True''] \<noteq> []"
    "list_all is_literal [''-42'', ''True'']" "upper ''delete'' = ''DELETE''" "upper ''FROM'' = ''FROM''"
    "upper ''where'' = ''WHERE''" "is_identifier ''id''" "is_literal ''42''" "upper ''Commit'' = ''COMMIT''" by code_simp+
  have ty: "type_named ''integer'' = Some INTEGER" "type_named ''Boolean'' = Some BOOLEAN" by code_simp+
  from parser_accepts_grammar [OF sql_create [OF h(1-5), of True]] parser_accepts_grammar [OF sql_insert [OF h(6,7,3,8-10), of False]]
    parser_accepts_grammar [OF sql_delete_where [OF h(11-13,3,14,15), of True]] parser_accepts_grammar [OF sql_commit [OF h(16), of True]]
    ty show ?thesis by (simp add: semi_def del: type_named.simps)
qed

text \<open>C31. The server takes what one \<^verbatim>\<open>read\<close> returns for one statement: when a client's lines arrive together (they are
  sent ahead, or pasted) and the first is a text that the parser reads as a statement, it alone is executed and answered. The
  others are lost, the client gets no reply to them and the database is as if they had not been sent. (Only a
  \<^verbatim>\<open>WHERE\<close> is looked at beyond the line end of a \<^verbatim>\<open>DELETE\<close>.)\<close>
theorem lines_in_one_read_lost:
  assumes "accepted_text t stmt" and "is_query t" and "is_query u" and "not_where u"
  shows "client_loop ((t @ newline @ u @ newline) # reads) c = client_loop ((t @ newline) # reads) c"
proof -
  have "\<forall>ch \<in> set (t @ newline @ u @ newline). ch \<noteq> CHR 0x00" using assms(2,3) by (auto simp: is_query_def newline_def)
  then have cs: "c_string (t @ newline @ u @ newline) = t @ newline @ u @ newline"
    unfolding c_string_def takeWhile_eq_all_conv .
  have "u \<noteq> []" "last u \<noteq> CHR 0x0A" "last u \<noteq> CHR 0x0D" using assms(3) by (simp_all add: is_query_def)
  then obtain v x where u: "u = v @ [x]" "x \<noteq> CHR 0x0A" "x \<noteq> CHR 0x0D" by (metis append_butlast_last_id)
  have tr: "trim_line_ends (c_string (t @ newline @ u @ newline)) = t @ line_end # u"
    unfolding cs using u(2,3) by (simp add: u(1) trim_line_ends_def newline_def)
  have "line_end \<notin> set ''exit''" "line_end \<notin> set ''quit''" by simp_all
  then have x: "t @ line_end # u \<noteq> ''exit''" "t @ line_end # u \<noteq> ''quit''"
    by (metis in_set_conv_decomp)+
  from assms(1) have p: "Parse t = Some stmt" using Parse_accepted by blast
  from trim_query [OF assms(2)] tr x p Parse_first_line [OF assms(1,4)] assms(2) show ?thesis
    by (simp add: is_query_def)
qed

lemma lines_in_one_read_lost_witness:
  "client_loop [''CREATE TABLE t (id INTEGER, ok BOOLEAN);'' @ newline @ ''INSERT INTO t VALUES (42, true);'' @ newline]
      (new_Catalog ex_env Map.empty) =
    Some ([''Table '' @ quoted ''t'' @ '' created.'' @ newline, prompt], None, ex_created)"
proof -
  let ?t = "''CREATE TABLE t (id INTEGER, ok BOOLEAN);''" and ?u = "''INSERT INTO t VALUES (42, true);''"
  have h: "upper ''CREATE'' = ''CREATE''" "upper ''TABLE'' = ''TABLE''" "is_word ''t''"
    "list_all (\<lambda>(n, t). is_plain n \<and> is_plain t) [(''id'', ''INTEGER''), (''ok'', ''BOOLEAN'')]" by code_simp+
  have q: "is_query ?t" "is_query ?u" "not_where ?u" by code_simp+
  have p: "Parse ?t = Some (CreateTableStatement ''t'' ex_cols)" unfolding ex_cols_def by code_simp
  from text_create [OF h, of True] have "\<exists>stmt. accepted_text ?t stmt" by (auto simp: semi_def)
  with lines_in_one_read_lost [OF _ q, of _ "[]"] have "client_loop [?t @ newline @ ?u @ newline] c = client_loop [?t @ newline] c" for c
    by blast
  then show ?thesis using trim_query [OF q(1)] q(1) p ex_create
    by (simp add: is_query_def send_first_def FormatResult_def)
qed

text \<open>C35. The documented spelling \<^verbatim>\<open>COMMIT;\<close> is no statement: the keyword is read with the semicolon and matches
  nothing, so the client gets an error and nothing is flushed. The bare word is a \<^verbatim>\<open>COMMIT\<close>, and so is every text that
  starts with it and a space, whatever follows.\<close>
theorem commit_with_semicolon_rejected:
  assumes "upper k = ''COMMIT''"
  shows "Parse (k @ '';'') = None \<and> Parse k = Some CommitStatement \<and> Parse (k @ '' '' @ rest) = Some CommitStatement \<and>
    HandleClient [k @ '';'' @ newline] c =
      Some ([welcome_text, ''Error: Invalid or unsupported SQL statement.'' @ newline, prompt], None, c)"
proof -
  have k: "is_word k" by (rule keyword_words(10) [OF assms])
  note p = keyword_semicolon [OF assms]
  have "length k = 6" using arg_cong [OF assms, of length] by (simp add: upper_def)
  moreover have "CHR 0x00 \<notin> set k"
  proof
    assume "CHR 0x00 \<in> set k"
    then have "to_upper (CHR 0x00) \<in> set (upper k)" by (simp add: upper_def)
    then show False unfolding assms by (simp add: to_upper_def char_code_def)
  qed
  ultimately have q: "is_query (k @ '';'')" by (auto simp: is_query_def)
  have "Parse (k @ '' '' @ rest) = Some CommitStatement"
    using next_word_first [OF k at_end_simps(2), of rest] assms by (simp add: Parse_def next_word_into_def new_sstream_def)
  with trim_query [OF q] read_pieces_line [OF q] p k Parse_commit [OF assms] show ?thesis
    by (auto simp: HandleClient_def send_first_def)
qed

lemma commit_with_semicolon_rejected_witness:
  "Parse ''COMMIT;'' = None \<and> Parse ''COMMIT'' = Some CommitStatement \<and> Parse ''COMMIT now'' = Some CommitStatement"
proof -
  have "upper ''COMMIT'' = ''COMMIT''" by code_simp
  from commit_with_semicolon_rejected [OF this, of "''now''"] show ?thesis by simp
qed

end
