(* ===== verification/Error_Properties.thy ===== *)
theory Error_Properties
  imports Example_Database
begin

section \<open>What the program does where a client might not expect it\<close>

text \<open>
  Statements that end the server, read out of range, or do something else than what they say.
  The lemmas at the end give single texts that are read as another statement.
\<close>

subsection \<open>Values that are no numbers, and too many values\<close>

lemma stoi_throws: "stoi raw = Inl e \<Longrightarrow> e \<in> {Invalid_argument, Out_of_range}"
  by (auto simp: stoi_def Let_def split: if_splits)

lemma insert_values_throws:
  assumes "good_columns cols" and "i + length pre < length cols" and "parse_row (drop i cols) pre = Inr row"
    and "column_type (cols ! (i + length pre)) = INTEGER" and "stoi raw = throw e"
  shows "insert_values (new_Schema cols) i (pre @ raw # post) = Some (throw e)"
  using assms(2-4)
proof (induction pre arbitrary: i row)
  case Nil
  then show ?case using GetColumn_new [OF assms(1), of i] assms(5) by (simp add: FromString_def)
next
  case (Cons v pre)
  then have i: "i < length cols" by simp
  then have dr: "drop i cols = cols ! i # drop (Suc i) cols" by (simp add: Cons_nth_drop_Suc)
  from assms(1) i have gc: "good_column (cols ! i)" by (simp add: good_columns_def)
  from Cons.prems(2) dr obtain s row' where p: "canon (column_type (cols ! i)) v = Inr s"
    "parse_row (drop (Suc i) cols) pre = Inr row'"
    by (cases "parse_row (drop (Suc i) cols) pre") (auto split: sum.splits)
  from Cons.IH [OF _ p(2)] Cons.prems(1,3) have "insert_values (new_Schema cols) (Suc i) (pre @ raw # post) = Some (throw e)" by simp
  with FromString_canon [OF gc, of v] p(1) GetColumn_new [OF assms(1) i] show ?case by (auto split: sum.splits)
qed

text \<open>C32. A value for an INTEGER column, whichever it is, that is no number or does not fit 32 bits ends the server, when the
  values before it are readable: the exception of \<^verbatim>\<open>std::stoi\<close> is no \<^verbatim>\<open>runtime_error\<close>, so \<open>ExecuteInsert\<close>
  does not catch it, and neither do the session and the accept loop. \<open>Start\<close> is left with the exception; the client
  gets no answer, its further lines and the clients that come later are not served; the tables are as before.\<close>
theorem insert_bad_number_escapes:
  assumes "db_inv c" and "db_abs c n = Some (cols, R)" and "length pre < length cols" and "parse_row cols pre = Inr row"
    and "column_type (cols ! length pre) = INTEGER" and "stoi raw = throw e"
    and "is_query t" and "Parse t = Some (InsertStatement n (pre @ raw # post))"
    and "serving (((t @ newline) # lines) # later) s"
  shows "e \<in> {Invalid_argument, Out_of_range} \<and> Execute (InsertStatement n (pre @ raw # post)) c = Some (throw e, c) \<and>
    Start s c = Some ([[welcome_text]], Some e, c)"
proof -
  from assms(2) obtain ti where ti: "tab_of c n = Some ti" "columns (ti_schema ti) = cols"
    by (auto simp: db_abs_def cat_abs_def)
  note tb = db_table [OF assms(1) ti(1), unfolded ti(2)]
  have i: "insert_values (ti_schema ti) 0 (pre @ raw # post) = Some (throw e)"
    using insert_values_throws [OF tb(1), of 0 pre] assms(3-6) tb(2) by simp
  have "catch_runtime_error (throw e) = throw e" using stoi_throws [OF assms(6)] by auto
  then have x: "Execute (InsertStatement n (pre @ raw # post)) c = Some (throw e, c)"
    using i GetTable_db [OF assms(1), of n] ti(1) by (simp add: Execute_def ExecuteInsert_def del: insert_values.simps)
  then have "HandleClient ((t @ newline) # lines) c = Some ([welcome_text], Some e, c)"
    using trim_query [OF assms(7)] assms(7,8) by (simp add: HandleClient_def send_first_def) (simp add: is_query_def)
  with Start_serving [OF assms(9), of c] x stoi_throws [OF assms(6)] show ?thesis by simp
qed

text \<open>The second value of two is no number; a \<^verbatim>\<open>COMMIT\<close> and another client come after it.\<close>

lemma insert_bad_number_escapes_witness:
  "\<exists>c. db_abs c ''p'' = Some ([new_Column ''a'' INTEGER, new_Column ''b'' INTEGER], {#}) \<and>
    Start \<lparr>socket_fd = 3, bind_result = 0, listen_result = 0, accepts = [Some [''INSERT INTO p VALUES (1, abc);'' @ newline, ''COMMIT'' @ newline],
      Some [''SELECT * FROM p;'' @ newline]]\<rparr> c = Some ([[welcome_text]], Some Invalid_argument, c)"
proof -
  let ?cols = "[new_Column ''a'' INTEGER, new_Column ''b'' INTEGER]"
  have "db_adm (CreateTableStatement ''p'' ?cols) (new_Catalog ex_env Map.empty)"
    by (simp add: db_adm_def good_columns_def good_new_Column new_Catalog_def)
  from db.step_sim [OF db_inv_new(1) [OF ex_env_good(1)] this] obtain r c where
    c: "db_inv c" "db_step Map.empty (CreateTableStatement ''p'' ?cols) r (db_abs c)" by (auto simp: db_inv_new(2))
  then have d: "db_abs c ''p'' = Some (?cols, {#})" by (auto elim: db_step.cases)
  have h: "stoi ''abc'' = throw Invalid_argument" "is_query ''INSERT INTO p VALUES (1, abc);''"
    "Parse ''INSERT INTO p VALUES (1, abc);'' = Some (InsertStatement ''p'' ([''1''] @ ''abc'' # []))"
    "parse_row ?cols [''1''] = Inr [''1'', ''0'']" "length [''1''] < length ?cols" "column_type (?cols ! length [''1'']) = INTEGER"
    by code_simp+
  have "serving (((''INSERT INTO p VALUES (1, abc);'' @ newline) # [''COMMIT'' @ newline]) # [[''SELECT * FROM p;'' @ newline]])
      \<lparr>socket_fd = 3, bind_result = 0, listen_result = 0, accepts = [Some [''INSERT INTO p VALUES (1, abc);'' @ newline, ''COMMIT'' @ newline],
      Some [''SELECT * FROM p;'' @ newline]]\<rparr>"
    by (simp add: serving_def List.map_filter_simps)
  from insert_bad_number_escapes [OF c(1) d h(5,4,6,1-3) this] d show ?thesis by blast
qed

lemma insert_values_beyond:
  assumes "good_columns cols" and "i \<le> length cols" and "length cols < i + length raws"
    and "parse_row (drop i cols) raws = Inr row"
  shows "insert_values (new_Schema cols) i raws = None"
  using assms(2-4)
proof (induction raws arbitrary: i row)
  case (Cons raw raws)
  show ?case
  proof (cases "i = length cols")
    case True
    then show ?thesis using new_Schema_spec(1) [OF assms(1)] by (simp add: GetColumn_def vec_at_def)
  next
    case False
    then have i: "i < length cols" using Cons.prems(1) by simp
    then have dr: "drop i cols = cols ! i # drop (Suc i) cols" by (simp add: Cons_nth_drop_Suc)
    from assms(1) i have gc: "good_column (cols ! i)" by (simp add: good_columns_def)
    from Cons.prems(3) dr obtain s row' where p: "canon (column_type (cols ! i)) raw = Inr s"
      "parse_row (drop (Suc i) cols) raws = Inr row'"
      by (cases "parse_row (drop (Suc i) cols) raws") (auto split: sum.splits)
    from Cons.IH [OF _ _ p(2)] Cons.prems(2) i have "insert_values (new_Schema cols) (Suc i) raws = None" by simp
    with FromString_canon [OF gc, of raw] p(1) GetColumn_new [OF assms(1) i] show ?thesis by (auto split: sum.splits)
  qed
qed simp

text \<open>C33. An \<^verbatim>\<open>INSERT\<close> with more values than the table has columns, the first of which are all readable, is undefined
  behaviour: the loop reads the column vector beyond its end.\<close>
theorem insert_extra_value_undefined:
  assumes "db_inv c" and "db_abs c n = Some (cols, R)" and "length cols < length raws" and "parse_row cols raws = Inr row"
  shows "Execute (InsertStatement n raws) c = None"
proof -
  from assms(2) obtain ti where ti: "tab_of c n = Some ti" "columns (ti_schema ti) = cols"
    by (auto simp: db_abs_def cat_abs_def)
  note tb = db_table [OF assms(1) ti(1), unfolded ti(2)]
  have "insert_values (ti_schema ti) 0 raws = None"
    using insert_values_beyond [OF tb(1), of 0 raws row] assms(3,4) tb(2) by simp
  then show ?thesis using GetTable_db [OF assms(1), of n] ti(1) by (simp add: Execute_def ExecuteInsert_def)
qed

lemma insert_extra_value_undefined_witness: "Execute (InsertStatement ''t'' [''1'', ''true'', ''2'']) ex_created = None"
proof -
  have "parse_row ex_cols [''1'', ''true'', ''2''] = Inr [''1'', ''true'']" by code_simp
  from insert_extra_value_undefined [OF ex_created_inv(1) _ _ this, of "''t''" "{#}"] show ?thesis
    by (simp add: ex_created_inv(2) ex_cols_len)
qed

subsection \<open>A condition without spaces\<close>

lemma Parse_delete_glued:
  assumes kw: "upper k1 = ''DELETE''" "upper k2 = ''FROM''" "upper k3 = ''WHERE''" and name: "is_name name" and w: "is_word w"
  shows "Parse (k1 @ '' '' @ k2 @ '' '' @ name @ '' '' @ k3 @ '' '' @ w) = Some (DeleteStatement name [] [])"
proof -
  note k = keyword_words(8) [OF kw(1)] keyword_words(7) [OF kw(2)] keyword_words(9) [OF kw(3)]
  have nw: "is_word name" using name by (simp add: is_name_def)
  define r3 where "r3 = CHR '' '' # w"
  define r2 where "r2 = CHR '' '' # k3 @ r3"
  define r1 where "r1 = CHR '' '' # name @ r2"
  define r0 where "r0 = CHR '' '' # k2 @ r1"
  note rs = r0_def r1_def r2_def r3_def
  have e: "at_end r0" "at_end r1" "at_end r2" "at_end r3" by (simp_all add: rs)
  have ne: "r0 \<noteq> []" "r1 \<noteq> []" "r2 \<noteq> []" "r3 \<noteq> []" by (simp_all add: rs)
  note n = next_word_first [OF k(1) e(1)] next_word_space [OF k(2) e(2), folded r0_def]
    next_word_space [OF nw e(3), folded r1_def] next_word_space [OF k(3) e(4), folded r2_def]
    next_word_space [OF w at_end_simps(1), simplified, folded r3_def]
  have t: "k1 @ '' '' @ k2 @ '' '' @ name @ '' '' @ k3 @ '' '' @ w = k1 @ r0" by (simp add: rs)
  have s: "strip_semicolon name = name" using strip_semi [OF name, of False] by (simp add: semi_def)
  have f: "next_word \<lparr>ss_rest = [], ss_eof = True, ss_fail = f\<rparr> = (None, \<lparr>ss_rest = [], ss_eof = True, ss_fail = True\<rparr>)" for f
    by (simp add: next_word_def)
  show ?thesis unfolding t Parse_def new_sstream_def next_word_into_def
    by (simp add: ParseDelete_def next_word_into_def n ne kw s f)
qed

text \<open>C34. A condition written without spaces, as in \<^verbatim>\<open>DELETE FROM t WHERE id=42;\<close>, is dropped: the statement is
  parsed as a delete without condition, and its execution empties the table.\<close>
theorem delete_glued_condition_deletes_all:
  assumes "upper k1 = ''DELETE''" and "upper k2 = ''FROM''" and "upper k3 = ''WHERE''" and "is_name name" and "is_word w"
    and "db_inv c" and "db_abs c name = Some (cols, R)"
  shows "\<exists>stmt r c'. Parse (k1 @ '' '' @ k2 @ '' '' @ name @ '' '' @ k3 @ '' '' @ w) = Some stmt \<and>
    Execute stmt c = Some (Inr r, c') \<and> success r \<and> db_abs c' = (db_abs c)(name \<mapsto> (cols, {#}))"
proof -
  have "db_adm (DeleteStatement name [] []) c" by (simp add: db_adm_def)
  from db.step_sim [OF assms(6) this] obtain r c' where x: "Execute (DeleteStatement name [] []) c = Some (r, c')"
    "db_step (db_abs c) (DeleteStatement name [] []) r (db_abs c')" by blast
  have "filter_mset (row_hit cols [] []) R = R" by (simp add: filter_mset_eq_conv row_hit_def)
  with x(2) assms(7) have "\<exists>q. r = Inr q \<and> success q \<and> db_abs c' = (db_abs c)(name \<mapsto> (cols, {#}))"
    by (auto elim: db_step.cases)
  with x(1) Parse_delete_glued [OF assms(1-5)] show ?thesis by auto
qed

lemma delete_glued_condition_deletes_all_witness:
  "\<exists>c stmt r c'. db_abs c ''t'' = Some (ex_cols, {#[''42'', ''false'']#}) \<and> Parse ''DELETE FROM t WHERE id=7;'' = Some stmt \<and>
    Execute stmt c = Some (Inr r, c') \<and> db_abs c' ''t'' = Some (ex_cols, {#})"
proof -
  from ex_insert obtain c where c: "db_inv c" "db_abs c ''t'' = Some (ex_cols, {#[''42'', ''false'']#})"
    by (auto simp: ex_state_def)
  have h: "upper ''DELETE'' = ''DELETE''" "upper ''FROM'' = ''FROM''" "upper ''WHERE'' = ''WHERE''" "is_name ''t''" "is_word ''id=7;''"
    by code_simp+
  from delete_glued_condition_deletes_all [OF h c] c(2) show ?thesis by fastforce
qed

subsection \<open>Texts that are read as something else\<close>

lemma create_if_not_exists_names_if:
  "Parse ''CREATE TABLE IF NOT EXISTS t (id INTEGER);'' =
    Some (CreateTableStatement ''IF'' [new_Column ''NOT'' INTEGER, new_Column ''t'' INTEGER])"
  by code_simp

lemma create_glued_list_has_no_columns:
  "Parse ''CREATE TABLE t(id INTEGER);'' = Some (CreateTableStatement ''t(id'' [])"
  by code_simp

lemma insert_rows_flattened:
  "Parse ''INSERT INTO t VALUES (1, true), (2, false);'' = Some (InsertStatement ''t'' [''1'', ''true'', ''2'', ''false''])"
  by code_simp

text \<open>Any word between column and value is taken for the equals sign.\<close>

lemma delete_other_operator:
  "Parse ''DELETE FROM t WHERE id != 42;'' = Some (DeleteStatement ''t'' ''id'' ''42'')"
  "Parse ''DELETE FROM t WHERE id > 42;'' = Some (DeleteStatement ''t'' ''id'' ''42'')"
  by code_simp+

text \<open>A condition on a BOOLEAN column is compared with the printed form: \<^verbatim>\<open>FALSE\<close> is read by \<^verbatim>\<open>INSERT\<close> and never
  matched by \<^verbatim>\<open>DELETE\<close>.\<close>

lemma delete_boolean_case_sensitive:
  assumes "ex_state c"
  shows "\<exists>c'. Execute (DeleteStatement ''t'' ''ok'' ''FALSE'') c =
      Some (Inr \<lparr>success = True, message = ''0 row(s) deleted.'', rows = []\<rparr>, c') \<and> db_abs c' = db_abs c"
    and "parse_row ex_cols [''42'', ''FALSE''] = Inr [''42'', ''false'']"
proof -
  from assms have i: "db_inv c" "db_abs c = [''t'' \<mapsto> (ex_cols, {#[''42'', ''false'']#})]" by (auto simp: ex_state_def)
  have "db_adm (DeleteStatement ''t'' ''ok'' ''FALSE'') c" by (simp add: db_adm_def)
  from db.step_sim [OF i(1) this] obtain r c' where x: "Execute (DeleteStatement ''t'' ''ok'' ''FALSE'') c = Some (r, c')"
    "db_step (db_abs c) (DeleteStatement ''t'' ''ok'' ''FALSE'') r (db_abs c')" by blast
  have w: "column_at ex_cols ''ok'' = Some 1" "to_string 0 = ''0''" unfolding ex_cols_def by code_simp+
  then have "\<not> row_hit ex_cols ''ok'' ''FALSE'' [''42'', ''false'']" by (simp add: row_hit_def)
  with x(2) i(2) w have "r = Inr \<lparr>success = True, message = ''0 row(s) deleted.'', rows = []\<rparr> \<and> db_abs c' = db_abs c"
    by (auto elim!: db_step.cases)
  with x(1) show "\<exists>c'. Execute (DeleteStatement ''t'' ''ok'' ''FALSE'') c =
      Some (Inr \<lparr>success = True, message = ''0 row(s) deleted.'', rows = []\<rparr>, c') \<and> db_abs c' = db_abs c" by blast
  show "parse_row ex_cols [''42'', ''FALSE''] = Inr [''42'', ''false'']" by code_simp
qed

text \<open>A table without columns: its tuples have no bytes, the record manager refuses them, and the client is told
  that a row was inserted.\<close>

lemma insert_without_columns_lost:
  assumes "db_inv c" and "db_abs c n = Some ([], R)"
  shows "\<exists>c'. Execute (InsertStatement n []) c =
      Some (Inr \<lparr>success = True, message = ''1 row inserted.'', rows = []\<rparr>, c') \<and> db_abs c' = db_abs c"
proof -
  from assms(2) obtain ti where "tab_of c n = Some ti" "columns (ti_schema ti) = []"
    by (auto simp: db_abs_def cat_abs_def)
  from insert_without_columns [OF assms(1) this] show ?thesis by (simp add: Execute_def)
qed

subsection \<open>Long lines\<close>

text \<open>A line is what one \<^verbatim>\<open>read\<close> returns: of a longer one the first 1023 characters are taken for a statement and the
  rest for another, as if the client had sent two.\<close>

lemma long_line_cut:
  assumes "length u = 1023" and "v \<noteq> []"
  shows "HandleClient ((u @ v) # arrivals) c = HandleClient (u # v # arrivals) c"
proof -
  have "read_pieces (u @ v) = u # read_pieces v" "read_pieces u = [u]"
    using assms by (subst read_pieces.simps; simp)+
  then show ?thesis by (simp add: HandleClient_def)
qed

end
