(* ===== verification/Crash_Properties.thy ===== *)
theory Crash_Properties
  imports Example_Database
begin

section \<open>A crash between CREATE TABLE and COMMIT\<close>

text \<open>
  \<open>CreateTable\<close> saves the page lists of all tables, but no pages. A page that is listed and was
  never written reads as zeros (\<open>ReadPage\<close> leaves the frame as it is), and a zero page claims to
  have room.
\<close>

lemma load_header_zero: "load_header (replicate PAGE_SIZE 0) = \<lparr>hdr_page_id = 0, free_space_offset = 0, slot_count = 0\<rparr>"
  by (simp add: load_header_def de16_def de32_def PAGE_SIZE_def slice_def numeral_2_eq_2 numeral_3_eq_3)

lemma InsertTuple_zero_page:
  assumes "2 \<le> n" and "n \<le> 4084"
  shows "HasEnoughSpace (replicate PAGE_SIZE 0) (word_of_nat n)"
    and "length td = n \<Longrightarrow> InsertTuple td (word_of_nat n) (replicate PAGE_SIZE 0) = None"
proof -
  let ?w = "word_of_nat n :: u16"
  have w: "unat ?w = n" using assms by (intro unat_u16_of_nat) simp
  have "?w + 4 \<le> - 7" using w assms by (simp add: word_le_nat_alt unat_word_ariths)
  then show s: "HasEnoughSpace (replicate PAGE_SIZE 0) ?w" by (simp add: HasEnoughSpace_def load_header_zero)
  have "unat (0 - ?w + 1 :: u16) = 65537 - n"
  proof -
    have "0 - ?w + 1 = (word_of_nat (65537 - n) :: u16)" using assms by (simp add: of_nat_diff)
    moreover have "unat (word_of_nat (65537 - n) :: u16) = 65537 - n" using assms by (intro unat_u16_of_nat) simp
    ultimately show ?thesis by simp
  qed
  moreover assume l: "length td = n"
  have "mem_read 0 n td = Some td" using l by (simp add: mem_read_def slice_def)
  moreover have "\<not> 65537 - n + length td \<le> length (replicate PAGE_SIZE (0 :: byte))"
    using l assms by (simp add: PAGE_SIZE_def)
  ultimately show "InsertTuple td ?w (replicate PAGE_SIZE 0) = None"
    using s w by (simp add: InsertTuple_def load_header_zero mem_write_def Let_def del: length_replicate)
qed

text \<open>The first page a reopened manager looks at, when the file does not exist.\<close>

lemma FetchPage_absent:
  "\<exists>bp f. FetchPage p (SetNextPageId n (new_BufferPool (Suc k) \<lparr>filename = fn, contents = None\<rparr>)) = Some (Some f, bp) \<and>
    frame_data f bp = replicate PAGE_SIZE 0"
  by (simp add: FetchPage_def frame_of_def SetNextPageId_def new_BufferPool_def GetFreeFrameOrVictim_def upt_conv_Cons
      evict_def upd_page_def empty_Page_def PinFrame_def ReadPage_def frame_data_def Let_def del: upt_Suc)

lemma rm_Insert_absent_page:
  assumes "2 \<le> length td" and "length td \<le> 4084"
  shows "rm_Insert (Some td) (length td) (rm_reopen \<lparr>filename = fn, contents = None\<rparr> (p # ps) n) = None"
proof -
  let ?rm = "rm_reopen \<lparr>filename = fn, contents = None\<rparr> (p # ps) n"
  have b: "buffer_pool_manager ?rm = SetNextPageId n (new_BufferPool (Suc 9) \<lparr>filename = fn, contents = None\<rparr>)" "page_ids ?rm = p # ps"
    by (simp_all add: rm_reopen_def rm_SetNextPageId_def SetPageIds_def new_RecordManager_def kDefaultPoolSize_def)
  from FetchPage_absent [of p n 9 fn] obtain bp f where
    f: "FetchPage p (buffer_pool_manager ?rm) = Some (Some f, bp)" "frame_data f bp = replicate PAGE_SIZE 0" by (auto simp: b)
  note z = InsertTuple_zero_page [OF assms]
  have "HasEnoughSpaceForInsert (replicate PAGE_SIZE 0) (word_of_nat (length td))"
    using z(1) by (simp add: HasEnoughSpaceForInsert_def HasEnoughSpace_def)
  then have "insert_first_fit td (word_of_nat (length td)) (p # ps) (buffer_pool_manager ?rm) = None"
    using f z(2) [OF refl] by simp
  moreover have "td \<noteq> []" using assms(1) by auto
  ultimately show ?thesis unfolding rm_Insert_def b(2) using assms by (simp del: insert_first_fit.simps)
qed

text \<open>C29. A database that crashed before its first \<^verbatim>\<open>COMMIT\<close> can be unusable: when the catalog file lists a page
  of a table (as \<^verbatim>\<open>CREATE TABLE\<close> of any other table makes it do) and the table's file was never written, then after
  the restart an ordinary \<^verbatim>\<open>INSERT\<close> into that table copies the row beyond the end of a page buffer.\<close>
theorem insert_after_crash_undefined:
  assumes "cat_inv c" and "storable_catalog c" and "tab_of c name = Some ti" and "page_ids (ti_table ti) = p # ps"
    and "fs catalog_path = Some (catalog_bytes c)" and "fs (table_file (ti_oid ti)) = None"
    and "length raws \<le> length (columns (ti_schema ti))" and "parse_row (columns (ti_schema ti)) raws = Inr row"
    and "2 \<le> sum_list (map clen (columns (ti_schema ti)))" and "sum_list (map clen (columns (ti_schema ti))) \<le> 4084"
  shows "Execute (InsertStatement name raws) (LoadCatalog catalog_path (new_Catalog e fs)) = None"
proof -
  let ?c = "LoadCatalog catalog_path (new_Catalog e fs)" and ?cols = "columns (ti_schema ti)"
  note l = LoadCatalog_bytes [where fs = fs and e = e, OF assms(1,2,5)]
  note o = tab_of_oid [OF assms(1,3)]
  let ?ti = "restored fs (table_entry (ti_oid ti, ti))"
  from assms(3) obtain oid where oid: "map_of (table_names c) name = Some oid" "map_of (tables c) oid = Some ti"
    by (auto simp: tab_of_def split: option.splits)
  with cat_inv_info [OF assms(1) map_of_SomeD [OF oid(2)]] have "oid = ti_oid ti" by (simp add: info_ok_def)
  with oid have g: "GetTable name ?c = Inr ?ti"
    using tables_in_order_facts(4) [OF assms(1)] names_in_order_facts(3) [OF assms(1)]
    by (simp add: GetTable_def GetTable_oid_def l map_of_map_key)
  have good: "good_columns ?cols" using o(2) by (simp add: info_ok_def)
  have sch: "ti_schema ?ti = new_Schema ?cols" by (simp add: restored_def)
  from insert_values_row [OF good assms(7)] assms(8) obtain vs where
    v: "insert_values (new_Schema ?cols) 0 raws = Some (Inr vs)" "fits_columns ?cols vs" by auto
  from new_Tuple_texts [OF good v(2)] obtain d where
    d: "new_Tuple vs (new_Schema ?cols) = Some (Inr d)" "length d = sum_list (map clen ?cols)" by blast
  have "rm_Insert (Some d) (length d) (ti_table ?ti) = None"
    using rm_Insert_absent_page [of d] d(2) assms(4,6,9,10) by (simp add: restored_def)
  moreover have "unat (word_of_nat (length d) :: u32) = length d" using d(2) assms(10) by (simp add: unat_of_nat)
  ultimately show ?thesis
    using g sch v(1) d(1) by (simp add: Execute_def ExecuteInsert_def tm_InsertTuple_def tuple_GetLength_def)
qed

lemma insert_after_crash_undefined_witness:
  "\<exists>c. Execute (InsertStatement ''t'' [''42'']) (LoadCatalog catalog_path
      (new_Catalog ex_env [catalog_path \<mapsto> catalog_bytes c])) = None \<and> ex_state c"
proof -
  from ex_insert obtain c where c: "ex_state c" by blast
  then obtain ti where ti: "tab_of c ''t'' = Some ti" "columns (ti_schema ti) = ex_cols" "page_ids (ti_table ti) = [0]"
    by (auto simp: ex_state_def)
  from c have i: "cat_inv c" "storable_catalog c" by (simp_all add: ex_state_def db_inv_def)
  from insert_after_crash_undefined [OF i ti(1) ti(3), of "[catalog_path \<mapsto> catalog_bytes c]" "[''42'']"] ti(2) ex_row ex_cols_len c
  show ?thesis by auto
qed

end
