(* ===== verification/Bench_Client.thy ===== *)
theory Bench_Client
  imports Tcp_Server
begin

section \<open>The benchmark client (tools/bench.cpp)\<close>

text \<open>
  \<open>drain\<close> reads replies until the received text ends with the prompt; \<open>bench_queries n\<close> are the
  lines that a run with \<open>n\<close> insertions sends; \<open>bench_main\<close> is a run against a server. The report that
  it prints is in \<open>Bench_Report\<close>.
\<close>

definition ends_prompt :: "string \<Rightarrow> bool" where
  "ends_prompt buf \<longleftrightarrow> 2 \<le> length buf \<and> drop (length buf - 2) buf = ''> ''"

text \<open>The chunks that \<^verbatim>\<open>recv\<close> returns; the second component is what is left to receive.\<close>

fun drain :: "string \<Rightarrow> string list \<Rightarrow> string \<times> string list" where
  "drain buf [] = (buf, [])"
| "drain buf (tmp # chunks) = (if tmp = [] then (buf, chunks)
     else let buf' = buf @ c_string tmp in
       if ends_prompt buf' then (buf', chunks) else drain buf' chunks)"

definition send_line :: "string \<Rightarrow> string" where
  "send_line s = s @ newline"

definition bench_insert :: "nat \<Rightarrow> nat \<Rightarrow> string" where
  "bench_insert i v = ''INSERT INTO bench VALUES ('' @ to_string (int i) @ '', '' @ to_string (int v) @ '');''"

definition bench_queries :: "nat \<Rightarrow> string list" where
  "bench_queries n = (let s = max 10 (n div 10); d = max 10 (n div 10) in
     [''CREATE TABLE bench (id INTEGER, val INTEGER);'', ''DELETE FROM bench;'', ''COMMIT;''] @
     map (\<lambda>i. bench_insert i (i * 2)) [0..<n] @
     [''COMMIT;''] @
     replicate s ''SELECT * FROM bench;'' @
     [''DELETE FROM bench;'', ''COMMIT;''] @
     concat (map (\<lambda>i. [bench_insert i i, ''COMMIT;'']) [0..<d]))"

text \<open>
  The command line: host, port and number of insertions, each with a default; \<^verbatim>\<open>std::stoi\<close> may throw. \<^verbatim>\<open>i * 2\<close> is
  an \<^verbatim>\<open>int\<close> product, so more than \<^verbatim>\<open>2^30\<close> insertions are undefined behaviour.
\<close>

definition bench_args :: "string list \<Rightarrow> (int \<times> int) result" where
  "bench_args argv = (case (if 2 < length argv then stoi (argv ! 2) else Inr 8080) of
     Inl e \<Rightarrow> throw e
   | Inr port \<Rightarrow> (case (if 3 < length argv then stoi (argv ! 3) else Inr 1000) of
         Inl e \<Rightarrow> throw e
       | Inr n \<Rightarrow> Inr (port, n)))"

text \<open>
  \<open>query\<close> sends a line, which the server answers, and drains the answer; \<open>deliver\<close> is how the network delivers the
  bytes of one answer, piece by piece. An exception that ends the server ends the run.
\<close>

definition query :: "(string \<Rightarrow> string list) \<Rightarrow> string \<Rightarrow> Catalog \<Rightarrow> (string \<times> exn option \<times> Catalog) option" where
  "query deliver sql c = do {
     (outs, e, c1) \<leftarrow> client_loop [send_line sql] c;
     Some (fst (drain [] (deliver (concat outs))), e, c1) }"

fun run_queries :: "(string \<Rightarrow> string list) \<Rightarrow> string list \<Rightarrow> Catalog \<Rightarrow> (string list \<times> exn option \<times> Catalog) option" where
  "run_queries deliver [] c = Some ([], None, c)"
| "run_queries deliver (sql # sqls) c = do {
     (r, e, c1) \<leftarrow> query deliver sql c;
     case e of
       Some _ \<Rightarrow> Some ([r], e, c1)
     | None \<Rightarrow> do {
         (rs, e', c2) \<leftarrow> run_queries deliver sqls c1;
         Some (r # rs, e', c2) } }"

text \<open>
  The constructor of \<^verbatim>\<open>DBClient\<close>, with the results of \<^verbatim>\<open>socket\<close> and \<^verbatim>\<open>connect\<close>: \<^term>\<open>None\<close> when it exits with status 1,
  otherwise the welcome that it drains. The destructor sends \<^verbatim>\<open>exit\<close>.
\<close>

definition open_client :: "int \<Rightarrow> int \<Rightarrow> (string \<Rightarrow> string list) \<Rightarrow> string option" where
  "open_client sock conn deliver = (if sock < 0 then None else if conn < 0 then None
     else Some (fst (drain [] (deliver welcome_text))))"

definition close_client :: "Catalog \<Rightarrow> Catalog option" where
  "close_client c = do { (bye, e, c') \<leftarrow> client_loop [send_line ''exit''] c; Some c' }"

text \<open>
  The whole program: how it ends, all texts received, and the catalog that the server is left with. When the server
  process ends in the middle of a run, the connection is lost and the model stops there.
\<close>

datatype client_end = Exit_status int | Escaped exn | Connection_lost exn

definition bench_main :: "string list \<Rightarrow> int \<Rightarrow> int \<Rightarrow> (string \<Rightarrow> string list) \<Rightarrow> Catalog \<Rightarrow>
    (client_end \<times> string list \<times> Catalog) option" where
  "bench_main argv sock conn deliver c = (case bench_args argv of
     Inl e \<Rightarrow> Some (Escaped e, [], c)
   | Inr (port, n) \<Rightarrow> (case open_client sock conn deliver of
         None \<Rightarrow> Some (Exit_status 1, [], c)
       | Some hello \<Rightarrow>
           if 2 ^ 30 < n then None
           else do {
             (rs, e, c1) \<leftarrow> run_queries deliver (bench_queries (nat n)) c;
             case e of
               Some x \<Rightarrow> Some (Connection_lost x, hello # rs, c1)
             | None \<Rightarrow> do { c2 \<leftarrow> close_client c1; Some (Exit_status 0, hello # rs, c2) } }))"

subsection \<open>What the server makes of the lines\<close>

lemma digit_plain: "is_digit c \<Longrightarrow> clean_char c = c"
  by (auto simp: is_digit_def clean_char_def char_code_def)

lemma show_nat_plain: "is_plain (show_nat n)"
  using show_nat_digits [of n] by (auto simp: is_plain_def is_word_def dest: digit_not_space digit_plain)

lemma to_string_plain: "is_plain (to_string (int n))"
  using show_nat_plain [of n] by (simp add: to_string_def)

lemma Parse_bench_insert:
  "Parse (bench_insert i v) = Some (InsertStatement ''bench'' [to_string (int i), to_string (int v)])"
proof -
  have h: "upper ''INSERT'' = ''INSERT''" "upper ''INTO'' = ''INTO''" "is_word ''bench''" "upper ''VALUES'' = ''VALUES''"
    by code_simp+
  from Parse_insert [OF h, of "[to_string (int i), to_string (int v)]" True] to_string_plain show ?thesis
    by (simp add: bench_insert_def list_text_def semi_def)
qed

text \<open>A reply that arrives in pieces is read whole, as long as no piece before the last ends in what looks
  like a prompt.\<close>

lemma drain_reply:
  assumes "\<forall>t \<in> set chunks. t \<noteq> [] \<and> CHR 0x00 \<notin> set t" and "chunks \<noteq> []"
    and "\<forall>k < length chunks. ends_prompt (buf @ concat (take (Suc k) chunks)) \<longleftrightarrow> Suc k = length chunks"
  shows "drain buf (chunks @ later) = (buf @ concat chunks, later)"
  using assms
proof (induction chunks arbitrary: buf)
  case (Cons t ts)
  have "\<forall>c \<in> set t. c \<noteq> CHR 0x00" using Cons.prems(1) by (metis list.set_intros(1))
  then have t: "c_string t = t" "t \<noteq> []" using Cons.prems(1) unfolding c_string_def takeWhile_eq_all_conv by simp_all
  show ?case
  proof (cases "ts = []")
    case True
    with Cons.prems(3) have "ends_prompt (buf @ t)" by simp
    with t True show ?thesis by (simp add: Let_def)
  next
    case False
    have "\<not> ends_prompt (buf @ t)" using Cons.prems(3) [rule_format, of 0] False by simp
    moreover have "\<forall>k < length ts. ends_prompt ((buf @ t) @ concat (take (Suc k) ts)) \<longleftrightarrow> Suc k = length ts"
      using Cons.prems(3) by (auto dest!: spec [where x = "Suc _"])
    ultimately show ?thesis using Cons.IH [of "buf @ t"] Cons.prems(1) False t by (simp add: Let_def)
  qed
qed simp

end
