(* ===== verification/Server_Properties.thy ===== *)
theory Server_Properties
  imports Bench_Client Example_Database
begin

section \<open>Properties of the server process and of its benchmark client\<close>

text \<open>
  The whole process from its start over the files of an earlier one; what the benchmark client sends
  and reads; and the parser's loops.
\<close>

text \<open>One process commits, the next one answers a \<^verbatim>\<open>SELECT\<close>; here the first may be in any state with the invariant.\<close>

lemma restart_serves_committed:
  assumes "db_inv c" and "storable_catalog c" and "db_abs c n = Some (cols, R)" and "is_name n"
    and "is_query (''SELECT * FROM '' @ n @ '';'')" and "serving [[''SELECT * FROM '' @ n @ '';'' @ newline]] s"
    and "opens_to_write (env c) catalog_path" and "visits_all e"
  shows "\<exists>r c' rs c3. Execute CommitStatement c = Some (Inr r, c') \<and> mset rs = R \<and>
    server_main e (db_files c') s =
      Some ([[welcome_text, FormatResult \<lparr>success = True, message = to_string (int (size R)) @ '' rows returned.'', rows = rs\<rparr>, prompt]],
        None, c3)"
proof -
  from assms(1) have inv: "cat_inv c" by (simp add: db_inv_def)
  from commit_restart [OF inv assms(2,7,8)] obtain r c' where
    c': "ExecuteCommit c = Some (Inr r, c')" "cat_inv (LoadCatalog catalog_path (new_Catalog e (db_files c')))"
      "cat_abs (LoadCatalog catalog_path (new_Catalog e (db_files c'))) = cat_abs c" by blast
  let ?c2 = "LoadCatalog catalog_path (new_Catalog e (db_files c'))"
  have c2: "db_inv ?c2" "db_abs ?c2 = db_abs c"
    using db_inv_cong [OF assms(1) c'(2,3)] db_abs_cong [OF c'(3)] by simp_all
  from select_refines [OF c2(1), of n] assms(3) c2(2) obtain rs c3 where
    s: "ExecuteSelect n ?c2 = Some (Inr \<lparr>success = True, message = to_string (int (length rs)) @ '' rows returned.'', rows = rs\<rparr>, c3)"
      "mset rs = R" by (auto elim: db_selectE)
  have up: "upper ''SELECT'' = ''SELECT''" "upper ''FROM'' = ''FROM''" by code_simp+
  have p: "Parse (''SELECT * FROM '' @ n @ '';'') = Some (SelectStatement n)"
    using Parse_select [OF up assms(4), of True] by (simp add: semi_def)
  let ?q = "\<lparr>success = True, message = to_string (int (length rs)) @ '' rows returned.'', rows = rs\<rparr>"
  have "run Execute [SelectStatement n] ?c2 = Some (map Inr [?q], c3)" using s(1) by (simp add: Execute_def)
  from client_loop_runs [OF _ this, of "[''SELECT * FROM '' @ n @ '';'']"] assms(5) p
  have "client_loop [''SELECT * FROM '' @ n @ '';'' @ newline] ?c2 = Some ([FormatResult ?q, prompt], None, c3)"
    by (simp add: answers_def)
  then have "HandleClient [''SELECT * FROM '' @ n @ '';'' @ newline] ?c2 = Some ([welcome_text, FormatResult ?q, prompt], None, c3)"
    using read_pieces_line [OF assms(5)] by (simp add: HandleClient_def send_first_def)
  then have "server_main e (db_files c') s = Some ([[welcome_text, FormatResult ?q, prompt]], None, c3)"
    by (simp add: server_main_def Start_serving [OF assms(6)])
  moreover have "length rs = size R" using s(2) by auto
  ultimately show ?thesis using c'(1) s(2) by (auto simp: Execute_def)
qed

text \<open>The benchmark never commits: of the lines it sends, each \<^verbatim>\<open>COMMIT;\<close> is rejected by the parser, and
  all others are the statements they look like. What it reports as commit latency and durable throughput
  is the time of error replies.\<close>
lemma bench_never_commits:
  "map Parse (bench_queries n) =
    [Some (CreateTableStatement ''bench'' [new_Column ''id'' INTEGER, new_Column ''val'' INTEGER]),
     Some (DeleteStatement ''bench'' [] []), None] @
    map (\<lambda>i. Some (InsertStatement ''bench'' [to_string (int i), to_string (int (i * 2))])) [0..<n] @ [None] @
    replicate (max 10 (n div 10)) (Some (SelectStatement ''bench'')) @
    [Some (DeleteStatement ''bench'' [] []), None] @
    concat (map (\<lambda>i. [Some (InsertStatement ''bench'' [to_string (int i), to_string (int i)]), None]) [0..<max 10 (n div 10)])"
proof -
  have "Parse ''CREATE TABLE bench (id INTEGER, val INTEGER);'' =
      Some (CreateTableStatement ''bench'' [new_Column ''id'' INTEGER, new_Column ''val'' INTEGER])"
    "Parse ''DELETE FROM bench;'' = Some (DeleteStatement ''bench'' [] [])" "Parse ''COMMIT;'' = None"
    "Parse ''SELECT * FROM bench;'' = Some (SelectStatement ''bench'')" by code_simp+
  then show ?thesis
    by (simp add: bench_queries_def Let_def Parse_bench_insert comp_def map_concat)
qed

text \<open>A client that waits for the prompt gets the whole reply: what the server sends for one statement ends
  with the prompt and looks like one nowhere before, so \<open>drain\<close> returns exactly it and leaves later replies
  unread.\<close>
lemma query_gets_reply:
  assumes "CHR 0x00 \<notin> set (FormatResult q)"
  shows "drain [] ([FormatResult q, prompt] @ later) = (FormatResult q @ prompt, later)"
proof -
  have "\<exists>s. FormatResult q = s @ newline" by (auto simp: FormatResult_def)
  then have f: "FormatResult q \<noteq> []" "\<not> ends_prompt (FormatResult q)"
    by (auto simp: newline_def ends_prompt_def Suc_diff_le)
  have g: "ends_prompt (FormatResult q @ prompt)" by (simp add: ends_prompt_def prompt_def newline_def)
  have "\<forall>t \<in> set [FormatResult q, prompt]. t \<noteq> [] \<and> CHR 0x00 \<notin> set t"
    using f assms by (simp add: prompt_def newline_def)
  moreover have "\<forall>k < length [FormatResult q, prompt].
      ends_prompt ([] @ concat (take (Suc k) [FormatResult q, prompt])) \<longleftrightarrow> Suc k = length [FormatResult q, prompt]"
    using f g by (auto simp: less_Suc_eq)
  ultimately show ?thesis using drain_reply [of "[FormatResult q, prompt]" "[]" later] by simp
qed

lemma query_gets_reply_witness:
  "drain [] ([FormatResult \<lparr>success = True, message = ''1 row inserted.'', rows = []\<rparr>, prompt] @ [''x'']) =
    (''1 row inserted.'' @ newline @ newline @ ''> '', [''x''])"
proof -
  let ?q = "\<lparr>success = True, message = ''1 row inserted.'', rows = []\<rparr>"
  have "CHR 0x00 \<notin> set (FormatResult ?q)" by code_simp
  from query_gets_reply [OF this, of "[''x'']"] show ?thesis by (simp add: FormatResult_def prompt_def)
qed

text \<open>C36. The parser's loops are word splitting: on any text the value loop of \<^verbatim>\<open>INSERT\<close> returns its words and the
  column loop of \<^verbatim>\<open>CREATE TABLE\<close> their pairs, where the words of a text are without white space, not empty, and
  together hold all other characters in order. Both loops end on every input.\<close>
theorem parser_loops_split_words:
  "parse_values (new_sstream s) = words s \<and> parse_columns (new_sstream s) = word_pairs (words s) \<and>
    list_all is_word (words s) \<and> concat (words s) = filter not_space s"
  using words_of_text [of s] parse_values_words [OF stream_ok_new] parse_columns_words [OF stream_ok_new]
  by (simp add: new_sstream_def)

end
