(* ===== verification/Server_Sockets.thy ===== *)
theory Server_Sockets
  imports Tcp_Server
begin

section \<open>The sockets of the server (src/network/tcp_server.cpp)\<close>

text \<open>
  The same \<^verbatim>\<open>Start\<close> with the descriptors in view: the sequence of socket calls that it makes, each with the
  descriptor it is made on and, for \<^verbatim>\<open>socket\<close> and \<^verbatim>\<open>accept\<close>, the one it returns. \<open>Talk\<close> stands for
  the reads and sends of a session. \<open>Start_calls_shows_Start\<close>: without the descriptors it is \<^term>\<open>Start\<close>. The
  other lemmas are about what stays open.
\<close>

record TcpServer =
  server_socket :: int

definition new_TcpServer :: TcpServer where
  "new_TcpServer = \<lparr>server_socket = -1\<rparr>"

datatype syscall =
    Sys_socket int
  | Sys_setsockopt int
  | Sys_bind int u16
  | Sys_listen int nat
  | Sys_accept int int
  | Talk int "string list"
  | Sys_close int

definition drop_TcpServer :: "TcpServer \<Rightarrow> syscall list" where
  "drop_TcpServer srv = (if server_socket srv \<noteq> -1 then [Sys_close (server_socket srv)] else [])"

fun accept_calls :: "int \<Rightarrow> (int \<times> string list) list \<Rightarrow> Catalog \<Rightarrow> (syscall list \<times> exn option \<times> Catalog) option" where
  "accept_calls lfd [] c = Some ([], None, c)"
| "accept_calls lfd ((fd, reads) # conns) c = (
     if fd < 0 then do {
       (calls, e, c1) \<leftarrow> accept_calls lfd conns c;
       Some (Sys_accept lfd fd # calls, e, c1) }
     else do {
       (out, e, c1) \<leftarrow> HandleClient reads c;
       case e of
         Some _ \<Rightarrow> Some ([Sys_accept lfd fd, Talk fd out], e, c1)
       | None \<Rightarrow> do {
           (calls, e', c2) \<leftarrow> accept_calls lfd conns c1;
           Some (Sys_accept lfd fd # Talk fd out # Sys_close fd # calls, e', c2) } })"

definition Start_calls :: "u16 \<Rightarrow> Sockets \<Rightarrow> (int \<times> string list) list \<Rightarrow> Catalog \<Rightarrow> TcpServer \<Rightarrow>
    (syscall list \<times> exn option \<times> Catalog \<times> TcpServer) option" where
  "Start_calls port s conns c srv = (let fd = socket_fd s; srv' = srv\<lparr>server_socket := fd\<rparr> in
     if fd < 0 then Some ([Sys_socket fd], None, c, srv')
     else let calls = [Sys_socket fd, Sys_setsockopt fd, Sys_bind fd port] in
       if bind_result s < 0 then Some (calls, None, c, srv')
       else if listen_result s < 0 then Some (calls @ [Sys_listen fd 5], None, c, srv')
       else do {
         (calls', e, c1) \<leftarrow> accept_calls fd conns c;
         Some (calls @ Sys_listen fd 5 # calls', e, c1, srv') })"

subsection \<open>What the calls show\<close>

definition connection :: "int \<times> string list \<Rightarrow> string list option" where
  "connection = (\<lambda>(fd, reads). if fd < 0 then None else Some reads)"

fun talks :: "syscall list \<Rightarrow> string list list" where
  "talks [] = []"
| "talks (Talk fd out # calls) = out # talks calls"
| "talks (_ # calls) = talks calls"

lemma accept_calls_show_loop:
  "accept_loop (map connection conns) c = map_option (\<lambda>(calls, e, c'). (talks calls, e, c')) (accept_calls lfd conns c)"
proof (induction conns arbitrary: c)
  case (Cons conn conns)
  obtain fd reads where "conn = (fd, reads)" by (cases conn)
  with Cons show ?case
    by (simp add: connection_def) (auto split: option.splits Option.bind_splits)
qed simp

lemma Start_calls_shows_Start:
  assumes "accepts s = map connection conns"
  shows "Start s c = map_option (\<lambda>(calls, e, c', srv'). (talks calls, e, c')) (Start_calls port s conns c srv)"
  using assms accept_calls_show_loop [of conns c "socket_fd s"]
  by (auto simp: Start_def Start_calls_def Let_def split: Option.bind_splits)

text \<open>The descriptors that are open after a sequence of calls, the youngest first.\<close>

fun step_open :: "syscall \<Rightarrow> int list \<Rightarrow> int list" where
  "step_open (Sys_socket fd) fds = (if fd < 0 then fds else fd # fds)"
| "step_open (Sys_accept lfd fd) fds = (if fd < 0 then fds else fd # fds)"
| "step_open (Sys_close fd) fds = remove1 fd fds"
| "step_open _ fds = fds"

definition open_after :: "syscall list \<Rightarrow> int list \<Rightarrow> int list" where
  "open_after = fold step_open"

lemma open_after_simps [simp]: "open_after [] fds = fds" "open_after (x # calls) fds = open_after calls (step_open x fds)"
  "open_after (calls @ calls') fds = open_after calls' (open_after calls fds)"
  by (simp_all add: open_after_def)

text \<open>A session's descriptor is closed before the next connection is accepted, unless an exception ends the server.\<close>

lemma accept_calls_few:
  "accept_calls lfd conns c = Some (calls, e, c') \<Longrightarrow> \<forall>n. length (open_after (take n calls) fds) \<le> Suc (length fds)"
proof (induction conns arbitrary: c calls e)
  case (Cons conn conns)
  from Cons.prems show ?case
    by (cases conn) (auto simp: take_Cons split: if_splits Option.bind_splits option.splits nat.splits dest!: Cons.IH)
qed simp

lemma accept_calls_open:
  "accept_calls lfd conns c = Some (calls, e, c') \<Longrightarrow>
    (e = None \<longrightarrow> open_after calls fds = fds) \<and> (e \<noteq> None \<longrightarrow> (\<exists>fd \<ge> 0. open_after calls fds = fd # fds))"
proof (induction conns arbitrary: c calls e)
  case (Cons conn conns)
  from Cons.prems show ?case
    by (cases conn) (auto split: if_splits Option.bind_splits option.splits dest!: Cons.IH)
qed simp

text \<open>While it serves, the server holds its listening socket and at most one client's.\<close>

lemma Start_calls_open:
  assumes "Start_calls port s conns c srv = Some (calls, e, c', srv')"
  shows "length (open_after (take n calls) []) \<le> 2"
    and "0 \<le> socket_fd s \<Longrightarrow> e = None \<Longrightarrow> open_after calls [] = [server_socket srv']"
    and "e \<noteq> None \<Longrightarrow> \<exists>fd \<ge> 0. open_after calls [] = [fd, server_socket srv']"
proof -
  have few: "length (open_after (take m cs) [socket_fd s]) \<le> 2" if "accept_calls (socket_fd s) conns c = Some (cs, e, c')" for cs m
    using accept_calls_few [OF that, of "[socket_fd s]"] by (simp add: numeral_2_eq_2)
  show "length (open_after (take n calls) []) \<le> 2"
    using assms by (auto simp: Start_calls_def Let_def take_Cons split: if_splits Option.bind_splits nat.splits dest: few)
  show "open_after calls [] = [server_socket srv']" if "0 \<le> socket_fd s" "e = None"
    using assms that accept_calls_open [of "socket_fd s" conns c _ e c' "[socket_fd s]"]
    by (auto simp: Start_calls_def Let_def split: if_splits Option.bind_splits)
  show "\<exists>fd \<ge> 0. open_after calls [] = [fd, server_socket srv']" if "e \<noteq> None"
    using assms that accept_calls_open [of "socket_fd s" conns c _ e c' "[socket_fd s]"]
    by (auto simp: Start_calls_def Let_def split: if_splits Option.bind_splits)
qed

text \<open>When the server cannot be set up it returns, and its destructor closes what it had opened.\<close>

lemma Start_fails_closes:
  assumes "socket_fd s < 0 \<or> bind_result s < 0 \<or> listen_result s < 0"
    and "Start_calls port s conns c new_TcpServer = Some (calls, e, c', srv')"
  shows "open_after (calls @ drop_TcpServer srv') [] = []" and "talks calls = []" and "c' = c" and "e = None"
  using assms by (auto simp: Start_calls_def Let_def drop_TcpServer_def split: if_splits Option.bind_splits)

end
