(* ===== verification/Server_History.thy ===== *)
theory Server_History
  imports Tcp_Server Database_Capacity
begin

section \<open>From lines of text to the relational database, over sessions and restarts\<close>

text \<open>
  \<open>line_step\<close> is what one line of text does to the relations of \<open>Database\<close>, and the text it is
  answered with. Sessions, the accept loop and whole processes are sequences of such steps; the only
  contract is \<open>line_ok\<close>, which is about tables and values.
\<close>

definition rejected :: string where
  "rejected = ''Error: Invalid or unsupported SQL statement.'' @ newline"

inductive line_step :: "database \<Rightarrow> string \<Rightarrow> string \<Rightarrow> database \<Rightarrow> bool" where
  line_rejected: "Parse t = None \<Longrightarrow> line_step db t rejected db"
| line_answered: "Parse t = Some stmt \<Longrightarrow> db_step db stmt (Inr q) db' \<Longrightarrow> line_step db t (FormatResult q) db'"

text \<open>A line that the server is made for: it fits one read, and if it is an \<^verbatim>\<open>INSERT\<close> into a table, there are not
  more values than columns and every INTEGER column gets a number of 32 bits.\<close>

definition line_ok :: "database \<Rightarrow> string \<Rightarrow> bool" where
  "line_ok db t \<longleftrightarrow> is_query t \<and> (case Parse t of
     Some (InsertStatement n raws) \<Rightarrow> stmt_ok db (InsertStatement n raws)
   | _ \<Rightarrow> True)"

definition line_next :: "database \<Rightarrow> string \<Rightarrow> database" where
  "line_next db t = (case Parse t of None \<Rightarrow> db | Some stmt \<Rightarrow> db_next db stmt)"

fun lines_ok :: "database \<Rightarrow> string list \<Rightarrow> bool" where
  "lines_ok db [] \<longleftrightarrow> True"
| "lines_ok db (t # ts) \<longleftrightarrow> line_ok db t \<and> lines_ok (line_next db t) ts"

definition replies :: "string list \<Rightarrow> string list" where
  "replies rs = concat (map (\<lambda>r. [r, prompt]) rs)"

lemma replies_simps [simp]: "replies [] = []" "replies (r # rs) = r # prompt # replies rs"
  by (simp_all add: replies_def)

lemma line_step_next: "line_step db t r db' \<Longrightarrow> db' = line_next db t"
  by (auto simp: line_next_def dest: db_step_next elim!: line_step.cases)

lemma spec_run_next: "spec_run line_step db ts rs db' \<Longrightarrow> db' = fold (\<lambda>t db. line_next db t) ts db"
  by (induction ts arbitrary: db rs) (auto elim!: spec_run_ConsE dest: line_step_next)

lemma lines_ok_append: "lines_ok db (ts @ us) \<longleftrightarrow> lines_ok db ts \<and> lines_ok (fold (\<lambda>t db. line_next db t) ts db) us"
  by (induction ts arbitrary: db) auto

lemma spec_run_append:
  "spec_run spec a qs rs b \<Longrightarrow> spec_run spec b qs' rs' c \<Longrightarrow> spec_run spec a (qs @ qs') (rs @ rs') c"
  by (induction rule: spec_run.induct) auto

lemma line_ok_stmt: "line_ok db t \<Longrightarrow> Parse t = Some stmt \<Longrightarrow> stmt_ok db stmt"
  using Parse_create_small [of t]
  by (cases stmt) (auto simp: line_ok_def stmt_ok_def is_query_def)

subsection \<open>Sessions\<close>

text \<open>\<open>committed fs k db\<close>: a process started over the files \<open>fs\<close> has the database \<open>db\<close>, and has used at most \<open>k\<close> of
  its ranges.\<close>

definition committed :: "Environment \<Rightarrow> (string \<Rightarrow> byte list option) \<Rightarrow> nat \<Rightarrow> database \<Rightarrow> bool" where
  "committed e fs k db \<longleftrightarrow> (let c = LoadCatalog catalog_path (new_Catalog e fs) in
     db_inv c \<and> capacity k c \<and> db_abs c = db \<and> env c = e)"

lemma committed_empty: "visits_all e \<Longrightarrow> fs catalog_path = None \<Longrightarrow> committed e fs 0 Map.empty"
  using db_inv_new [of e fs] within_new [of e fs] by (simp add: committed_def LoadCatalog_def)

lemma committed_mono: "committed e fs k db \<Longrightarrow> k \<le> m \<Longrightarrow> committed e fs m db"
  by (auto simp: committed_def Let_def intro: within_mono)

lemma commit_committed:
  assumes inv: "db_inv c" and w: "capacity k c" "k \<le> 2 ^ 19" and x: "Execute CommitStatement c = Some (r, c')"
    and o: "opens_to_write (env c) catalog_path"
  shows "committed (env c) (db_files c') k (db_abs c')"
proof -
  from inv have "cat_inv c" by (simp add: db_inv_def)
  from ExecuteCommit_spec [OF this] x have c': "cat_inv c'" "cat_abs c' = cat_abs c" "flushed c'"
      "files c' catalog_path = Some (catalog_bytes c')" "map table_entry (tables c') = map table_entry (tables c)"
      "next_table_oid c' = next_table_oid c" using o by (auto simp: Execute_def)
  have w': "capacity k c'" using within_cong [OF arg_cong [OF c'(5), of mset] c'(6)] w(1) by simp
  note st = within_storable [OF w' w(2)]
  have e: "visits_all (env c)" using inv by (simp add: db_inv_def cat_inv_def)
  have "db_inv c'" by (rule db_inv_cong [OF inv c'(1,2)])
  note l = LoadCatalog_flushed [OF c'(1) st c'(3,4) e]
  have "db_files c' catalog_path = Some (catalog_bytes c')" using db_files_other [OF c'(1), of catalog_path] c'(4) by simp
  note es = LoadCatalog_entries [where fs = "db_files c'" and e = "env c", OF c'(1) st this]
    and b = LoadCatalog_bytes [where fs = "db_files c'" and e = "env c", OF c'(1) st this]
  have "db_inv (LoadCatalog catalog_path (new_Catalog (env c) (db_files c')))" by (rule db_inv_cong [OF \<open>db_inv c'\<close> l(1,2)])
  with within_cong [OF es l(3)] w' db_abs_cong [OF l(2)] show ?thesis by (simp add: committed_def Let_def) (simp add: b)
qed

text \<open>The state invariant of the process; when the last line was a \<^verbatim>\<open>COMMIT\<close>, the files have the database.\<close>

definition db_good :: "Environment \<Rightarrow> nat \<Rightarrow> bool \<Rightarrow> Catalog \<Rightarrow> bool" where
  "db_good e k b c \<longleftrightarrow> env c = e \<and> db_inv c \<and> capacity k c \<and>
     (b \<longrightarrow> opens_to_write e catalog_path \<longrightarrow> committed e (db_files c) k (db_abs c))"

definition is_commit :: "string \<Rightarrow> bool" where
  "is_commit t \<longleftrightarrow> Parse t = Some CommitStatement"

definition saved_after :: "bool \<Rightarrow> string list \<Rightarrow> bool" where
  "saved_after b ts \<longleftrightarrow> (if ts = [] then b else is_commit (last ts))"

lemma saved_after_simps [simp]: "saved_after b [] = b" "saved_after b (t # ts) = saved_after (is_commit t) ts"
  "saved_after b (ts @ us) = saved_after (saved_after b ts) us"
  by (simp_all add: saved_after_def)

lemma client_loop_line:
  assumes "db_good e k b c" and "k < 2 ^ 19" and "line_ok (db_abs c) t"
  shows "\<exists>r c'. client_loop ((t @ newline) # bufs) c = send_first [r, prompt] (client_loop bufs c') \<and>
    db_good e (Suc k) (is_commit t) c' \<and> line_step (db_abs c) t r (db_abs c')"
proof -
  from assms(3) have q: "is_query t" by (simp add: line_ok_def)
  then have t: "t \<noteq> []" "t \<noteq> ''exit''" "t \<noteq> ''quit''" "trim_line_ends (c_string (t @ newline)) = t"
    by (simp_all add: is_query_def trim_query)
  show ?thesis
  proof (cases "Parse t")
    case None
    then have "client_loop ((t @ newline) # bufs) c = send_first [rejected, prompt] (client_loop bufs c)"
      using t by (simp add: rejected_def)
    moreover have "db_good e (Suc k) (is_commit t) c" using assms(1) within_mono None by (auto simp: db_good_def is_commit_def)
    ultimately show ?thesis using line_rejected [OF None] by blast
  next
    case (Some stmt)
    from assms(1) have g: "db_inv c" "capacity k c" and e: "env c = e" by (simp_all add: db_good_def)
    from Execute_step [OF g assms(2) line_ok_stmt [OF assms(3) Some]] obtain q c' where
      x: "Execute stmt c = Some (Inr q, c')" "db_inv c'" "capacity (Suc k) c'" "db_step (db_abs c) stmt (Inr q) (db_abs c')" by blast
    then have "client_loop ((t @ newline) # bufs) c = send_first [FormatResult q, prompt] (client_loop bufs c')"
      using t Some by simp
    moreover have "committed e (db_files c') (Suc k) (db_abs c')" if "is_commit t" "opens_to_write e catalog_path"
      using that committed_mono [of _ _ k _ "Suc k"] x(1) Some assms(2) e commit_committed [OF g]
      by (auto simp: is_commit_def)
    ultimately show ?thesis using x e Execute_env [OF x(1)] line_answered [OF Some x(4)] by (auto simp: db_good_def)
  qed
qed

lemma send_first_append [simp]: "send_first xs (send_first ys s) = send_first (xs @ ys) s"
  by (cases s) (auto simp: send_first_def)

lemma client_loop_lines:
  assumes "db_good e k b c" and "k + length ts \<le> 2 ^ 19" and "lines_ok (db_abs c) ts"
  shows "\<exists>rs c'. client_loop (map (\<lambda>t. t @ newline) ts @ bufs) c = send_first (replies rs) (client_loop bufs c') \<and>
    db_good e (k + length ts) (saved_after b ts) c' \<and> spec_run line_step (db_abs c) ts rs (db_abs c')"
  using assms
proof (induction ts arbitrary: k b c)
  case Nil
  have "send_first [] s = s" for s by (cases s) (auto simp: send_first_def)
  with Nil show ?case by (intro exI [of _ "[]"] exI [of _ c]) simp
next
  case (Cons t ts)
  then have "k < 2 ^ 19" "line_ok (db_abs c) t" by auto
  from client_loop_line [OF Cons.prems(1) this] obtain r c1 where
    1: "client_loop ((t @ newline) # map (\<lambda>t. t @ newline) ts @ bufs) c =
        send_first [r, prompt] (client_loop (map (\<lambda>t. t @ newline) ts @ bufs) c1)"
      "db_good e (Suc k) (is_commit t) c1" "line_step (db_abs c) t r (db_abs c1)" by blast
  have "lines_ok (db_abs c1) ts" using Cons.prems(3) line_step_next [OF 1(3)] by simp
  from Cons.IH [OF 1(2) _ this] Cons.prems(2) obtain rs c2 where
    2: "client_loop (map (\<lambda>t. t @ newline) ts @ bufs) c1 = send_first (replies rs) (client_loop bufs c2)"
      "db_good e (Suc k + length ts) (saved_after (is_commit t) ts) c2" "spec_run line_step (db_abs c1) ts rs (db_abs c2)" by auto
  with 1 show ?case by (intro exI [of _ "r # rs"] exI [of _ c2]) auto
qed

lemma spec_run_length: "spec_run spec a qs rs b \<Longrightarrow> length rs = length qs"
  by (induction rule: spec_run.induct) auto

lemma lines_ok_queries: "lines_ok db ts \<Longrightarrow> list_all is_query ts"
  by (induction ts arbitrary: db) (auto simp: line_ok_def)

text \<open>One connection after the other.\<close>

lemma accept_loop_lines:
  assumes "db_good e k b c" and "k + length (concat tss) \<le> 2 ^ 19" and "lines_ok (db_abs c) (concat tss)"
  shows "\<exists>rss c'. accept_loop (map Some (map (map (\<lambda>t. t @ newline)) tss)) c =
      Some (map (\<lambda>rs. welcome_text # replies rs) rss, None, c') \<and> map length rss = map length tss \<and>
    db_good e (k + length (concat tss)) (saved_after b (concat tss)) c' \<and> spec_run line_step (db_abs c) (concat tss) (concat rss) (db_abs c')"
  using assms
proof (induction tss arbitrary: k b c)
  case Nil
  then show ?case by (intro exI [of _ "[]"]) simp
next
  case (Cons ts tss)
  then have "k + length ts \<le> 2 ^ 19" "lines_ok (db_abs c) ts" by (auto simp: lines_ok_append)
  from client_loop_lines [OF Cons.prems(1) this, of "[]"] obtain rs c1 where
    1: "client_loop (map (\<lambda>t. t @ newline) ts) c = Some (replies rs, None, c1)" "db_good e (k + length ts) (saved_after b ts) c1"
      "spec_run line_step (db_abs c) ts rs (db_abs c1)" by (auto simp: send_first_def)
  have "lines_ok (db_abs c1) (concat tss)"
    using Cons.prems(3) spec_run_next [OF 1(3)] by (simp add: lines_ok_append)
  from Cons.IH [OF 1(2) _ this] Cons.prems(2) obtain rss c2 where
    2: "accept_loop (map Some (map (map (\<lambda>t. t @ newline)) tss)) c1 =
        Some (map (\<lambda>rs. welcome_text # replies rs) rss, None, c2)" "map length rss = map length tss"
      "db_good e (k + length ts + length (concat tss)) (saved_after (saved_after b ts) (concat tss)) c2" "spec_run line_step (db_abs c1) (concat tss) (concat rss) (db_abs c2)"
    by auto
  have "list_all is_query ts" using Cons.prems(3) by (auto simp: lines_ok_append intro: lines_ok_queries)
  with 1(1) have "HandleClient (map (\<lambda>t. t @ newline) ts) c = Some (welcome_text # replies rs, None, c1)"
    unfolding HandleClient_def by (simp only: read_pieces_lines) (simp add: send_first_def)
  with 1 2 spec_run_length [OF 1(3)] spec_run_append [OF 1(3) 2(4)] show ?case
    by (intro exI [of _ "rs # rss"] exI [of _ c2]) (auto simp: add.assoc)
qed

subsection \<open>Processes\<close>

text \<open>One process after the other on the same files; each starts with what the one before it has left on disk.\<close>

fun history :: "Environment \<Rightarrow> (string \<Rightarrow> byte list option) \<Rightarrow> Sockets list \<Rightarrow> (string list list list \<times> (string \<Rightarrow> byte list option)) option" where
  "history e fs [] = Some ([], fs)"
| "history e fs (s # ss) = do {
     (outs, ex, c) \<leftarrow> server_main e fs s;
     (outss, fs') \<leftarrow> history e (db_files c) ss;
     Some (outs # outss, fs') }"

lemma server_main_lines:
  assumes fs: "committed e fs k db" and s: "serving (map (map (\<lambda>t. t @ newline)) tss) s"
    and ok: "k + length (concat tss) \<le> 2 ^ 19" "lines_ok db (concat tss)"
  shows "\<exists>rss c. server_main e fs s = Some (map (\<lambda>rs. welcome_text # replies rs) rss, None, c) \<and> map length rss = map length tss \<and>
    db_good e (k + length (concat tss)) (saved_after False (concat tss)) c \<and> spec_run line_step db (concat tss) (concat rss) (db_abs c)"
proof -
  let ?c = "LoadCatalog catalog_path (new_Catalog e fs)"
  from fs have g: "db_good e k False ?c" "db_abs ?c = db" by (simp_all add: committed_def db_good_def Let_def)
  from accept_loop_lines [OF g(1) ok(1), unfolded g(2), OF ok(2)] Start_serving [OF s, of ?c] show ?thesis
    by (auto simp: server_main_def)
qed

lemma history_lines:
  assumes "committed e fs k db" and "opens_to_write e catalog_path" and "list_all2 (\<lambda>tss s. serving (map (map (\<lambda>t. t @ newline)) tss) s) tsss ss"
    and "k + length (concat (concat tsss)) \<le> 2 ^ 19" and "lines_ok db (concat (concat tsss))"
    and "\<forall>tss \<in> set tsss. saved_after False (concat tss)"
  shows "\<exists>rsss fs' db'. history e fs ss = Some (map (map (\<lambda>rs. welcome_text # replies rs)) rsss, fs') \<and>
    map (map length) rsss = map (map length) tsss \<and>
    spec_run line_step db (concat (concat tsss)) (concat (concat rsss)) db' \<and>
    committed e fs' (k + length (concat (concat tsss))) db'"
  using assms
proof (induction tsss arbitrary: fs k db ss)
  case Nil
  then show ?case by (intro exI [of _ "[]"]) auto
next
  case (Cons tss tsss)
  from Cons.prems(3) obtain s ss' where ss: "ss = s # ss'" "serving (map (map (\<lambda>t. t @ newline)) tss) s"
    "list_all2 (\<lambda>tss s. serving (map (map (\<lambda>t. t @ newline)) tss) s) tsss ss'" by (auto simp: list_all2_Cons1)
  from Cons.prems(4,5) have "k + length (concat tss) \<le> 2 ^ 19" "lines_ok db (concat tss)" by (auto simp: lines_ok_append)
  from server_main_lines [OF Cons.prems(1) ss(2) this] obtain rss c where
    1: "server_main e fs s = Some (map (\<lambda>rs. welcome_text # replies rs) rss, None, c)" "map length rss = map length tss"
      "db_good e (k + length (concat tss)) (saved_after False (concat tss)) c" "spec_run line_step db (concat tss) (concat rss) (db_abs c)"
    by blast
  from 1(3) Cons.prems(2,6) have cm: "committed e (db_files c) (k + length (concat tss)) (db_abs c)" by (simp add: db_good_def)
  have "lines_ok (db_abs c) (concat (concat tsss))"
    using Cons.prems(5) spec_run_next [OF 1(4)] by (simp add: lines_ok_append)
  from Cons.IH [OF cm Cons.prems(2) ss(3) _ this] Cons.prems(4,6) obtain rsss fs' db' where
    2: "history e (db_files c) ss' = Some (map (map (\<lambda>rs. welcome_text # replies rs)) rsss, fs')"
      "map (map length) rsss = map (map length) tsss"
      "spec_run line_step (db_abs c) (concat (concat tsss)) (concat (concat rsss)) db'"
      "committed e fs' (k + length (concat tss) + length (concat (concat tsss))) db'" by (auto simp: add.assoc)
  with 1 spec_run_append [OF 1(4) 2(3)] ss(1) show ?case
    by (intro exI [of _ "rss # rsss"]) (auto simp: add.assoc)
qed

end
