(* ===== verification/Bench_Run.thy ===== *)
theory Bench_Run
  imports Bench_Client Server_History
begin

section \<open>A run of the benchmark against the server\<close>

text \<open>
  The client reads every answer whole, whatever pieces it arrives in, because no answer to its lines
  holds the character that ends a prompt (\<open>plain_reply\<close>); and the lines keep to the server's contract.
\<close>

subsection \<open>Answers that arrive in pieces\<close>

definition delivers :: "(string \<Rightarrow> string list) \<Rightarrow> bool" where
  "delivers deliver \<longleftrightarrow> (\<forall>s. concat (deliver s) = s \<and> [] \<notin> set (deliver s))"

definition plain_reply :: "string \<Rightarrow> bool" where
  "plain_reply r \<longleftrightarrow> CHR ''>'' \<notin> set r \<and> CHR 0x00 \<notin> set r"

lemma plain_reply_simps [simp]:
  "plain_reply []" "plain_reply (c # r) \<longleftrightarrow> c \<noteq> CHR ''>'' \<and> c \<noteq> CHR 0x00 \<and> plain_reply r"
  "plain_reply (r @ r') \<longleftrightarrow> plain_reply r \<and> plain_reply r'"
  by (auto simp: plain_reply_def)

lemma prompt_only_at_end:
  assumes r: "plain_reply r" and p: "p @ y = r @ ''> ''" and y: "y \<noteq> []"
  shows "\<not> ends_prompt p"
proof
  assume "ends_prompt p"
  then obtain q where q: "p = q @ ''> ''" unfolding ends_prompt_def by (metis append_take_drop_id)
  let ?n = "\<lambda>s. length (filter (\<lambda>c. c = CHR ''>'') s)"
  have one: "?n r = 0" using r by (auto simp: plain_reply_def filter_empty_conv)
  have "?n (q @ ''> '' @ y) = ?n (r @ ''> '')" using p q by simp
  with one have "?n q = 0" by simp
  then have tq: "takeWhile (\<lambda>c. c \<noteq> CHR ''>'') (q @ ''> '' @ y) = q" by (auto simp: filter_empty_conv takeWhile_append2)
  have tr: "takeWhile (\<lambda>c. c \<noteq> CHR ''>'') (r @ ''> '') = r"
    using r by (subst takeWhile_append2) (auto simp: plain_reply_def)
  have "q @ ''> '' @ y = r @ ''> ''" using p q by simp
  with tq tr have "q = r" by metis
  with p q y show False by simp
qed

lemma drain_pieces:
  assumes d: "delivers deliver" and r: "plain_reply r"
  shows "drain [] (deliver (r @ ''> '')) = (r @ ''> '', [])"
proof -
  let ?ch = "deliver (r @ ''> '')"
  from d have c: "concat ?ch = r @ ''> ''" and ne: "[] \<notin> set ?ch" by (simp_all add: delivers_def)
  have "ends_prompt ([] @ concat (take (Suc k) ?ch)) \<longleftrightarrow> Suc k = length ?ch" if k: "k < length ?ch" for k
  proof (cases "Suc k = length ?ch")
    case True
    with c show ?thesis by (simp add: ends_prompt_def)
  next
    case False
    with k obtain x xs where x: "drop (Suc k) ?ch = x # xs" by (cases "drop (Suc k) ?ch") auto
    then have "x \<noteq> []" using ne by (metis in_set_dropD list.set_intros(1))
    have "concat (take (Suc k) ?ch) @ concat (drop (Suc k) ?ch) = r @ ''> ''" by (metis append_take_drop_id concat_append c)
    from prompt_only_at_end [OF r this] x \<open>x \<noteq> []\<close> False show ?thesis by simp
  qed
  moreover have "CHR 0x00 \<notin> set (concat ?ch)" unfolding c using r by (simp add: plain_reply_def)
  then have "\<forall>t \<in> set ?ch. t \<noteq> [] \<and> CHR 0x00 \<notin> set t" using ne by auto
  moreover have "?ch \<noteq> []" using c by auto
  ultimately show ?thesis using drain_reply [of ?ch "[]" "[]"] c by simp
qed

subsection \<open>What the server answers to the lines of a run\<close>

definition bench_cols :: "Column list" where
  "bench_cols = [new_Column ''id'' INTEGER, new_Column ''val'' INTEGER]"

definition bench_rows :: "string list multiset \<Rightarrow> database \<Rightarrow> bool" where
  "bench_rows R db \<longleftrightarrow> db ''bench'' = Some (bench_cols, R) \<and> (\<forall>row \<in># R. \<forall>s \<in> set row. plain_reply s)"

lemma plain_to_string: "plain_reply (to_string (int n))"
  using show_nat_digits [of n] by (force simp: to_string_def plain_reply_def is_digit_def char_code_def)

lemma plain_format_row: "\<forall>s \<in> set row. plain_reply s \<Longrightarrow> plain_reply (format_row row)"
  by (induction row rule: format_row.induct) auto

lemma plain_FormatResult:
  assumes "plain_reply (message q)" and "\<forall>row \<in> set (rows q). \<forall>s \<in> set row. plain_reply s"
  shows "plain_reply (FormatResult q)"
proof -
  have "plain_reply (concat (map (\<lambda>row. format_row row @ newline) rs))" if "\<forall>row \<in> set rs. \<forall>s \<in> set row. plain_reply s" for rs
    using that by (induction rs) (auto simp: plain_format_row newline_def)
  with assms show ?thesis by (simp add: FormatResult_def newline_def)
qed

text \<open>The statements of a run after the table is there, and what each does to its rows.\<close>

definition bench_effect :: "Statement option \<Rightarrow> string list multiset \<Rightarrow> string list multiset" where
  "bench_effect s R = (case s of
     Some (InsertStatement n raws) \<Rightarrow> add_mset raws R
   | Some (DeleteStatement n col val) \<Rightarrow> {#}
   | _ \<Rightarrow> R)"

definition bench_line :: "string \<Rightarrow> bool" where
  "bench_line t \<longleftrightarrow> is_query t \<and> (Parse t \<in> {None, Some (SelectStatement ''bench''), Some (DeleteStatement ''bench'' [] [])} \<or>
     (\<exists>i v. i < 2 ^ 31 \<and> v < 2 ^ 31 \<and> Parse t = Some (InsertStatement ''bench'' [to_string (int i), to_string (int v)])))"

lemma bench_parse_row:
  assumes "i < 2 ^ 31" and "v < 2 ^ 31"
  shows "parse_row bench_cols [to_string (int i), to_string (int v)] = Inr [to_string (int i), to_string (int v)]"
  using assms stoi_to_string [of "int i"] stoi_to_string [of "int v"]
  by (simp add: bench_cols_def new_Column_def canon_def)

lemma bench_line_step:
  assumes "bench_line t" and R: "bench_rows R db"
  shows "line_ok db t" and "line_next db t = db(''bench'' \<mapsto> (bench_cols, bench_effect (Parse t) R))"
    and "bench_rows (bench_effect (Parse t) R) (line_next db t)" and "line_step db t r db' \<Longrightarrow> plain_reply r"
proof -
  from R have b: "db ''bench'' = Some (bench_cols, R)" by (simp add: bench_rows_def)
  have ne: "bench_cols \<noteq> []" "length bench_cols = 2" by (simp_all add: bench_cols_def)
  have all: "row_hit cols [] val = (\<lambda>_. True)" for cols val by (simp add: row_hit_def fun_eq_iff)
  from assms(1) consider (bad) "Parse t = None" | (sel) "Parse t = Some (SelectStatement ''bench'')"
    | (del) "Parse t = Some (DeleteStatement ''bench'' [] [])"
    | (ins) i v where "i < 2 ^ 31" "v < 2 ^ 31" "Parse t = Some (InsertStatement ''bench'' [to_string (int i), to_string (int v)])"
    unfolding bench_line_def by auto
  note cs = this
  from assms(1) have q: "is_query t" by (simp add: bench_line_def)
  show "line_ok db t"
    by (rule cs) (use q b ne bench_parse_row in \<open>auto simp: line_ok_def stmt_ok_def\<close>)
  show n: "line_next db t = db(''bench'' \<mapsto> (bench_cols, bench_effect (Parse t) R))"
    by (rule cs) (use b ne bench_parse_row all in \<open>auto simp: line_next_def bench_effect_def map_upd_triv\<close>)
  show "bench_rows (bench_effect (Parse t) R) (line_next db t)"
    unfolding n by (rule cs) (use R plain_to_string in \<open>auto simp: bench_rows_def bench_effect_def\<close>)
  assume st: "line_step db t r db'"
  show "plain_reply r"
    by (rule cs) (use st R b plain_to_string in \<open>auto simp: bench_rows_def rejected_def newline_def bench_parse_row
      intro!: plain_FormatResult elim!: line_step.cases db_step.cases\<close>)
qed

text \<open>The answers to a sequence of lines, whatever they are, are free of prompts.\<close>

fun plain_lines :: "database \<Rightarrow> string list \<Rightarrow> bool" where
  "plain_lines db [] \<longleftrightarrow> True"
| "plain_lines db (t # ts) \<longleftrightarrow> (\<forall>r db'. line_step db t r db' \<longrightarrow> plain_reply r) \<and> plain_lines (line_next db t) ts"

lemma bench_lines:
  assumes "\<forall>t \<in> set ts. bench_line t" and "bench_rows R db"
  shows "lines_ok db ts" and "plain_lines db ts"
    and "fold (\<lambda>t db. line_next db t) ts db = db(''bench'' \<mapsto> (bench_cols, fold (\<lambda>t. bench_effect (Parse t)) ts R))"
  using assms
proof (induction ts arbitrary: db R)
  case (Cons t ts)
  {
    case 1
    then have "bench_line t" by simp
    note st = bench_line_step [OF this 1(2)]
    from Cons.IH(1) [OF _ st(3)] 1 st(1) show ?case by simp
  next
    case 2
    then have "bench_line t" by simp
    note st = bench_line_step [OF this 2(2)]
    from Cons.IH(2) [OF _ st(3)] 2 st(4) show ?case by simp
  next
    case 3
    then have "bench_line t" by simp
    note st = bench_line_step [OF this 3(2)]
    have "fold (\<lambda>t db. line_next db t) ts (line_next db t) = (line_next db t)
        (''bench'' \<mapsto> (bench_cols, fold (\<lambda>t. bench_effect (Parse t)) ts (bench_effect (Parse t) R)))"
      by (rule Cons.IH(3) [OF _ st(3)]) (use 3 in simp)
    then show ?case unfolding fold_simps st(2) fun_upd_upd .
  }
qed (auto simp: bench_rows_def map_upd_triv)

subsection \<open>The client\<close>

lemma run_queries_lines:
  assumes "db_good e k b c" and "k + length ts \<le> 2 ^ 19" and "lines_ok (db_abs c) ts" and "plain_lines (db_abs c) ts"
    and "delivers deliver"
  shows "\<exists>rs c'. run_queries deliver ts c = Some (map (\<lambda>r. r @ prompt) rs, None, c') \<and> spec_run line_step (db_abs c) ts rs (db_abs c')"
  using assms(1-4)
proof (induction ts arbitrary: k b c)
  case Nil
  show ?case by (intro exI [of _ "[]"] exI [of _ c]) simp
next
  case (Cons t ts)
  then have "k < 2 ^ 19" "line_ok (db_abs c) t" by auto
  from client_loop_line [OF Cons.prems(1) this, of "[]"] obtain r c1 where
    1: "client_loop [t @ newline] c = Some ([r, prompt], None, c1)" "db_good e (Suc k) (is_commit t) c1"
      "line_step (db_abs c) t r (db_abs c1)" by (auto simp: send_first_def)
  from Cons.prems(4) 1(3) have "plain_reply (r @ newline)" by (auto simp: newline_def)
  from drain_pieces [OF assms(5) this] 1(1) have q: "query deliver t c = Some (r @ prompt, None, c1)"
    by (simp add: query_def send_line_def prompt_def)
  have "lines_ok (db_abs c1) ts" "plain_lines (db_abs c1) ts"
    using Cons.prems(3,4) line_step_next [OF 1(3)] by simp_all
  from Cons.IH [OF 1(2) _ this] Cons.prems(2) obtain rs c2 where
    2: "run_queries deliver ts c1 = Some (map (\<lambda>r. r @ prompt) rs, None, c2)" "spec_run line_step (db_abs c1) ts rs (db_abs c2)" by auto
  with 1(3) q show ?case by (intro exI [of _ "r # rs"] exI [of _ c2]) auto
qed

subsection \<open>The lines of a run\<close>

lemma bench_insert_line:
  assumes "i < 2 ^ 31" and "v < 2 ^ 31"
  shows "bench_line (bench_insert i v)"
proof -
  have l: "length (to_string (int n)) \<le> 10" if "n < 2 ^ 31" for n
    using that show_nat_length [of n 9] by (simp add: to_string_def)
  have z: "CHR 0x00 \<notin> set (to_string (int n))" for n using plain_to_string [of n] by (simp add: plain_reply_def)
  have "is_query (bench_insert i v)"
    using l [OF assms(1)] l [OF assms(2)] z by (simp add: is_query_def bench_insert_def)
  with Parse_bench_insert assms show ?thesis unfolding bench_line_def by blast
qed

lemma bench_texts:
  "bench_line ''SELECT * FROM bench;''" "bench_line ''DELETE FROM bench;''" "bench_line ''COMMIT;''"
  "Parse ''CREATE TABLE bench (id INTEGER, val INTEGER);'' = Some (CreateTableStatement ''bench'' bench_cols)"
  "Parse ''DELETE FROM bench;'' = Some (DeleteStatement ''bench'' [] [])" "Parse ''COMMIT;'' = None"
  "Parse ''SELECT * FROM bench;'' = Some (SelectStatement ''bench'')"
  "is_query ''CREATE TABLE bench (id INTEGER, val INTEGER);''"
proof -
  show p: "Parse ''CREATE TABLE bench (id INTEGER, val INTEGER);'' = Some (CreateTableStatement ''bench'' bench_cols)"
    "Parse ''DELETE FROM bench;'' = Some (DeleteStatement ''bench'' [] [])" "Parse ''COMMIT;'' = None"
    "Parse ''SELECT * FROM bench;'' = Some (SelectStatement ''bench'')" unfolding bench_cols_def by code_simp+
  have "is_query ''SELECT * FROM bench;''" "is_query ''DELETE FROM bench;''" "is_query ''COMMIT;''" by code_simp+
  with p show "bench_line ''SELECT * FROM bench;''" "bench_line ''DELETE FROM bench;''" "bench_line ''COMMIT;''"
    by (simp_all add: bench_line_def)
  show "is_query ''CREATE TABLE bench (id INTEGER, val INTEGER);''" by code_simp
qed

definition bench_rest :: "nat \<Rightarrow> string list" where
  "bench_rest n = tl (tl (bench_queries n))"

lemma bench_queries_split:
  "bench_queries n = ''CREATE TABLE bench (id INTEGER, val INTEGER);'' # ''DELETE FROM bench;'' # bench_rest n"
  by (simp add: bench_queries_def bench_rest_def Let_def)

definition durable_rows :: "nat \<Rightarrow> string list multiset" where
  "durable_rows n = mset (map (\<lambda>i. [to_string (int i), to_string (int i)]) [0..<max 10 (n div 10)])"

lemma fold_inserts:
  "fold (\<lambda>t. bench_effect (Parse t)) (concat (map (\<lambda>i. [bench_insert i i, ''COMMIT;'']) is)) R =
    R + mset (map (\<lambda>i. [to_string (int i), to_string (int i)]) is)"
  by (induction "is" arbitrary: R) (simp_all add: Parse_bench_insert bench_texts bench_effect_def)

lemma bench_rest_lines:
  assumes "n \<le> 2 ^ 30"
  shows "\<forall>t \<in> set (bench_rest n). bench_line t" and "fold (\<lambda>t. bench_effect (Parse t)) (bench_rest n) R = durable_rows n"
proof -
  have "bench_line (bench_insert i (i * 2))" if "i < n" for i using that assms by (intro bench_insert_line) auto
  moreover have "bench_line (bench_insert i i)" if "i < max 10 (n div 10)" for i
    using that assms by (intro bench_insert_line) (auto simp: less_max_iff_disj)
  ultimately show "\<forall>t \<in> set (bench_rest n). bench_line t"
    using bench_texts(1-3) by (auto simp: bench_rest_def bench_queries_def Let_def)
  have "fold (\<lambda>t. bench_effect (Parse t)) (replicate k ''SELECT * FROM bench;'') R = R" for k R
    by (induction k) (simp_all add: bench_texts bench_effect_def)
  then show "fold (\<lambda>t. bench_effect (Parse t)) (bench_rest n) R = durable_rows n"
    by (simp add: bench_rest_def bench_queries_def Let_def durable_rows_def fold_inserts bench_texts bench_effect_def del: upt_Suc)
qed

text \<open>The first two lines make the table, or empty the one of an earlier run.\<close>

lemma bench_queries_lines:
  assumes b: "db ''bench'' = None \<or> (\<exists>R. db ''bench'' = Some (bench_cols, R))" and n: "n \<le> 2 ^ 30"
  shows "lines_ok db (bench_queries n)" and "plain_lines db (bench_queries n)"
    and "fold (\<lambda>t db. line_next db t) (bench_queries n) db = db(''bench'' \<mapsto> (bench_cols, durable_rows n))"
proof -
  let ?create = "''CREATE TABLE bench (id INTEGER, val INTEGER);''" and ?delete = "''DELETE FROM bench;''"
  have "\<exists>R. line_next db ?create = db(''bench'' \<mapsto> (bench_cols, R))"
    using b map_upd_triv [of db "''bench''"] by (cases "db ''bench''") (auto simp: line_next_def bench_texts intro: sym)
  then obtain R where 1: "line_next db ?create = db(''bench'' \<mapsto> (bench_cols, R))" by blast
  have "row_hit cols [] val = (\<lambda>_. True)" for cols val by (simp add: row_hit_def fun_eq_iff)
  then have 2: "line_next (line_next db ?create) ?delete = db(''bench'' \<mapsto> (bench_cols, {#}))"
    by (simp add: line_next_def [of _ ?delete] 1 bench_texts)
  have "bench_rows {#} (line_next (line_next db ?create) ?delete)" by (simp add: 2 bench_rows_def)
  note rest = bench_lines [OF bench_rest_lines(1) [OF n] this, unfolded bench_rest_lines(2) [OF n]]
  have "char_of (39 :: nat) = CHR 0x27" by code_simp
  then have q: "quoted s = CHR 0x27 # s @ [CHR 0x27]" for s by (simp add: quoted_def)
  have "line_ok db ?create" "line_ok (line_next db ?create) ?delete"
    using bench_texts(2) by (simp_all add: line_ok_def bench_texts bench_line_def)
  with rest(1) show "lines_ok db (bench_queries n)" by (simp add: bench_queries_split)
  have "plain_reply r" if "line_step db ?create r db'" for r db'
    using that by (auto simp: bench_texts q intro!: plain_FormatResult elim!: line_step.cases db_step.cases)
  moreover have "plain_reply r" if "line_step (line_next db ?create) ?delete r db'" for r db'
    using that plain_to_string by (auto simp: 1 bench_texts intro!: plain_FormatResult elim!: line_step.cases db_step.cases)
  ultimately show "plain_lines db (bench_queries n)" using rest(2) by (simp add: bench_queries_split)
  show "fold (\<lambda>t db. line_next db t) (bench_queries n) db = db(''bench'' \<mapsto> (bench_cols, durable_rows n))"
    using rest(3) by (simp add: bench_queries_split 2)
qed

lemma length_bench_queries: "length (bench_queries n) = n + 3 * max 10 (n div 10) + 6"
  by (simp add: bench_queries_def Let_def length_concat comp_def sum_list_triv)

end
