(* ===== verification/Doubles.thy ===== *)
theory Doubles
  imports Complex_Main Value_Types
begin

section \<open>Double-precision numbers and their decimal texts\<close>

text \<open>
  \<^verbatim>\<open>double\<close> as the benchmark uses it: IEEE 754 binary64 under round-to-nearest-even. A number is its sign and its
  magnitude, an exact fraction; an operation rounds the exact result. \<open>fixed\<close> is what a stream writes
  with \<^verbatim>\<open>std::fixed\<close> and a precision: the exact value rounded to that many decimals.
\<close>

datatype double = Fin (negative: bool) (magnitude: rat) | Infinite bool | NaN

definition round_even :: "rat \<Rightarrow> int" where
  "round_even r = (let n = \<lfloor>r\<rfloor>; d = r - of_int n in if d < 1 / 2 \<or> d = 1 / 2 \<and> even n then n else n + 1)"

text \<open>The number of bits of an integer, the exponent of a positive fraction, and the distance of the doubles around it.\<close>

function bits :: "int \<Rightarrow> int" where
  "bits p = (if p \<le> 0 then 0 else bits (p div 2) + 1)"
  by pat_completeness auto
termination
  by (relation "measure nat") auto

declare bits.simps [simp del]

definition binade :: "rat \<Rightarrow> int" where
  "binade r = (let (p, q) = quotient_of r; e = bits p - bits q in
     if 2 powi e \<le> r then e else e - 1)"

definition ulp :: "rat \<Rightarrow> rat" where
  "ulp r = 2 powi (max (binade r) (- 1022) - 52)"

definition to_double :: "bool \<Rightarrow> rat \<Rightarrow> double" where
  "to_double s r = (if r = 0 then Fin s 0
     else let v = of_int (round_even (r / ulp r)) * ulp r in if 2 ^ 1024 \<le> v then Infinite s else Fin s v)"

definition double_of_int :: "int \<Rightarrow> double" where
  "double_of_int i = to_double (i < 0) (of_int \<bar>i\<bar>)"

fun double_div :: "double \<Rightarrow> double \<Rightarrow> double" where
  "double_div (Fin s x) (Fin t y) = (if y = 0 then (if x = 0 then NaN else Infinite (s \<noteq> t)) else to_double (s \<noteq> t) (x / y))"
| "double_div (Infinite s) (Fin t y) = Infinite (s \<noteq> t)"
| "double_div (Fin s x) (Infinite t) = Fin (s \<noteq> t) 0"
| "double_div _ _ = NaN"

text \<open>\<open>m\<close> units of the \<open>p\<close>-th decimal.\<close>

definition decimal :: "nat \<Rightarrow> nat \<Rightarrow> string" where
  "decimal p m = (let t = show_nat (m mod 10 ^ p) in
     show_nat (m div 10 ^ p) @ (if p = 0 then [] else ''.'' @ replicate (p - length t) CHR ''0'' @ t))"

text \<open>The sign of a NaN is the processor's choice, so its text is a parameter.\<close>

fun fixed :: "string \<Rightarrow> nat \<Rightarrow> double \<Rightarrow> string" where
  "fixed nan p (Fin s r) = (if s then ''-'' else []) @ decimal p (nat (round_even (r * 10 ^ p)))"
| "fixed nan p (Infinite s) = (if s then ''-inf'' else ''inf'')"
| "fixed nan p NaN = nan"

subsection \<open>Rounding is accurate\<close>

lemma round_even_near: "\<bar>of_int (round_even r) - r\<bar> \<le> 1 / 2"
proof -
  have "of_int \<lfloor>r\<rfloor> \<le> r" "r < of_int \<lfloor>r\<rfloor> + 1" by linarith+
  then show ?thesis by (auto simp: round_even_def Let_def abs_le_iff)
qed

lemma round_even_nonneg: "0 \<le> r \<Longrightarrow> 0 \<le> round_even r"
  by (simp add: round_even_def Let_def)

lemma round_even_int [simp]: "round_even (of_int n) = n"
  by (simp add: round_even_def)

lemma bits_bounds: "0 < p \<Longrightarrow> 2 powi (bits p - 1) \<le> (of_int p :: rat) \<and> (of_int p :: rat) < 2 powi bits p \<and> 0 < bits p"
proof (induction p rule: bits.induct)
  case (1 p)
  show ?case
  proof (cases "p = 1")
    case True
    then have "bits p = 1" by (subst bits.simps, subst bits.simps) simp
    with True show ?thesis by simp
  next
    case False
    with 1(2) have "0 < p div 2" by auto
    with 1 have ih: "2 powi (bits (p div 2) - 1) \<le> (of_int (p div 2) :: rat)"
      "(of_int (p div 2) :: rat) < 2 powi bits (p div 2)" "0 < bits (p div 2)" by simp_all
    have b: "bits p = bits (p div 2) + 1" using 1(2) by (subst bits.simps) simp
    have s: "2 powi (n + 1) = 2 * (2 powi n :: rat)" for n by (simp add: power_int_add)
    have w: "2 powi bits (p div 2) = (of_int (2 ^ nat (bits (p div 2))) :: rat)" using ih(3) by (simp add: power_int_def)
    with ih(2) have "p div 2 < 2 ^ nat (bits (p div 2))" by (simp only: of_int_less_iff)
    then have "p div 2 + 1 \<le> 2 ^ nat (bits (p div 2))" by simp
    then have h: "of_int (p div 2 + 1) \<le> (2 powi bits (p div 2) :: rat)" unfolding w of_int_le_iff .
    have "2 * (p div 2) \<le> p" "p < 2 * (p div 2 + 1)" by presburger+
    then have "of_int (2 * (p div 2)) \<le> (of_int p :: rat)" "(of_int p :: rat) < of_int (2 * (p div 2 + 1))"
      unfolding of_int_le_iff of_int_less_iff by blast+
    moreover have "2 powi bits (p div 2) = 2 * (2 powi (bits (p div 2) - 1) :: rat)" using s [of "bits (p div 2) - 1"] by simp
    moreover have "2 powi (bits (p div 2) + 1) = 2 * (2 powi bits (p div 2) :: rat)" by (rule s)
    ultimately show ?thesis using ih h unfolding b by simp
  qed
qed

lemma binade_bounds:
  assumes "0 < r"
  shows "2 powi binade r \<le> r" and "r < 2 powi (binade r + 1)"
proof -
  obtain p q where pq: "quotient_of r = (p, q)" by (cases "quotient_of r")
  then have q: "0 < q" and r: "r = of_int p / of_int q" by (simp_all add: quotient_of_denom_pos quotient_of_div)
  then have p: "0 < p" using assms by (simp add: zero_less_divide_iff)
  define a b where "a = bits p" and "b = bits q"
  note P = bits_bounds [OF p, folded a_def] and Q = bits_bounds [OF q, folded b_def]
  have qq: "0 < (of_int q :: rat)" using q by simp
  have lo: "2 powi (a - b - 1) < r"
  proof -
    have "2 powi (a - b - 1) * of_int q < 2 powi (a - b - 1) * (2 powi b :: rat)"
      using Q by (intro mult_strict_left_mono) simp_all
    also have "\<dots> = 2 powi (a - 1)"
      using power_int_add [of "2 :: rat" "a - b - 1" "b"] by (simp del: power_int_of_nat)
    also have "\<dots> \<le> of_int p" using P by blast
    finally show ?thesis unfolding r using qq by (simp add: pos_less_divide_eq)
  qed
  have hi: "r < 2 powi (a - b + 1)"
  proof -
    have "of_int p < (2 powi a :: rat)" using P by blast
    also have "\<dots> = 2 powi (a - b + 1) * 2 powi (b - 1)"
      using power_int_add [of "2 :: rat" "a - b + 1" "b - 1"] by (simp del: power_int_of_nat)
    also have "\<dots> \<le> 2 powi (a - b + 1) * of_int q" using Q by (intro mult_left_mono) simp_all
    finally show ?thesis unfolding r using qq by (simp add: pos_divide_less_eq)
  qed
  have bin: "binade r = (if 2 powi (a - b) \<le> r then a - b else a - b - 1)"
    by (simp add: binade_def pq a_def b_def)
  show "2 powi binade r \<le> r" "r < 2 powi (binade r + 1)" using bin lo hi by auto
qed


lemma ulp_pos: "0 < ulp r"
  by (simp add: ulp_def)

text \<open>Far from the limits of the format, rounding is exact to one part in \<^verbatim>\<open>2^53\<close>.\<close>

definition ordinary :: "rat \<Rightarrow> bool" where
  "ordinary r \<longleftrightarrow> 1 / 2 ^ 1000 \<le> r \<and> r \<le> 2 ^ 1000"

lemma to_double_near:
  assumes "ordinary r"
  shows "\<exists>v. to_double s r = Fin s v \<and> \<bar>v - r\<bar> \<le> r / 2 ^ 53"
proof -
  have r: "0 < r" using assms by (simp add: ordinary_def less_le_trans [of 0 "1 / 2 ^ 1000"])
  let ?u = "ulp r" and ?v = "of_int (round_even (r / ulp r)) * ulp r"
  have "2 powi (- 1000) \<le> r" using assms by (simp add: ordinary_def power_int_minus field_simps)
  with binade_bounds(2) [OF r] have "2 powi (- 1000) < (2 powi (binade r + 1) :: rat)" by simp
  then have "\<not> binade r + 1 \<le> - 1000" using power_int_increasing [of "binade r + 1" "- 1000" "2 :: rat"] by linarith
  then have "?u = 2 powi (binade r - 52)" by (simp add: ulp_def)
  also have "\<dots> = 2 powi binade r / 2 ^ 52" by (simp add: power_int_diff)
  also have "\<dots> \<le> r / 2 ^ 52" using binade_bounds(1) [OF r] by (intro divide_right_mono) simp_all
  finally have u: "?u \<le> r / 2 ^ 52" .
  have "?v - r = (of_int (round_even (r / ?u)) - r / ?u) * ?u" using ulp_pos [of r] by (simp add: field_simps)
  then have "\<bar>?v - r\<bar> = \<bar>of_int (round_even (r / ?u)) - r / ?u\<bar> * ?u" using ulp_pos [of r] by (simp add: abs_mult)
  also have "\<dots> \<le> 1 / 2 * ?u" using round_even_near ulp_pos [of r] by (intro mult_right_mono) simp_all
  finally have n: "\<bar>?v - r\<bar> \<le> r / 2 ^ 53" using u by simp
  have "?v \<le> r + r / 2 ^ 53" using n by linarith
  also have "\<dots> \<le> 2 * r" using r by simp
  also have "\<dots> \<le> 2 * 2 ^ 1000" using assms by (simp add: ordinary_def)
  also have "\<dots> < 2 ^ 1024" by simp
  finally have "\<not> 2 ^ 1024 \<le> ?v" by simp
  then have "to_double s r = Fin s ?v" using r by (simp add: to_double_def Let_def)
  with n show ?thesis by blast
qed

subsection \<open>Chains of divisions\<close>

text \<open>\<open>near k t d\<close>: the double \<open>d\<close> differs from the exact \<open>t\<close> by at most \<open>k\<close> parts in \<^verbatim>\<open>2^53\<close>. A division adds two parts
  to those of its operands.\<close>

definition near :: "nat \<Rightarrow> rat \<Rightarrow> double \<Rightarrow> bool" where
  "near k t d \<longleftrightarrow> (\<exists>v. d = Fin False v \<and> 0 \<le> v \<and> \<bar>v - t\<bar> \<le> t * (of_nat k / 2 ^ 53))"

lemma near_int:
  assumes "0 < i" and "i < 2 ^ 64"
  shows "near 1 (of_int i) (double_of_int i)"
proof -
  have "(of_int i :: rat) \<le> of_int (2 ^ 64)" using assms(2) unfolding of_int_le_iff by simp
  moreover have "(1 :: rat) \<le> of_int i" using assms(1) by simp
  moreover have "1 / 2 ^ 1000 \<le> (1 :: rat)" by simp
  ultimately have "ordinary (of_int i)" unfolding ordinary_def by simp
  from to_double_near [OF this, of False] obtain v where
    v: "to_double False (of_int i) = Fin False v" "\<bar>v - of_int i\<bar> \<le> of_int i / 2 ^ 53" by blast
  have "(of_int i :: rat) / 2 ^ 53 \<le> of_int i" using assms(1) by simp
  with v(2) have "0 \<le> v" by linarith
  with v assms(1) show ?thesis by (simp add: near_def double_of_int_def)
qed

lemma quotient_near:
  fixes x y X Y a b :: rat
  assumes x: "\<bar>x - X\<bar> \<le> X * a" and y: "\<bar>y - Y\<bar> \<le> Y * b" and X: "0 < X" and Y: "0 < Y"
    and b: "b < 1" and c: "a + b \<le> c * (1 - b)"
  shows "0 < y" and "\<bar>x / y - X / Y\<bar> \<le> X / Y * c"
proof -
  have lo: "Y * (1 - b) \<le> y" using y by (simp add: abs_le_iff algebra_simps)
  moreover have "0 < Y * (1 - b)" using Y b by simp
  ultimately show y0: "0 < y" by linarith
  have c0: "0 \<le> c"
  proof (rule ccontr)
    assume "\<not> 0 \<le> c"
    then have "c * (1 - b) < 0" using b by (simp add: mult_neg_pos)
    moreover have "0 \<le> X * a" "0 \<le> Y * b" using order_trans [OF abs_ge_zero x] order_trans [OF abs_ge_zero y] by simp_all
    then have "0 \<le> a" "0 \<le> b" using X Y by (simp_all add: zero_le_mult_iff)
    ultimately show False using c by linarith
  qed
  have "\<bar>x * Y - X * y\<bar> = \<bar>(x - X) * Y - X * (y - Y)\<bar>" by (simp add: algebra_simps)
  also have "\<dots> \<le> \<bar>(x - X) * Y\<bar> + \<bar>X * (y - Y)\<bar>" by (rule abs_triangle_ineq4)
  also have "\<dots> = \<bar>x - X\<bar> * Y + X * \<bar>y - Y\<bar>" using X Y by (simp add: abs_mult)
  also have "\<dots> \<le> (X * a) * Y + X * (Y * b)" using x y X Y by (intro add_mono mult_right_mono mult_left_mono) simp_all
  also have "\<dots> = X * Y * (a + b)" by (simp add: algebra_simps)
  also have "\<dots> \<le> X * Y * (c * (1 - b))" using c X Y by (intro mult_left_mono) simp_all
  also have "\<dots> = X * c * (Y * (1 - b))" by simp
  also have "\<dots> \<le> X * c * y" using lo X c0 by (intro mult_left_mono) simp_all
  finally have n: "\<bar>x * Y - X * y\<bar> \<le> X * c * y" .
  have "x / y - X / Y = (x * Y - X * y) / (y * Y)" using y0 Y by (simp add: field_simps)
  then have "\<bar>x / y - X / Y\<bar> = \<bar>x * Y - X * y\<bar> / (y * Y)" using y0 Y by (simp add: abs_mult)
  also have "\<dots> \<le> (X * c * y) / (y * Y)" using n y0 Y by (intro divide_right_mono) simp_all
  also have "\<dots> = X / Y * c" using y0 by simp
  finally show "\<bar>x / y - X / Y\<bar> \<le> X / Y * c" .
qed

lemma near_div:
  assumes "near j X x" and "near k Y y" and "0 < X" and "0 < Y" and jk: "j + k \<le> 100"
    and q: "1 / 2 ^ 900 \<le> X / Y" "X / Y \<le> 2 ^ 900"
  shows "near (j + k + 2) (X / Y) (double_div x y)"
proof -
  from assms(1,2) obtain v w where v: "x = Fin False v" "\<bar>v - X\<bar> \<le> X * (of_nat j / 2 ^ 53)"
    and w: "y = Fin False w" "\<bar>w - Y\<bar> \<le> Y * (of_nat k / 2 ^ 53)" by (auto simp: near_def)
  define a b where "a = (of_nat j :: rat)" and "b = (of_nat k :: rat)"
  have ab: "0 \<le> a" "0 \<le> b" "a + b \<le> 100" using jk by (simp_all add: a_def b_def flip: of_nat_add)
  have "b * (a + b + 1 / 2) \<le> 100 * (100 + 1 / 2)" using ab by (intro mult_mono) simp_all
  then have c: "a / 2 ^ 53 + b / 2 ^ 53 \<le> ((a + b + 1 / 2) / 2 ^ 53) * (1 - b / 2 ^ 53)"
    by (simp add: field_simps)
  have b1: "b / 2 ^ 53 < 1" using ab by simp
  note qn = quotient_near [OF v(2) w(2) assms(3,4) b1 [unfolded b_def] c [unfolded a_def b_def], folded a_def b_def]
  have XY: "0 < X / Y" using assms(3,4) by simp
  have small: "(a + b + 1 / 2) / 2 ^ 53 \<le> 1 / 2" using ab by simp
  have "X / Y * ((a + b + 1 / 2) / 2 ^ 53) \<le> X / Y * (1 / 2)" using XY small by (intro mult_left_mono) simp_all
  then have half: "\<bar>v / w - X / Y\<bar> \<le> X / Y / 2" using qn(2) by simp
  then have vw: "X / Y / 2 \<le> v / w" "v / w \<le> X / Y * (3 / 2)" by (simp_all add: abs_le_iff)
  have "1 / 2 ^ 1000 \<le> (1 / 2 ^ 900 / 2 :: rat)" by simp
  also have "\<dots> \<le> X / Y / 2" using q(1) by (intro divide_right_mono) simp_all
  also have "\<dots> \<le> v / w" by (rule vw(1))
  finally have o: "1 / 2 ^ 1000 \<le> v / w" .
  have "v / w \<le> X / Y * (3 / 2)" by (rule vw(2))
  also have "\<dots> \<le> 2 ^ 900 * (3 / 2)" using q(2) by (intro mult_right_mono) simp_all
  also have "\<dots> \<le> 2 ^ 1000" by simp
  finally have "ordinary (v / w)" using o unfolding ordinary_def by blast
  from to_double_near [OF this, of False] obtain z where
    z: "to_double False (v / w) = Fin False z" "\<bar>z - v / w\<bar> \<le> v / w / 2 ^ 53" by blast
  have "v / w / 2 ^ 53 \<le> X / Y * (3 / 2) / 2 ^ 53" using vw(2) by (intro divide_right_mono) simp_all
  then have "\<bar>z - X / Y\<bar> \<le> X / Y * ((a + b + 1 / 2) / 2 ^ 53) + X / Y * (3 / 2) / 2 ^ 53"
    using z(2) qn(2) by linarith
  also have "\<dots> = X / Y * (of_nat (j + k + 2) / 2 ^ 53)" by (simp add: a_def b_def algebra_simps add_divide_distrib)
  moreover have "0 \<le> z"
  proof -
    have "0 \<le> X / Y / 2" using assms(3,4) by simp
    then have "0 \<le> v / w" using vw(1) by (rule order_trans)
    moreover have "v / w / 2 ^ 53 \<le> v / w" using \<open>0 \<le> v / w\<close> by simp
    ultimately show ?thesis using z(2) by linarith
  qed
  ultimately show ?thesis using z(1) qn(1) v(1) w(1) by (simp add: near_def)
qed

lemma fixed_near:
  assumes "near k t d"
  shows "\<exists>m. fixed nan p d = decimal p m \<and> \<bar>of_nat m - t * 10 ^ p\<bar> \<le> 1 / 2 + t * 10 ^ p * (of_nat k / 2 ^ 53)"
proof -
  from assms obtain v where v: "d = Fin False v" "0 \<le> v" "\<bar>v - t\<bar> \<le> t * (of_nat k / 2 ^ 53)" by (auto simp: near_def)
  let ?r = "round_even (v * 10 ^ p)"
  from v(2) have r: "(of_nat (nat ?r) :: rat) = of_int ?r" using round_even_nonneg [of "v * 10 ^ p"] by simp
  have "\<bar>v * 10 ^ p - t * 10 ^ p\<bar> = \<bar>v - t\<bar> * 10 ^ p" by (simp add: abs_mult flip: left_diff_distrib)
  also have "\<dots> \<le> t * (of_nat k / 2 ^ 53) * 10 ^ p" using v(3) by (intro mult_right_mono) simp_all
  also have "\<dots> = t * 10 ^ p * (of_nat k / 2 ^ 53)" by simp
  finally have "\<bar>of_int ?r - t * 10 ^ p\<bar> \<le> 1 / 2 + t * 10 ^ p * (of_nat k / 2 ^ 53)"
    using round_even_near [of "v * 10 ^ p"] by linarith
  with v(1) r show ?thesis by (intro exI [of _ "nat ?r"]) simp
qed

text \<open>A decimal text determines its number, and its width is that of its digits.\<close>

lemma digits_value_append: "digits_value (ds @ es) = digits_value ds * 10 ^ length es + digits_value es"
proof (induction es rule: rev_induct)
  case (snoc c es)
  then show ?case by (simp flip: append_assoc add: algebra_simps)
qed (simp add: digits_value_def)

lemma digits_value_zeros: "digits_value (replicate n CHR ''0'' @ ds) = digits_value ds"
proof (induction n)
  case (Suc n)
  have "digits_value [CHR ''0''] = 0" by (simp add: digits_value_def char_code_def)
  with Suc digits_value_append [of "[CHR ''0'']" "replicate n CHR ''0'' @ ds"] show ?case by simp
qed simp

lemma decimal_fraction:
  assumes "0 < p"
  shows "length (show_nat (m mod 10 ^ p)) \<le> p"
  using assms show_nat_length [of "m mod 10 ^ p" "p - 1"] by simp

lemma decimal_value: "digits_value (filter is_digit (decimal p m)) = m"
proof -
  have f: "filter is_digit (show_nat n) = show_nat n" for n using show_nat_digits [of n] by (simp add: filter_id_conv)
  have d: "is_digit CHR ''0''" "\<not> is_digit CHR ''.''" by (simp_all add: is_digit_def char_code_def)
  show ?thesis
  proof (cases "p = 0")
    case False
    let ?t = "show_nat (m mod 10 ^ p)"
    have "filter is_digit (decimal p m) = show_nat (m div 10 ^ p) @ replicate (p - length ?t) CHR ''0'' @ ?t"
      using False by (simp add: decimal_def Let_def f d)
    moreover have "length (replicate (p - length ?t) CHR ''0'' @ ?t) = p" using decimal_fraction [of p m] False by simp
    then have "digits_value (ds @ replicate (p - length ?t) CHR ''0'' @ ?t) = digits_value ds * 10 ^ p + m mod 10 ^ p" for ds
      by (simp only: digits_value_append [of ds] digits_value_zeros digits_value_show_nat)
    ultimately show ?thesis using div_mult_mod_eq [of m "10 ^ p"] by simp
  qed (simp add: decimal_def f Let_def)
qed

lemma decimal_width:
  assumes "m < 10 ^ (p + Suc k)"
  shows "length (decimal p m) \<le> Suc k + (if p = 0 then 0 else Suc p)"
proof -
  have "m < 10 ^ Suc k * 10 ^ p" using assms by (simp add: power_add mult_ac)
  then have "m div 10 ^ p < 10 ^ Suc k" by (rule less_mult_imp_div_less)
  from show_nat_length [OF this] decimal_fraction [of p m] show ?thesis by (cases "p = 0") (simp_all add: decimal_def Let_def)
qed

end
