(* ===== verification/Bench_Report.thy ===== *)
theory Bench_Report
  imports Bench_Run Doubles
begin

section \<open>What the benchmark prints (tools/bench.cpp)\<close>

text \<open>
  The report as text: stream widths are padding, numbers are \<^verbatim>\<open>double\<close> quotients written with a fixed number of
  decimals. The clock is a parameter: the record \<open>Timings\<close> holds the four measured differences, in
  nanoseconds, and \<open>nan\<close> is the text of a quotient of two zeros.
\<close>

record Timings =
  insert_ns :: int
  commit_ns :: int
  select_ns :: int
  durable_ns :: int

definition setw_left :: "nat \<Rightarrow> string \<Rightarrow> string" where
  "setw_left w s = s @ replicate (w - length s) CHR '' ''"

definition setw_right :: "nat \<Rightarrow> string \<Rightarrow> string" where
  "setw_right w s = replicate (w - length s) CHR '' '' @ s"

text \<open>\<^verbatim>\<open>Ms(d).count()\<close>.\<close>

definition Ms_count :: "int \<Rightarrow> double" where
  "Ms_count ns = double_div (double_of_int ns) (double_of_int 1000000)"

definition print_row :: "string \<Rightarrow> string \<Rightarrow> double \<Rightarrow> int \<Rightarrow> string" where
  "print_row nan label ms ops = (
     let ops_sec = double_div (double_of_int ops) (double_div ms (double_of_int 1000));
         lat_ms = double_div ms (double_of_int ops) in
     setw_left 36 label @ setw_right 10 (fixed nan 0 ops_sec) @ '' ops/sec'' @
     setw_right 12 (fixed nan 3 lat_ms) @ '' ms/op'' @ newline)"

definition separator :: string where
  "separator = replicate 60 CHR ''-'' @ newline"

text \<open>The counts of selections and of durable insertions.\<close>

definition bench_S :: "int \<Rightarrow> int" where
  "bench_S n = max 10 (n div 10)"

definition bench_D :: "int \<Rightarrow> int" where
  "bench_D n = max 10 (n div 10)"

definition bench_head :: "string \<Rightarrow> int \<Rightarrow> int \<Rightarrow> string" where
  "bench_head host port n = newline @ ''=== pragmaticDB Benchmark ==='' @ newline @
     ''Server : '' @ host @ '':'' @ to_string port @ newline @
     ''N      : '' @ to_string n @ '' inserts, '' @ to_string (bench_S n) @ '' selects, '' @
     to_string (bench_D n) @ '' durable inserts'' @ newline @ newline"

definition report_head :: string where
  "report_head = separator @
     setw_left 36 ''Metric'' @ setw_right 18 ''Throughput'' @ setw_right 16 (''Latency'' @ newline) @
     separator"

definition speedup :: "int \<Rightarrow> Timings \<Rightarrow> double" where
  "speedup n t = double_div (double_div (Ms_count (durable_ns t)) (double_of_int (bench_D n)))
     (double_div (Ms_count (insert_ns t)) (double_of_int n))"

definition bench_report :: "string \<Rightarrow> int \<Rightarrow> Timings \<Rightarrow> string" where
  "bench_report nan n t = report_head @
     print_row nan ''INSERT (in-memory, no COMMIT)'' (Ms_count (insert_ns t)) n @
     print_row nan ''INSERT (durable, COMMIT each)'' (Ms_count (durable_ns t)) (bench_D n) @
     print_row nan (''SELECT * ('' @ to_string n @ '' rows/scan)'') (Ms_count (select_ns t)) (bench_S n) @
     separator @
     ''COMMIT latency ('' @ to_string n @ '' dirty pages): '' @ fixed nan 2 (Ms_count (commit_ns t)) @ '' ms'' @ newline @
     ''In-memory vs durable speedup: '' @ fixed nan 1 (speedup n t) @ ''x'' @ newline @
     separator"

text \<open>
  The program with its output: \<open>bench_main\<close> is the run, the heading comes before the connection is made, and the
  report after a run that is not cut short.
\<close>

definition bench_host :: "string list \<Rightarrow> string" where
  "bench_host argv = (if 1 < length argv then argv ! 1 else ''127.0.0.1'')"

definition bench_program :: "string \<Rightarrow> Timings \<Rightarrow> string list \<Rightarrow> int \<Rightarrow> int \<Rightarrow> (string \<Rightarrow> string list) \<Rightarrow> Catalog \<Rightarrow>
    (string \<times> client_end \<times> Catalog) option" where
  "bench_program nan t argv sock conn deliver c = do {
     (e, rs, c') \<leftarrow> bench_main argv sock conn deliver c;
     Some (case bench_args argv of
       Inl _ \<Rightarrow> []
     | Inr (port, n) \<Rightarrow> bench_head (bench_host argv) port n @
         (if e = Exit_status 0 then bench_report nan n t else []), e, c') }"

subsection \<open>The printed numbers are right\<close>

definition timing_ok :: "int \<Rightarrow> bool" where
  "timing_ok ns \<longleftrightarrow> 0 < ns \<and> ns < 2 ^ 60"

definition count_ok :: "int \<Rightarrow> bool" where
  "count_ok n \<longleftrightarrow> 0 < n \<and> n < 2 ^ 31"

text \<open>A shown number, as a count of its last decimal, is off by half of one, and by \<open>k\<close> parts in \<^verbatim>\<open>2^53\<close> of rounding.\<close>

definition shows_number :: "nat \<Rightarrow> nat \<Rightarrow> nat \<Rightarrow> rat \<Rightarrow> bool" where
  "shows_number k p m t \<longleftrightarrow> \<bar>of_nat m - t * 10 ^ p\<bar> \<le> 1 / 2 + t * 10 ^ p * (of_nat k / 2 ^ 53)"

definition row_text :: "string \<Rightarrow> nat \<Rightarrow> nat \<Rightarrow> string" where
  "row_text label rate lat = setw_left 36 label @ setw_right 10 (decimal 0 rate) @ '' ops/sec'' @
     setw_right 12 (decimal 3 lat) @ '' ms/op'' @ newline"

text \<open>Quotients of numbers of moderate size are far from the limits of a \<^verbatim>\<open>double\<close>.\<close>

definition moderate :: "nat \<Rightarrow> rat \<Rightarrow> bool" where
  "moderate k x \<longleftrightarrow> 1 / 2 ^ k \<le> x \<and> x \<le> 2 ^ k"

lemma moderate_pos: "moderate k x \<Longrightarrow> 0 < x"
  by (auto simp: moderate_def intro: less_le_trans [of 0 "1 / 2 ^ k"])

lemma moderate_mono: "moderate j x \<Longrightarrow> j \<le> k \<Longrightarrow> moderate k x"
proof -
  assume m: "moderate j x" and "j \<le> k"
  then have "(2 :: rat) ^ j \<le> 2 ^ k" by (intro power_increasing) simp_all
  moreover from this have "1 / (2 :: rat) ^ k \<le> 1 / 2 ^ j" by (intro divide_left_mono) simp_all
  ultimately show ?thesis using m unfolding moderate_def by linarith
qed

lemma moderate_int:
  assumes "0 < i" and "i < 2 ^ 64"
  shows "moderate 64 (of_int i)"
proof -
  have "(of_int i :: rat) \<le> of_int (2 ^ 64)" using assms(2) unfolding of_int_le_iff by simp
  moreover have "(1 :: rat) \<le> of_int i" using assms(1) by simp
  moreover have "1 / 2 ^ 64 \<le> (1 :: rat)" by simp
  ultimately show ?thesis unfolding moderate_def by simp
qed

lemma moderate_div:
  assumes "moderate j x" and "moderate k y"
  shows "moderate (j + k) (x / y)"
proof -
  note p = moderate_pos [OF assms(1)] moderate_pos [OF assms(2)]
  have "1 / 2 ^ (j + k) = 1 / 2 ^ j / (2 :: rat) ^ k" by (simp add: power_add)
  also have "\<dots> \<le> x / y" using assms p unfolding moderate_def by (intro frac_le) simp_all
  finally have "1 / 2 ^ (j + k) \<le> x / y" .
  moreover have "x / y \<le> 2 ^ j / (1 / 2 ^ k)" using assms p unfolding moderate_def by (intro frac_le) simp_all
  then have "x / y \<le> 2 ^ (j + k)" by (simp add: power_add)
  ultimately show ?thesis by (simp add: moderate_def)
qed

definition tracks :: "nat \<Rightarrow> nat \<Rightarrow> rat \<Rightarrow> double \<Rightarrow> bool" where
  "tracks k s t d \<longleftrightarrow> near k t d \<and> moderate s t"

lemma tracks_int: "0 < i \<Longrightarrow> i < 2 ^ 64 \<Longrightarrow> tracks 1 64 (of_int i) (double_of_int i)"
  unfolding tracks_def using near_int moderate_int by blast

lemma tracks_div:
  assumes "tracks j a X x" and "tracks k b Y y" and "j + k \<le> 100" and "a + b \<le> 900"
    and l: "l = j + k + 2" "c = a + b"
  shows "tracks l c (X / Y) (double_div x y)"
proof -
  from assms(1,2) have n: "near j X x" "near k Y y" and m: "moderate a X" "moderate b Y" by (simp_all add: tracks_def)
  note d = moderate_div [OF m]
  from moderate_mono [OF d assms(4)] have "1 / 2 ^ 900 \<le> X / Y" "X / Y \<le> 2 ^ 900" by (simp_all add: moderate_def)
  from near_div [OF n moderate_pos [OF m(1)] moderate_pos [OF m(2)] assms(3) this] d show ?thesis unfolding tracks_def l by blast
qed

lemma tracks_shown:
  assumes "tracks k s t d"
  shows "\<exists>m. fixed nan p d = decimal p m \<and> shows_number k p m t"
  using fixed_near [of k t d nan p] assms by (simp add: tracks_def shows_number_def)

lemma tracks_pos:
  assumes "tracks k s t d" and "k \<le> 100"
  shows "\<exists>v. d = Fin False v \<and> 0 < v"
proof -
  from assms(1) obtain v where v: "d = Fin False v" "\<bar>v - t\<bar> \<le> t * (of_nat k / 2 ^ 53)" and t: "0 < t"
    by (auto simp: tracks_def near_def moderate_pos)
  have "(of_nat k :: rat) / 2 ^ 53 < 1" using assms(2) by simp
  then have "t * (of_nat k / 2 ^ 53) < t * 1" using t by (intro mult_strict_left_mono) simp_all
  with v(2) have "0 < v" by linarith
  with v(1) show ?thesis by blast
qed

lemma tracks_const: "tracks 1 64 1000 (double_of_int 1000)" "tracks 1 64 1000000 (double_of_int 1000000)"
  using tracks_int [of 1000] tracks_int [of 1000000] by simp_all

lemma tracks_Ms: "timing_ok ns \<Longrightarrow> tracks 4 128 (of_int ns / 1000000) (Ms_count ns)"
  unfolding Ms_count_def timing_ok_def by (rule tracks_div [OF tracks_int tracks_const(2)]) simp_all

lemma tracks_count: "count_ok n \<Longrightarrow> tracks 1 64 (of_int n) (double_of_int n)"
  by (rule tracks_int) (simp_all add: count_ok_def)

lemma print_row_shows:
  assumes "timing_ok ns" and "count_ok ops"
  shows "\<exists>rate lat. print_row nan label (Ms_count ns) ops = row_text label rate lat \<and>
    shows_number 10 0 rate (of_int ops / (of_int ns / 1000000 / 1000)) \<and>
    shows_number 7 3 lat (of_int ns / 1000000 / of_int ops)"
proof -
  note ms = tracks_Ms [OF assms(1)] and ops = tracks_count [OF assms(2)]
  have "tracks 7 192 (of_int ns / 1000000 / 1000) (double_div (Ms_count ns) (double_of_int 1000))"
    by (rule tracks_div [OF ms tracks_const(1)]) simp_all
  have "tracks 10 256 (of_int ops / (of_int ns / 1000000 / 1000))
      (double_div (double_of_int ops) (double_div (Ms_count ns) (double_of_int 1000)))"
    by (rule tracks_div [OF ops \<open>tracks 7 192 _ _\<close>]) simp_all
  from tracks_shown [OF this, of nan 0] obtain rate where r:
    "fixed nan 0 (double_div (double_of_int ops) (double_div (Ms_count ns) (double_of_int 1000))) = decimal 0 rate"
    "shows_number 10 0 rate (of_int ops / (of_int ns / 1000000 / 1000))" by blast
  have "tracks 7 192 (of_int ns / 1000000 / of_int ops) (double_div (Ms_count ns) (double_of_int ops))"
    by (rule tracks_div [OF ms ops]) simp_all
  from tracks_shown [OF this, of nan 3] obtain lat where l:
    "fixed nan 3 (double_div (Ms_count ns) (double_of_int ops)) = decimal 3 lat"
    "shows_number 7 3 lat (of_int ns / 1000000 / of_int ops)" by blast
  from r l show ?thesis unfolding print_row_def row_text_def by (intro exI [of _ rate] exI [of _ lat]) simp
qed

lemma speedup_shown:
  assumes "timing_ok (insert_ns t)" and "timing_ok (durable_ns t)" and "count_ok n"
  shows "\<exists>m. fixed nan p (speedup n t) = decimal p m \<and>
    shows_number 16 p m (of_int (durable_ns t) / 1000000 / of_int (bench_D n) / (of_int (insert_ns t) / 1000000 / of_int n))"
proof -
  have "count_ok (bench_D n)" using assms(3) by (auto simp: count_ok_def bench_D_def)
  note D = tracks_count [OF this]
  have d: "tracks 7 192 (of_int (durable_ns t) / 1000000 / of_int (bench_D n))
      (double_div (Ms_count (durable_ns t)) (double_of_int (bench_D n)))" by (rule tracks_div [OF tracks_Ms [OF assms(2)] D]) simp_all
  have i: "tracks 7 192 (of_int (insert_ns t) / 1000000 / of_int n) (double_div (Ms_count (insert_ns t)) (double_of_int n))"
    by (rule tracks_div [OF tracks_Ms [OF assms(1)] tracks_count [OF assms(3)]]) simp_all
  have "tracks 16 384
      (of_int (durable_ns t) / 1000000 / of_int (bench_D n) / (of_int (insert_ns t) / 1000000 / of_int n)) (speedup n t)"
    unfolding speedup_def by (rule tracks_div [OF d i]) simp_all
  from tracks_shown [OF this] show ?thesis .
qed

text \<open>The whole report of a run that inserted something and whose clock moved.\<close>

lemma bench_report_shows:
  assumes "count_ok n" and "timing_ok (insert_ns t)" and "timing_ok (commit_ns t)" and "timing_ok (select_ns t)"
    and "timing_ok (durable_ns t)"
  shows "\<exists>ri li rd ld rs ls com sp. bench_report nan n t = report_head @
      row_text ''INSERT (in-memory, no COMMIT)'' ri li @ row_text ''INSERT (durable, COMMIT each)'' rd ld @
      row_text (''SELECT * ('' @ to_string n @ '' rows/scan)'') rs ls @ separator @
      ''COMMIT latency ('' @ to_string n @ '' dirty pages): '' @ decimal 2 com @ '' ms'' @ newline @
      ''In-memory vs durable speedup: '' @ decimal 1 sp @ ''x'' @ newline @ separator \<and>
    shows_number 10 0 ri (of_int n / (of_int (insert_ns t) / 1000000 / 1000)) \<and>
    shows_number 7 3 li (of_int (insert_ns t) / 1000000 / of_int n) \<and>
    shows_number 10 0 rd (of_int (bench_D n) / (of_int (durable_ns t) / 1000000 / 1000)) \<and>
    shows_number 7 3 ld (of_int (durable_ns t) / 1000000 / of_int (bench_D n)) \<and>
    shows_number 10 0 rs (of_int (bench_S n) / (of_int (select_ns t) / 1000000 / 1000)) \<and>
    shows_number 7 3 ls (of_int (select_ns t) / 1000000 / of_int (bench_S n)) \<and>
    shows_number 4 2 com (of_int (commit_ns t) / 1000000) \<and>
    shows_number 16 1 sp (of_int (durable_ns t) / 1000000 / of_int (bench_D n) / (of_int (insert_ns t) / 1000000 / of_int n))"
proof -
  have SD: "count_ok (bench_D n)" "count_ok (bench_S n)" using assms(1) by (auto simp: count_ok_def bench_D_def bench_S_def)
  note rows = print_row_shows [OF assms(2,1), of nan] print_row_shows [OF assms(5) SD(1), of nan] print_row_shows [OF assms(4) SD(2), of nan]
  from rows(1) [of "''INSERT (in-memory, no COMMIT)''"] rows(2) [of "''INSERT (durable, COMMIT each)''"]
    rows(3) [of "''SELECT * ('' @ to_string n @ '' rows/scan)''"] tracks_shown [OF tracks_Ms [OF assms(3)], of nan 2]
    speedup_shown [OF assms(2,5,1), of nan 1]
  show ?thesis unfolding bench_report_def by (elim exE conjE) (intro exI conjI, (simp; fail), assumption+)
qed

text \<open>A run without insertions divides by their number.\<close>

lemma bench_report_no_inserts:
  assumes "timing_ok ns"
  shows "print_row nan label (Ms_count ns) 0 =
    setw_left 36 label @ ''         0 ops/sec         inf ms/op'' @ newline"
proof -
  note ms = tracks_Ms [OF assms]
  from tracks_pos [OF ms] obtain v where v: "Ms_count ns = Fin False v" "0 < v" by auto
  have "tracks 7 192 (of_int ns / 1000000 / 1000) (double_div (Ms_count ns) (double_of_int 1000))"
    by (rule tracks_div [OF ms tracks_const(1)]) simp_all
  from tracks_pos [OF this] obtain w where w: "double_div (Ms_count ns) (double_of_int 1000) = Fin False w" "0 < w" by auto
  have z: "double_of_int 0 = Fin False 0" "to_double False 0 = Fin False 0" by (simp_all add: double_of_int_def to_double_def)
  have "decimal 0 0 = ''0''" "replicate 9 CHR '' '' = ''         ''" by code_simp+
  with v w z round_even_int [of 0] show ?thesis by (simp add: print_row_def setw_right_def)
qed

subsection \<open>The columns\<close>

lemma row_text_width:
  assumes "length label \<le> 36" and "rate < 10 ^ 10" and "lat < 10 ^ 11"
  shows "\<exists>s. row_text label rate lat = s @ newline \<and> length s = 72 \<and> take 54 s = setw_left 36 label @ setw_right 10 (decimal 0 rate) @ '' ops/sec''"
proof -
  have "length (decimal 0 rate) \<le> 10" using decimal_width [of rate 0 9] assms(2) by simp
  moreover have "length (decimal 3 lat) \<le> 12" using decimal_width [of lat 3 7] assms(3) by simp
  ultimately show ?thesis using assms(1)
    by (intro exI [of _ "setw_left 36 label @ setw_right 10 (decimal 0 rate) @ '' ops/sec'' @ setw_right 12 (decimal 3 lat) @ '' ms/op''"])
      (simp add: row_text_def setw_left_def setw_right_def)
qed

lemma report_head_text:
  "report_head = separator @ setw_left 36 ''Metric'' @ replicate 8 CHR '' '' @ ''Throughput'' @ replicate 8 CHR '' '' @ ''Latency'' @ newline @ separator"
  by (simp add: report_head_def setw_right_def newline_def)

text \<open>A whole program run: what is printed, after the run that \<open>bench_main\<close> describes.\<close>

lemma bench_program_prints:
  assumes "bench_args argv = Inr (port, n)" and "bench_main argv sock conn deliver c = Some (Exit_status 0, rs, c')"
  shows "bench_program nan t argv sock conn deliver c =
    Some (bench_head (bench_host argv) port n @ bench_report nan n t, Exit_status 0, c')"
  using assms by (simp add: bench_program_def)

end
