(* ===== verification/History_Properties.thy ===== *)
theory History_Properties
  imports Bench_Report Example_Database
begin

section \<open>The server as a whole\<close>

text \<open>
  The properties that go from the text a client sends to the text it is answered with, over any number
  of connections and processes.
\<close>

lemma history_append:
  "history e fs (ss @ [s]) = do {
     (outss, fs1) \<leftarrow> history e fs ss;
     (outs, ex, c) \<leftarrow> server_main e fs1 s;
     Some (outss @ [outs], db_files c) }"
proof (induction ss arbitrary: fs)
  case Nil
  show ?case by (cases "server_main e fs s") auto
next
  case (Cons s' ss)
  show ?case
  proof (cases "server_main e fs s'")
    case (Some r)
    obtain outs ex c where r: "r = (outs, ex, c)" by (cases r)
    show ?thesis using Some Cons [of "db_files c"] r
      by (cases "history e (db_files c) ss") (auto simp: case_prod_beta bind_assoc)
  qed simp
qed

text \<open>C1. For clients within a contract the program is a relational database: whatever lines of text the
  clients of any number of processes send, one after the other, each client gets the welcome and for each line the reply
  that the relations prescribe, as if there had been one process and one client. The contract: the first process finds no
  \<^verbatim>\<open>catalog.db\<close>, that file can be opened for writing, and a loop over a hash map visits each entry once; every line
  arrives in a read of its own, is shorter than a read, and if it is an \<^verbatim>\<open>INSERT\<close>, gives not more values than there are
  columns and no INTEGER column a text that is no 32-bit number (\<open>line_ok\<close>, which depends on the relations only); there
  are at most \<open>2^19\<close> lines; and every process but the last ends in a \<^verbatim>\<open>COMMIT\<close>. Nothing is assumed of pages, buffers,
  page ids or table files.\<close>
theorem server_history_as_database:
  assumes "visits_all e" and "opens_to_write e catalog_path" and "fs catalog_path = None"
    and "list_all2 (\<lambda>tss s. serving (map (map (\<lambda>t. t @ newline)) tss) s) (tsss @ [tss]) (ss @ [s])"
    and "length (concat (concat (tsss @ [tss]))) \<le> 2 ^ 19" and "lines_ok Map.empty (concat (concat (tsss @ [tss])))"
    and "\<forall>tss \<in> set tsss. concat tss \<noteq> [] \<and> is_commit (last (concat tss))"
  shows "\<exists>rsss fs' db. history e fs (ss @ [s]) = Some (map (map (\<lambda>rs. welcome_text # replies rs)) rsss, fs') \<and>
    map (map length) rsss = map (map length) (tsss @ [tss]) \<and>
    spec_run line_step Map.empty (concat (concat (tsss @ [tss]))) (concat (concat rsss)) db"
proof -
  from assms(4) have s: "list_all2 (\<lambda>tss s. serving (map (map (\<lambda>t. t @ newline)) tss) s) tsss ss"
    "serving (map (map (\<lambda>t. t @ newline)) tss) s" using list_all2_lengthD [OF assms(4)] by (simp_all add: list_all2_append)
  from assms(5-7) have "0 + length (concat (concat tsss)) \<le> 2 ^ 19" "lines_ok Map.empty (concat (concat tsss))"
    "\<forall>tss \<in> set tsss. saved_after False (concat tss)" by (auto simp: lines_ok_append saved_after_def)
  from history_lines [OF committed_empty [where fs = fs, OF assms(1,3)] assms(2) s(1) this] obtain rsss fs1 db1 where
    1: "history e fs ss = Some (map (map (\<lambda>rs. welcome_text # replies rs)) rsss, fs1)" "map (map length) rsss = map (map length) tsss"
      "spec_run line_step Map.empty (concat (concat tsss)) (concat (concat rsss)) db1"
      "committed e fs1 (0 + length (concat (concat tsss))) db1" by blast
  have "lines_ok db1 (concat tss)" using assms(6) spec_run_next [OF 1(3)] by (simp add: lines_ok_append)
  from server_main_lines [OF 1(4) s(2) _ this] assms(5) obtain rss c where
    2: "server_main e fs1 s = Some (map (\<lambda>rs. welcome_text # replies rs) rss, None, c)" "map length rss = map length tss"
      "spec_run line_step db1 (concat tss) (concat rss) (db_abs c)" by auto
  with 1(1,2) spec_run_append [OF 1(3) 2(3)] show ?thesis
    by (intro exI [of _ "rsss @ [rss]"]) (auto simp: history_append)
qed

definition ex_sockets :: "string list \<Rightarrow> Sockets" where
  "ex_sockets ts = \<lparr>socket_fd = 3, bind_result = 0, listen_result = 0, accepts = [Some (map (\<lambda>t. t @ newline) ts)]\<rparr>"

lemma ex_serving: "serving (map (map (\<lambda>t. t @ newline)) [ts]) (ex_sockets ts)"
  by (simp add: serving_def ex_sockets_def List.map_filter_simps)

text \<open>One process creates a table, inserts a row and commits; the next one selects it.\<close>

lemma server_history_as_database_witness:
  "\<exists>fs. history ex_env Map.empty [ex_sockets [''CREATE TABLE t (id INTEGER, ok BOOLEAN);'', ''INSERT INTO t VALUES (42);'', ''COMMIT''],
      ex_sockets [''SELECT * FROM t;'']] =
    Some ([[[welcome_text, ''Table '' @ quoted ''t'' @ '' created.'' @ newline, prompt, ''1 row inserted.'' @ newline, prompt,
        ''COMMIT: 1 table(s) flushed to disk.'' @ newline, prompt]],
      [[welcome_text, ''42 | false'' @ newline @ ''1 rows returned.'' @ newline, prompt]]], fs)"
proof -
  define t u v w where "t = ''CREATE TABLE t (id INTEGER, ok BOOLEAN);''" and "u = ''INSERT INTO t VALUES (42);''"
    and "v = ''COMMIT''" and "w = ''SELECT * FROM t;''"
  note d = t_def u_def v_def w_def
  have q: "is_query t" "is_query u" "is_query v" "is_query w" unfolding d by code_simp+
  have p: "Parse t = Some (CreateTableStatement ''t'' ex_cols)" "Parse u = Some (InsertStatement ''t'' [''42''])"
    "Parse v = Some CommitStatement" "Parse w = Some (SelectStatement ''t'')" unfolding d ex_cols_def by code_simp+
  have ne: "ex_cols \<noteq> []" by (simp add: ex_cols_def)
  have "lines_ok Map.empty [t, u, v, w]"
    using q p ex_row ex_cols_len(2) by (simp add: line_ok_def line_next_def stmt_ok_def)
  then have "\<exists>rsss fs' db. history ex_env Map.empty [ex_sockets [t, u, v], ex_sockets [w]] =
      Some (map (map (\<lambda>rs. welcome_text # replies rs)) rsss, fs') \<and> map (map length) rsss = map (map length) [[[t, u, v]], [[w]]] \<and>
      spec_run line_step Map.empty [t, u, v, w] (concat (concat rsss)) db"
    using server_history_as_database [of ex_env Map.empty "[[[t, u, v]]]" "[[w]]" "[ex_sockets [t, u, v]]" "ex_sockets [w]"]
      ex_serving [of "[t, u, v]"] ex_serving [of "[w]"] p(3)
    by (simp del: history.simps add: is_commit_def)
  then obtain rsss fs' db where h: "history ex_env Map.empty [ex_sockets [t, u, v], ex_sockets [w]] =
      Some (map (map (\<lambda>rs. welcome_text # replies rs)) rsss, fs')" "map (map length) rsss = map (map length) [[[t, u, v]], [[w]]]"
      "spec_run line_step Map.empty [t, u, v, w] (concat (concat rsss)) db" by blast
  from h(2) obtain r1 r2 r3 r4 where rs: "rsss = [[[r1, r2, r3]], [[r4]]]"
    by (auto simp: map_eq_Cons_conv length_Suc_conv numeral_3_eq_3)
  with h(3) obtain db1 db2 db3 where st: "line_step Map.empty t r1 db1" "line_step db1 u r2 db2" "line_step db2 v r3 db3"
    "line_step db3 w r4 db" by auto
  have one: "to_string 1 = ''1''" by code_simp
  from st(1) p(1) have 1: "r1 = ''Table '' @ quoted ''t'' @ '' created.'' @ newline" "db1 = [''t'' \<mapsto> (ex_cols, {#})]"
    by (auto simp: FormatResult_def elim!: line_step.cases db_step.cases)
  from st(2) p(2) 1 ne ex_row have 2: "r2 = ''1 row inserted.'' @ newline" "db2 = [''t'' \<mapsto> (ex_cols, {#[''42'', ''false'']#})]"
    by (auto simp: FormatResult_def elim!: line_step.cases db_step.cases)
  from st(3) p(3) 2 one have 3: "r3 = ''COMMIT: 1 table(s) flushed to disk.'' @ newline" "db3 = db2"
    by (auto simp: FormatResult_def elim!: line_step.cases db_step.cases)
  from st(4) p(4) 2 3 one have "r4 = ''42 | false'' @ newline @ ''1 rows returned.'' @ newline"
    by (auto simp: FormatResult_def elim!: line_step.cases db_step.cases)
  with 1 2 3 rs h(1) show ?thesis unfolding d by auto
qed

text \<open>C18. A run of the benchmark against the server, with any number of insertions that the ranges allow: whatever pieces
  the network delivers the answers in, every query gets exactly the answer that the relations prescribe for its line,
  no more and no less; the run ends with status 0 and prints the heading and the report of its timings; and the
  database is left as it was but for the table \<^verbatim>\<open>bench\<close>, which holds the rows of the last phase, although not one
  \<^verbatim>\<open>COMMIT;\<close> of the run was accepted.\<close>
theorem bench_run_on_server:
  assumes "db_inv c" and "capacity k c" and "k + length (bench_queries n) \<le> 2 ^ 19"
    and "db_abs c ''bench'' = None \<or> (\<exists>R. db_abs c ''bench'' = Some (bench_cols, R))"
    and "delivers deliver" and "bench_args argv = Inr (port, int n)" and "0 \<le> sock" and "0 \<le> conn"
  shows "\<exists>rs c'. bench_main argv sock conn deliver c = Some (Exit_status 0, welcome_text # map (\<lambda>r. r @ prompt) rs, c') \<and>
    spec_run line_step (db_abs c) (bench_queries n) rs (db_abs c') \<and>
    db_abs c' = (db_abs c)(''bench'' \<mapsto> (bench_cols, durable_rows n)) \<and>
    bench_program nan t argv sock conn deliver c =
      Some (bench_head (bench_host argv) port (int n) @ bench_report nan (int n) t, Exit_status 0, c')"
proof -
  have n: "n \<le> 2 ^ 30" using assms(3) by (simp add: length_bench_queries)
  note q = bench_queries_lines [where db = "db_abs c", OF assms(4) n]
  have "db_good (env c) k False c" using assms(1,2) by (simp add: db_good_def)
  from run_queries_lines [OF this assms(3) q(1,2) assms(5)] obtain rs c' where
    r: "run_queries deliver (bench_queries n) c = Some (map (\<lambda>r. r @ prompt) rs, None, c')"
      "spec_run line_step (db_abs c) (bench_queries n) rs (db_abs c')" by blast
  have "plain_reply (''Welcome to pragmaticDB! Type your SQL queries below.'' @ newline)" by (simp add: newline_def)
  from drain_pieces [OF assms(5) this] have w: "open_client sock conn deliver = Some welcome_text"
    using assms(7,8) by (simp add: welcome_text_def open_client_def)
  have "trim_line_ends (c_string (''exit'' @ newline)) = ''exit''" by code_simp
  then have "close_client c' = Some c'" by (simp add: close_client_def send_line_def)
  with r(1) w n assms(6) have "bench_main argv sock conn deliver c = Some (Exit_status 0, welcome_text # map (\<lambda>r. r @ prompt) rs, c')"
    by (simp add: bench_main_def)
  with r(2) spec_run_next [OF r(2)] q(3) bench_program_prints [OF assms(6)] show ?thesis by auto
qed

lemma bench_run_on_server_witness:
  "\<exists>rs c. bench_main [''bench''] 3 0 (map (\<lambda>x. [x])) (new_Catalog ex_env Map.empty) = Some (Exit_status 0, rs, c) \<and>
    db_abs c = [''bench'' \<mapsto> (bench_cols, durable_rows 1000)]"
proof -
  let ?c = "new_Catalog ex_env Map.empty" and ?piece = "map (\<lambda>x. [x])"
  have d: "delivers ?piece" by (auto simp: delivers_def)
  have a: "bench_args [''bench''] = Inr (8080, int 1000)" by (simp add: bench_args_def)
  have l: "0 + length (bench_queries 1000) \<le> 2 ^ 19" by (simp add: length_bench_queries)
  have b: "db_abs ?c ''bench'' = None \<or> (\<exists>R. db_abs ?c ''bench'' = Some (bench_cols, R))" by (simp add: db_inv_new(2))
  have s: "(0 :: int) \<le> 3" "(0 :: int) \<le> 0" by simp_all
  from bench_run_on_server [where c = ?c and deliver = ?piece, OF db_inv_new(1) [OF ex_env_good(1)] within_new l b d a s] obtain rs c where
    "bench_main [''bench''] 3 0 ?piece ?c = Some (Exit_status 0, welcome_text # map (\<lambda>r. r @ prompt) rs, c)"
    "db_abs c = (db_abs ?c)(''bench'' \<mapsto> (bench_cols, durable_rows 1000))" by blast
  then show ?thesis unfolding db_inv_new(2) by blast
qed

end
