(* ===== verification/Repo_Tests.thy ===== *)
theory Repo_Tests
  imports Example_Database Server_History Row_Order
begin

section \<open>The repository's own tests on the model\<close>

text \<open>
  The assertions of \<^verbatim>\<open>tests/\<close>, one lemma per test function, from the state it starts in. Where a test relies on a
  file, it is an arbitrary one: none of the assertions depends on what the file holds.
\<close>

subsection \<open>Values, schemas, tuples\<close>

lemma TestValueClass:
  "\<exists>b. SerializeToChar ((new_Value INTEGER)\<lparr>vdata := Int32 42069\<rparr>) = Inr b \<and> length b = 4 \<and>
    map_option (\<lambda>v. any_cast_int32 (vdata v)) (DeserializeFromChar 0 b INTEGER (new_Value INVALID)) = Some (Inr 42069)"
  "\<exists>b. SerializeToChar ((new_Value BOOLEAN)\<lparr>vdata := Int8 1\<rparr>) = Inr b \<and> length b = 1 \<and>
    map_option (\<lambda>v. any_cast_int8 (vdata v)) (DeserializeFromChar 0 b BOOLEAN (new_Value INVALID)) = Some (Inr 1)"
  by (simp_all add: SerializeToChar_def new_Value_def any_cast_int32_def any_cast_int8_def DeserializeFromChar_def
      mem_read_def slice_def)

lemma TestSchemaClass:
  "let s = new_Schema [new_Column ''id'' INTEGER, new_Column ''is_active'' BOOLEAN, new_Column ''age'' INTEGER] in
    GetColumnCount s = 3 \<and> schema_length s = 9 \<and> map (GetColOffset s) [0, 1, 2] = [Some 0, Some 4, Some 5] \<and>
    map_option column_name (GetColumn s 0) = Some ''id'' \<and> map_option column_type (GetColumn s 1) = Some BOOLEAN \<and>
    map_option column_length (GetColumn s 2) = Some 4"
  by code_simp

text \<open>The schema that the other tests use.\<close>

definition test_cols :: "Column list" where
  "test_cols = [new_Column ''id'' INTEGER, new_Column ''is_active'' BOOLEAN]"

definition test_values :: "32 word \<Rightarrow> 8 word \<Rightarrow> Value list" where
  "test_values i b = [(new_Value INTEGER)\<lparr>vdata := Int32 i\<rparr>, (new_Value BOOLEAN)\<lparr>vdata := Int8 b\<rparr>]"

lemma test_cols_good: "good_columns test_cols" "sum_list (map clen test_cols) = 5" "test_cols \<noteq> []" "length test_cols = 2"
  by (simp_all add: test_cols_def good_columns_def good_column_def clen_def new_Column_def)

lemma TestTupleClass:
  "\<exists>t. new_Tuple (test_values i b) (new_Schema test_cols) = Some (Inr t) \<and> length t = 5 \<and>
    map_option vdata (GetValue (new_Schema test_cols) 0 t) = Some (Int32 i) \<and>
    map_option vdata (GetValue (new_Schema test_cols) 1 t) = Some (Int8 b)"
proof -
  have "fits_columns test_cols (test_values i b)"
    by (simp add: fits_columns_def test_cols_def test_values_def typed_def new_Column_def new_Value_def)
       (auto simp: less_Suc_eq)
  from new_Tuple_spec [OF test_cols_good(1) this] test_cols_good show ?thesis
    by (auto simp: column_value_def test_values_def)
qed


subsection \<open>Records and tables\<close>

lemma new_manager:
  "rm_inv True (new_RecordManager dm)" "page_ids (new_RecordManager dm) = []" "rm_GetNextPageId (new_RecordManager dm) = 0"
  by (simp_all add: rm_inv_new) (simp_all add: new_RecordManager_def rm_GetNextPageId_def new_BufferPool_def)

lemma TestRecordManager:
  fixes hello hi world x :: "byte list"
  assumes "length hello = 5" and "length hi = 2" and "length world = 5" and "length x = 1"
  shows "\<exists>rid1 rm1 rm2 rm3 rm4 rm5 rm6 rm7 rid2 rm8.
    rm_Insert (Some hello) 5 (new_RecordManager dm) = Some (rid1, rm1) \<and> rid_page_id rid1 \<noteq> INVALID_PAGE_ID \<and>
    rm_Get rid1 (Some PAGE_SIZE) rm1 = Some (Some (hello, 5), rm2) \<and>
    rm_Update rid1 (Some hi) 2 rm2 = Some (True, rm3) \<and>
    rm_Get rid1 (Some PAGE_SIZE) rm3 = Some (Some (hi, 2), rm4) \<and>
    rm_Delete rid1 rm4 = Some (True, rm5) \<and>
    rm_Get rid1 (Some PAGE_SIZE) rm5 = Some (None, rm6) \<and>
    rm_Update rid1 (Some x) 1 rm6 = Some (False, rm7) \<and>
    rm_Insert (Some world) 5 rm7 = Some (rid2, rm8) \<and> rid_page_id rid2 \<noteq> INVALID_PAGE_ID \<and>
    rm_Insert (Some []) 0 rm8 = Some (invalid_rid, rm8) \<and>
    rm_Delete invalid_rid rm8 = Some (False, rm8) \<and> rm_Update invalid_rid (Some x) 1 rm8 = Some (False, rm8)"
proof -
  have a: "page_addr 0" "page_addr 1" by (simp_all add: page_addr_def MAX_PAGES_def)
  note n = new_manager [of dm]
  from rm_Insert_spec [OF n(1), of hello] assms(1) n(2,3) a obtain rid rm1 where
    1: "rm_Insert (Some hello) 5 (new_RecordManager dm) = Some (rid, rm1)" "rm_inv True rm1" "rid_page_id rid \<noteq> INVALID_PAGE_ID"
      "rid_page_id rid \<in> set (page_ids rm1)" "rm_GetNextPageId rm1 = 1"
      "heap_of rm1 = heap_append (rid_page_id rid) hello []" "unat (rid_slot_id rid) = length (recs_at [] (rid_page_id rid))"
    by (auto simp: heap_of_new)
  have g1: "heap_get (heap_of rm1) rid = Some hello" using heap_get_append(2) [OF refl 1(7), of hello] 1(6) by simp
  from rm_Get_spec [OF 1(2,4) order_refl] g1 assms(1) obtain rm2 where
    2: "rm_Get rid (Some PAGE_SIZE) rm1 = Some (Some (hello, 5), rm2)" "rm_inv True rm2" "heap_of rm2 = heap_of rm1"
      "rid_page_id rid \<in> set (page_ids rm2)" "rm_GetNextPageId rm2 = 1" using 1(4,5) by auto
  from rm_Update_spec [OF 2(2,4), of hi] assms(1,2) g1 2(3) obtain ok rm3 where
    3: "rm_Update rid (Some hi) 2 rm2 = Some (ok, rm3)" "ok" "rm_inv True rm3" "page_ids rm3 = page_ids rm2"
      "rm_GetNextPageId rm3 = 1" "heap_of rm3 = heap_put rid (Some hi) (heap_of rm1)" using 2(5) by auto
  have p3: "rid_page_id rid \<in> set (page_ids rm3)" using 2(4) 3(4) by simp
  have g3: "heap_get (heap_of rm3) rid = Some hi" using heap_get_put [of "heap_of rm1" rid] g1 3(6) by simp
  from rm_Get_spec [OF 3(3) p3 order_refl] g3 assms(2) 3(5) p3 obtain rm4 where
    4: "rm_Get rid (Some PAGE_SIZE) rm3 = Some (Some (hi, 2), rm4)" "rm_inv True rm4" "heap_of rm4 = heap_of rm3"
      "rid_page_id rid \<in> set (page_ids rm4)" "rm_GetNextPageId rm4 = 1" by auto
  have "unat (rid_slot_id rid) < length (recs_at (heap_of rm4) (rid_page_id rid))"
    using heap_get_bound [of rm4 rid] g3 4(3) by simp
  with rm_Delete_spec [OF 4(2,4)] 4(4,5) obtain rm5 where
    5: "rm_Delete rid rm4 = Some (True, rm5)" "rm_inv True rm5" "heap_of rm5 = heap_put rid None (heap_of rm4)"
      "rid_page_id rid \<in> set (page_ids rm5)" "rm_GetNextPageId rm5 = 1" by auto
  have g5: "heap_get (heap_of rm5) rid = None" by (simp add: 5(3) heap_get_delete)
  from rm_Get_spec [OF 5(2,4) order_refl] g5 5(4,5) obtain rm6 where
    6: "rm_Get rid (Some PAGE_SIZE) rm5 = Some (None, rm6)" "rm_inv True rm6" "heap_of rm6 = heap_of rm5"
      "rid_page_id rid \<in> set (page_ids rm6)" "rm_GetNextPageId rm6 = 1" by auto
  from rm_Update_spec [OF 6(2,4), of x] assms(4) g5 6(3,5) obtain rm7 where
    7: "rm_Update rid (Some x) 1 rm6 = Some (False, rm7)" "rm_inv True rm7" "rm_GetNextPageId rm7 = 1" by auto
  from rm_Insert_spec [OF 7(2), of world] assms(3) 7(3) a obtain rid2 rm8 where
    8: "rm_Insert (Some world) 5 rm7 = Some (rid2, rm8)" "rid_page_id rid2 \<noteq> INVALID_PAGE_ID" by auto
  have "rm_Insert (Some []) 0 rm8 = Some (invalid_rid, rm8)" "rm_Delete invalid_rid rm8 = Some (False, rm8)"
    "rm_Update invalid_rid (Some x) 1 rm8 = Some (False, rm8)"
    by (simp_all add: rm_Insert_def rm_Delete_def rm_Update_def invalid_rid_def)
  moreover have "rm_Update rid (Some hi) 2 rm2 = Some (True, rm3)" using 3(1,2) by simp
  ultimately show ?thesis using 1(1,3) 2(1) 4(1) 5(1) 6(1) 7(1) 8 by blast
qed


text \<open>A tuple of a table of its own: what \<open>InsertTuple\<close> gives back, and the scan loop of the test that counts.\<close>

definition count_body :: "TableIterator \<Rightarrow> nat \<Rightarrow> RecordManager \<Rightarrow> (nat result \<times> RecordManager) option" where
  "count_body it n rm = Some (Inr (n + 1), rm)"

lemma scan_counts:
  assumes "rm_inv True tm"
  shows "\<exists>tm'. table_scan count_body 0 tm = Some (Inr (card (dom (heap_get (heap_of tm)))), tm') \<and> rm_same True tm tm'"
proof -
  have "reads_as True (heap_of tm) (\<lambda>rid n. Inr (n + 1)) count_body"
    by (auto simp: reads_as_def count_body_def rm_same_def)
  moreover have "fold_result (\<lambda>rid n. Inr (n + 1)) rids m = Inr (m + length rids)" for rids :: "RecordId list" and m :: nat
    by (induction rids arbitrary: m) auto
  ultimately show ?thesis
    using table_scan_spec [OF assms, of _ count_body 0] live_rids_complete [OF assms] distinct_card [OF live_rids_distinct [OF assms]]
    by fastforce
qed

lemma insert_tuple:
  assumes "rm_inv True tm" and "page_addr (rm_GetNextPageId tm)" and "new_Tuple (test_values i b) (new_Schema test_cols) = Some (Inr t)"
  shows "\<exists>rid tm'. tm_InsertTuple t tm = Some (rid, tm') \<and> rm_inv True tm' \<and> rid_page_id rid \<noteq> INVALID_PAGE_ID \<and>
    rid_page_id rid \<in> set (page_ids tm') \<and> set (page_ids tm) \<subseteq> set (page_ids tm') \<and>
    heap_get (heap_of tm) rid = None \<and> heap_get (heap_of tm') = (heap_get (heap_of tm))(rid \<mapsto> t) \<and>
    rm_GetNextPageId tm' \<le> rm_GetNextPageId tm + 1 \<and> rm_GetNextPageId tm \<le> rm_GetNextPageId tm' \<and>
    (packed 5 (heap_of tm) \<longrightarrow> packed 5 (heap_of tm') \<and> live_rids (heap_of tm') = live_rids (heap_of tm) @ [rid])"
proof -
  from TestTupleClass [of i b] assms(3) have l: "length t = 5" by auto
  from rm_Insert_spec [OF assms(1), of t] l assms(2) obtain rid tm' where
    i: "rm_Insert (Some t) 5 tm = Some (rid, tm')" "rm_inv True tm'" "rid_page_id rid \<noteq> INVALID_PAGE_ID"
      "rid_page_id rid \<in> set (page_ids tm')" "heap_of tm' = heap_append (rid_page_id rid) t (heap_of tm)"
      "unat (rid_slot_id rid) = length (recs_at (heap_of tm) (rid_page_id rid))"
      "page_ids tm' = page_ids tm \<and> rm_GetNextPageId tm' = rm_GetNextPageId tm \<or>
        page_ids tm' = page_ids tm @ [rid_page_id rid] \<and> rm_GetNextPageId tm' = rm_GetNextPageId tm + 1" by auto
  moreover have "packed 5 (heap_of tm) \<longrightarrow> packed 5 (heap_of tm') \<and> live_rids (heap_of tm') = live_rids (heap_of tm) @ [rid]"
    using rm_Insert_packed [OF assms(1), of t] l assms(2) i(1) by auto
  ultimately show ?thesis using heap_get_append [OF refl i(6)] l by (auto simp: tm_InsertTuple_def tuple_GetLength_def)
qed

text \<open>The test that moves an iterator over three tuples and compares it with the end.\<close>

definition walk3 :: "RecordManager \<Rightarrow> (Tuple list \<times> bool) option" where
  "walk3 rm = do {
     (it, rm) \<leftarrow> tm_Begin rm;
     (t1, rm) \<leftarrow> it_deref it rm;
     (it, rm) \<leftarrow> it_next it rm;
     (t2, rm) \<leftarrow> it_deref it rm;
     (it, rm) \<leftarrow> it_next it rm;
     (t3, rm) \<leftarrow> it_deref it rm;
     (it, rm) \<leftarrow> it_next it rm;
     Some ([t1, t2, t3], it_eq it tm_End) }"

lemma walk_step:
  assumes "rm_inv True rm" and "it_at (heap_of rm) (page_ids rm) it (r # rs)" and "heap_get (heap_of rm) r = Some t"
  shows "\<exists>rm1 it' rm2. it_deref it rm = Some (t, rm1) \<and> it_next it rm1 = Some (it', rm2) \<and> rm_same True rm rm2 \<and>
    it_at (heap_of rm) (page_ids rm) it' rs"
proof -
  from assms(2,3) have "heap_get (heap_of rm) (it_rid it) = Some t" by (simp add: it_at_def)
  from it_deref_spec [OF assms(1) this] obtain rm1 where 1: "it_deref it rm = Some (t, rm1)" "rm_same True rm rm1" by blast
  then have s: "rm_inv True rm1" "heap_of rm1 = heap_of rm" "page_ids rm1 = page_ids rm" by (simp_all add: rm_same_def)
  from it_next_spec [OF s(1), of it r rs] assms(2) s(2,3) obtain it' rm2 where
    "it_next it rm1 = Some (it', rm2)" "rm_same True rm1 rm2" "it_at (heap_of rm) (page_ids rm) it' rs" by auto
  with 1 rm_same_trans [OF 1(2)] show ?thesis by blast
qed

lemma walk3_reads:
  assumes "rm_inv True rm" and "live_rids (heap_of rm) = [r1, r2, r3]" and "heap_get (heap_of rm) r1 = Some t1"
    and "heap_get (heap_of rm) r2 = Some t2" and "heap_get (heap_of rm) r3 = Some t3"
  shows "walk3 rm = Some ([t1, t2, t3], True)"
proof -
  from tm_Begin_spec [OF assms(1)] assms(2) obtain i0 m0 where b: "tm_Begin rm = Some (i0, m0)" "rm_same True rm m0"
    "it_at (heap_of rm) (page_ids rm) i0 [r1, r2, r3]" by auto
  from b(2) have m0: "rm_inv True m0" "heap_of m0 = heap_of rm" "page_ids m0 = page_ids rm" by (simp_all add: rm_same_def)
  from walk_step [OF m0(1), of i0 r1 "[r2, r3]" t1] b(3) assms(3) m0(2,3) obtain n1 i1 m1 where
    1: "it_deref i0 m0 = Some (t1, n1)" "it_next i0 n1 = Some (i1, m1)" "rm_same True m0 m1"
      "it_at (heap_of rm) (page_ids rm) i1 [r2, r3]" by auto
  from 1(3) m0 have m1: "rm_inv True m1" "heap_of m1 = heap_of rm" "page_ids m1 = page_ids rm" by (simp_all add: rm_same_def)
  from walk_step [OF m1(1), of i1 r2 "[r3]" t2] 1(4) assms(4) m1(2,3) obtain n2 i2 m2 where
    2: "it_deref i1 m1 = Some (t2, n2)" "it_next i1 n2 = Some (i2, m2)" "rm_same True m1 m2"
      "it_at (heap_of rm) (page_ids rm) i2 [r3]" by auto
  from 2(3) m1 have m2: "rm_inv True m2" "heap_of m2 = heap_of rm" "page_ids m2 = page_ids rm" by (simp_all add: rm_same_def)
  from walk_step [OF m2(1), of i2 r3 "[]" t3] 2(4) assms(5) m2(2,3) obtain n3 i3 m3 where
    3: "it_deref i2 m2 = Some (t3, n3)" "it_next i2 n3 = Some (i3, m3)" "it_at (heap_of rm) (page_ids rm) i3 []" by auto
  from 3(3) have "it_eq i3 tm_End" by (simp add: it_eq_End it_at_def)
  with b(1) 1(1,2) 2(1,2) 3(1,2) show ?thesis by (simp add: walk3_def)
qed

lemma TestTableManagerClass:
  assumes "new_Tuple (test_values 777 0) (new_Schema test_cols) = Some (Inr t)"
  shows "\<exists>rid tm tm'. tm_InsertTuple t (new_RecordManager dm) = Some (rid, tm) \<and> rid_page_id rid \<noteq> INVALID_PAGE_ID \<and>
    tm_GetTuple rid tm = Some (t, tm') \<and> length t = 5 \<and>
    map_option vdata (GetValue (new_Schema test_cols) 0 t) = Some (Int32 777) \<and>
    map_option vdata (GetValue (new_Schema test_cols) 1 t) = Some (Int8 0)"
proof -
  have "page_addr (rm_GetNextPageId (new_RecordManager dm))" by (simp add: new_manager page_addr_def MAX_PAGES_def)
  from insert_tuple [OF new_manager(1) this assms] obtain rid tm where
    i: "tm_InsertTuple t (new_RecordManager dm) = Some (rid, tm)" "rm_inv True tm" "rid_page_id rid \<noteq> INVALID_PAGE_ID"
      "rid_page_id rid \<in> set (page_ids tm)" "heap_get (heap_of tm) rid = Some t" by auto
  note v = TestTupleClass [of 777 0] assms
  then have "length t = 5" by auto
  with rm_Get_spec [OF i(2,4), of 4096] i(5) obtain tm' where "tm_GetTuple rid tm = Some (t, tm')"
    by (auto simp: tm_GetTuple_def PAGE_SIZE_def)
  with i(1,3) v show ?thesis by auto
qed

lemma TestTableIteratorClass:
  assumes "new_Tuple (test_values 1 1) (new_Schema test_cols) = Some (Inr t1)"
    and "new_Tuple (test_values 2 0) (new_Schema test_cols) = Some (Inr t2)"
    and "new_Tuple (test_values 3 1) (new_Schema test_cols) = Some (Inr t3)"
  shows "tm_Begin (new_RecordManager dm) = Some (tm_End, new_RecordManager dm)"
    and "\<exists>rid1 tm1 rid2 tm2 rid3 tm3 tm4 tm5 tm6. tm_InsertTuple t1 (new_RecordManager dm) = Some (rid1, tm1) \<and>
      tm_InsertTuple t2 tm1 = Some (rid2, tm2) \<and> tm_InsertTuple t3 tm2 = Some (rid3, tm3) \<and>
      INVALID_PAGE_ID \<notin> {rid_page_id rid1, rid_page_id rid2, rid_page_id rid3} \<and>
      walk3 tm3 = Some ([t1, t2, t3], True) \<and>
      table_scan count_body 0 tm3 = Some (Inr 3, tm4) \<and> tm_DeleteTuple rid2 tm4 = Some (True, tm5) \<and>
      table_scan count_body 0 tm5 = Some (Inr 2, tm6)"
proof -
  show "tm_Begin (new_RecordManager dm) = Some (tm_End, new_RecordManager dm)" by (simp add: tm_Begin_def new_manager)
  have a: "page_addr n" if "0 \<le> n" "n \<le> 3" for n using that by (simp add: page_addr_def MAX_PAGES_def)
  note n = new_manager [of dm]
  from insert_tuple [OF n(1) _ assms(1)] n(3) a obtain rid1 tm1 where
    1: "tm_InsertTuple t1 (new_RecordManager dm) = Some (rid1, tm1)" "rm_inv True tm1" "rid_page_id rid1 \<noteq> INVALID_PAGE_ID"
      "heap_get (heap_of tm1) = [rid1 \<mapsto> t1]" "0 \<le> rm_GetNextPageId tm1" "rm_GetNextPageId tm1 \<le> 1"
      "packed 5 (heap_of tm1)" "live_rids (heap_of tm1) = [rid1]"
    by (auto simp: heap_of_new live_rids_def [of "[]"])
  from insert_tuple [OF 1(2) _ assms(2)] a 1(5,6) obtain rid2 tm2 where
    2: "tm_InsertTuple t2 tm1 = Some (rid2, tm2)" "rm_inv True tm2" "rid_page_id rid2 \<noteq> INVALID_PAGE_ID"
      "heap_get (heap_of tm1) rid2 = None" "heap_get (heap_of tm2) = (heap_get (heap_of tm1))(rid2 \<mapsto> t2)"
      "rid_page_id rid2 \<in> set (page_ids tm2)" "0 \<le> rm_GetNextPageId tm2" "rm_GetNextPageId tm2 \<le> 2"
      "packed 5 (heap_of tm2)" "live_rids (heap_of tm2) = [rid1, rid2]" using 1(7,8) by force
  from insert_tuple [OF 2(2) _ assms(3)] a 2(7,8) obtain rid3 tm3 where
    3: "tm_InsertTuple t3 tm2 = Some (rid3, tm3)" "rm_inv True tm3" "rid_page_id rid3 \<noteq> INVALID_PAGE_ID"
      "heap_get (heap_of tm2) rid3 = None" "heap_get (heap_of tm3) = (heap_get (heap_of tm2))(rid3 \<mapsto> t3)"
      "rid_page_id rid2 \<in> set (page_ids tm3)" "live_rids (heap_of tm3) = [rid1, rid2, rid3]" using 2(6,9,10) by force
  have h3: "heap_get (heap_of tm3) = [rid1 \<mapsto> t1, rid2 \<mapsto> t2, rid3 \<mapsto> t3]" "rid1 \<noteq> rid2" "rid3 \<noteq> rid2" "rid3 \<noteq> rid1"
    using 1(4) 2(4,5) 3(4,5) by (auto split: if_splits)
  then have "walk3 tm3 = Some ([t1, t2, t3], True)" by (intro walk3_reads [OF 3(2,7)]) auto
  moreover have "card (dom (heap_get (heap_of tm3))) = 3" using h3 by simp
  from this scan_counts [OF 3(2)] 3(6) obtain tm4 where
    4: "table_scan count_body 0 tm3 = Some (Inr 3, tm4)" "rm_inv True tm4" "heap_of tm4 = heap_of tm3"
      "rid_page_id rid2 \<in> set (page_ids tm4)" by (auto simp: rm_same_def)
  have "unat (rid_slot_id rid2) < length (recs_at (heap_of tm4) (rid_page_id rid2))"
    using heap_get_bound [of tm4 rid2] h3 4(3) by simp
  with rm_Delete_spec [OF 4(2,4)] obtain tm5 where
    5: "tm_DeleteTuple rid2 tm4 = Some (True, tm5)" "rm_inv True tm5" "heap_of tm5 = heap_put rid2 None (heap_of tm4)"
    by (auto simp: tm_DeleteTuple_def)
  have "dom (heap_get (heap_of tm5)) = {rid1, rid3}" using h3 4(3) by (auto simp: 5(3) heap_get_delete split: if_splits)
  with h3 have "card (dom (heap_get (heap_of tm5))) = 2" by simp
  with scan_counts [OF 5(2)] obtain tm6 where "table_scan count_body 0 tm5 = Some (Inr 2, tm6)" by auto
  moreover have "INVALID_PAGE_ID \<notin> {rid_page_id rid1, rid_page_id rid2, rid_page_id rid3}" using 1(3) 2(3) 3(3) by simp
  ultimately show "\<exists>rid1 tm1 rid2 tm2 rid3 tm3 tm4 tm5 tm6.
      tm_InsertTuple t1 (new_RecordManager dm) = Some (rid1, tm1) \<and>
      tm_InsertTuple t2 tm1 = Some (rid2, tm2) \<and> tm_InsertTuple t3 tm2 = Some (rid3, tm3) \<and>
      INVALID_PAGE_ID \<notin> {rid_page_id rid1, rid_page_id rid2, rid_page_id rid3} \<and>
      walk3 tm3 = Some ([t1, t2, t3], True) \<and>
      table_scan count_body 0 tm3 = Some (Inr 3, tm4) \<and> tm_DeleteTuple rid2 tm4 = Some (True, tm5) \<and>
      table_scan count_body 0 tm5 = Some (Inr 2, tm6)" using 1(1) 2(1) 3(1) 4(1) 5(1) by blast
qed


subsection \<open>The catalog\<close>

lemma TestCatalogClass:
  assumes "visits_all e"
  shows "\<exists>oid c ti. CreateTable ''users'' (new_Schema test_cols) (new_Catalog e fs) = (Inr oid, c) \<and> oid = 0 \<and>
    GetTable ''users'' c = Inr ti \<and> ti_name ti = ''users'' \<and> ti_oid ti = 0 \<and> GetTable_oid 0 c = Inr ti \<and>
    (\<exists>m. GetTable ''non_existent'' c = throw (Runtime_error m)) \<and>
    (\<exists>m. CreateTable ''users'' (new_Schema test_cols) c = (throw (Runtime_error m), c))"
  by (simp add: CreateTable_def new_Catalog_def Let_def GetTable_def GetTable_oid_def)


subsection \<open>The buffer pool\<close>

text \<open>The assertions about pins and page ids, by evaluation.\<close>

lemmas pool_eval = new_BufferPool_def frame_of_def NewPage_def GetFreeFrameOrVictim_def evict_def upd_page_def PinFrame_def
  UnpinPage_def UnpinFrame_def FetchPage_def FlushPage_def DeletePage_def empty_Page_def INVALID_PAGE_ID_def int32_max_def
  upt_conv_Cons

lemma TestBufferPoolManager:
  "\<exists>bp. UnpinPage (-12345) False (new_BufferPool 2 dm) = (False, bp)"
  "\<exists>bp. FlushPage (-12345) (new_BufferPool 2 dm) = Some (False, bp)"
  "\<exists>pid f bp bp1 bp2. NewPage (new_BufferPool 2 dm) = Some (Some (pid, f), bp) \<and> 0 \<le> pid \<and> pin_count (pages bp ! f) = 1 \<and>
    UnpinPage pid False bp = (True, bp1) \<and> UnpinPage pid False bp1 = (False, bp2)"
  "\<exists>pid f bp bp1 bp2. NewPage (new_BufferPool 2 dm) = Some (Some (pid, f), bp) \<and> DeletePage pid bp = Some (False, bp) \<and>
    UnpinPage pid False bp = (True, bp1) \<and> DeletePage pid bp1 = Some (True, bp2)"
  "\<exists>p1 p2 bp1 bp2. NewPage (new_BufferPool 2 dm) = Some (Some p1, bp1) \<and> NewPage bp1 = Some (Some p2, bp2) \<and>
    NewPage bp2 = Some (None, bp2) \<and> FetchPage 999 bp2 = Some (None, bp2)"
  by (simp_all add: pool_eval Let_def)

text \<open>The tests that write to pages, as programs over the pool: \<open>fill\<close> is the test's, and a page is any list of 4096 bytes.\<close>

definition fill :: "nat \<Rightarrow> byte list \<Rightarrow> BufferPool \<Rightarrow> BufferPool" where
  "fill f d bp = upd_page f (\<lambda>p. p\<lparr>data := d, is_dirty := True\<rparr>) bp"

definition flush_refetch :: "byte list \<Rightarrow> DiskManager \<Rightarrow> (bool list \<times> byte list) option" where
  "flush_refetch dA dm = do {
     (p1, bp) \<leftarrow> NewPage (new_BufferPool 3 dm);
     (pid1, f1) \<leftarrow> p1;
     let bp = fill f1 dA bp;
     let pinned = pin_count (pages bp ! f1) = 1;
     let (u1, bp) = UnpinPage pid1 True bp;
     (fl, bp) \<leftarrow> FlushPage pid1 bp;
     (p2, bp) \<leftarrow> FetchPage pid1 bp;
     f2 \<leftarrow> p2;
     let (u2, _) = UnpinPage pid1 False bp;
     Some ([0 \<le> pid1, pinned, u1, fl, u2], data (pages bp ! f2)) }"

definition evict_dirty :: "byte list \<Rightarrow> byte list \<Rightarrow> byte list \<Rightarrow> DiskManager \<Rightarrow> (bool list \<times> byte list) option" where
  "evict_dirty dA dB dC dm = do {
     (pa, bp) \<leftarrow> NewPage (new_BufferPool 2 dm);
     (a, fa) \<leftarrow> pa;
     (pb, bp) \<leftarrow> NewPage bp;
     (b, fb) \<leftarrow> pb;
     let bp = fill fb dB (fill fa dA bp);
     let (u1, bp) = UnpinPage a True bp;
     let (u2, bp) = UnpinPage b True bp;
     (ra, bp) \<leftarrow> FetchPage a bp;
     _ \<leftarrow> ra;
     let (u3, bp) = UnpinPage a False bp;
     (pc, bp) \<leftarrow> NewPage bp;
     (c, fc) \<leftarrow> pc;
     let bp = fill fc dC bp;
     let (u4, bp) = UnpinPage c True bp;
     (rb, bp) \<leftarrow> FetchPage b bp;
     f \<leftarrow> rb;
     let (u5, _) = UnpinPage b False bp;
     Some ([u1, u2, u3, u4, u5], data (pages bp ! f)) }"

definition flush_all_reopen :: "byte list \<Rightarrow> byte list \<Rightarrow> DiskManager \<Rightarrow> (bool list \<times> byte list \<times> byte list) option" where
  "flush_all_reopen dX dY dm = do {
     (px, bp) \<leftarrow> NewPage (new_BufferPool 2 dm);
     (x, fx) \<leftarrow> px;
     (py, bp) \<leftarrow> NewPage bp;
     (y, fy) \<leftarrow> py;
     let bp = fill fy dY (fill fx dX bp);
     let (u1, bp) = UnpinPage x True bp;
     let (u2, bp) = UnpinPage y True bp;
     bp \<leftarrow> FlushAllPages bp;
     (rx, bp2) \<leftarrow> FetchPage x (new_BufferPool 1 (disk_manager bp));
     f \<leftarrow> rx;
     let dx = data (pages bp2 ! f);
     let (u3, bp2) = UnpinPage x False bp2;
     (ry, bp2) \<leftarrow> FetchPage y bp2;
     g \<leftarrow> ry;
     let (u4, _) = UnpinPage y False bp2;
     Some ([u1, u2, u3, u4], dx, data (pages bp2 ! g)) }"

lemma two_writes:
  assumes "length d = PAGE_SIZE" and "length e = PAGE_SIZE" and "page_addr p" and "page_addr q" and "p \<noteq> q"
  shows "\<exists>dm1 dm2. WritePage q e dm = Some dm1 \<and> WritePage p d dm1 = Some dm2 \<and>
    (\<forall>buf. length buf = PAGE_SIZE \<longrightarrow> ReadPage p buf dm2 = Some d \<and> ReadPage q buf dm2 = Some e)"
proof -
  from disk.wr_extends [OF assms(4,2)] obtain dm1 where 1: "WritePage q e dm = Some dm1" by blast
  from disk.wr_same [OF assms(4,2) 1] have v1: "disk_page dm1 q = Some e" .
  from disk.wr_extends [OF assms(3,1)] obtain dm2 where 2: "WritePage p d dm1 = Some dm2" by blast
  from disk.wr_same [OF assms(3,1) 2] disk.wr_other [OF assms(3,1) 2 _ v1] assms(5)
  have "disk_page dm2 p = Some d" "disk_page dm2 q = Some e" by simp_all
  with 1 2 ReadPage_known [of dm2] assms(3,4) show ?thesis by blast
qed

lemma TestBufferPoolManager_data:
  assumes "length dA = PAGE_SIZE" and "length dB = PAGE_SIZE" and "length dC = PAGE_SIZE"
  shows "flush_refetch dA dm = Some ([True, True, True, True, True], dA)"
    and "evict_dirty dA dB dC dm = Some ([True, True, True, True, True], dB)"
    and "flush_all_reopen dA dB dm = Some ([True, True, True, True], dA, dB)"
proof -
  have a: "page_addr 0" "page_addr 1" by (simp_all add: page_addr_def MAX_PAGES_def)
  then obtain dm0 where 0: "WritePage 0 dA dm = Some dm0" using disk.wr_defined assms(1) by blast
  show "flush_refetch dA dm = Some ([True, True, True, True, True], dA)"
    by (simp add: flush_refetch_def fill_def pool_eval Let_def 0)
  from two_writes [OF assms(1,2) a, of dm] obtain dm1 dm2 where w: "WritePage 1 dB dm = Some dm1" "WritePage 0 dA dm1 = Some dm2"
    "\<And>buf. length buf = PAGE_SIZE \<Longrightarrow> ReadPage 0 buf dm2 = Some dA \<and> ReadPage 1 buf dm2 = Some dB" by auto
  show "evict_dirty dA dB dC dm = Some ([True, True, True, True, True], dB)"
    by (simp add: evict_dirty_def fill_def pool_eval Let_def w assms)
  show "flush_all_reopen dA dB dm = Some ([True, True, True, True], dA, dB)"
  proof -
    from two_writes [OF assms(2,1) a(2,1), of dm] obtain dm1 dm2 where w: "WritePage 0 dA dm = Some dm1" "WritePage 1 dB dm1 = Some dm2"
      "\<And>buf. length buf = PAGE_SIZE \<Longrightarrow> ReadPage 1 buf dm2 = Some dB \<and> ReadPage 0 buf dm2 = Some dA" by auto
    show ?thesis by (simp add: flush_all_reopen_def fill_def FlushAllPages_def pool_eval Let_def w assms)
  qed
qed

subsection \<open>The query engine\<close>

fun stmts_ok :: "database \<Rightarrow> Statement list \<Rightarrow> bool" where
  "stmts_ok db [] \<longleftrightarrow> True"
| "stmts_ok db (s # ss) \<longleftrightarrow> stmt_ok db s \<and> stmts_ok (db_next db s) ss"

lemma run_statements:
  assumes "db_inv c" and "capacity k c" and "k + length stmts \<le> 2 ^ 19" and "stmts_ok (db_abs c) stmts"
  shows "\<exists>qs c'. run Execute stmts c = Some (map Inr qs, c') \<and> spec_run db_step (db_abs c) stmts (map Inr qs) (db_abs c')"
  using assms
proof (induction stmts arbitrary: c k)
  case Nil
  show ?case by (intro exI [of _ "[]"] exI [of _ c]) simp
next
  case (Cons s ss)
  then have "k < 2 ^ 19" "stmt_ok (db_abs c) s" by auto
  from Execute_step [OF Cons.prems(1,2) this] obtain q c1 where
    1: "Execute s c = Some (Inr q, c1)" "db_inv c1" "capacity (Suc k) c1" "db_step (db_abs c) s (Inr q) (db_abs c1)" by blast
  have "stmts_ok (db_abs c1) ss" using Cons.prems(4) db_step_next [OF 1(4)] by simp
  from Cons.IH [OF 1(2,3) _ this] Cons.prems(3) obtain qs c2 where
    "run Execute ss c1 = Some (map Inr qs, c2)" "spec_run db_step (db_abs c1) ss (map Inr qs) (db_abs c2)" by auto
  with 1(1,4) show ?case by (intro exI [of _ "q # qs"] exI [of _ c2]) auto
qed

definition engine_texts :: "string list" where
  "engine_texts = [''CREATE TABLE users (id INTEGER, is_active BOOLEAN);'', ''INSERT INTO users VALUES (42, true);'',
     ''INSERT INTO users VALUES (99, false);'', ''SELECT * FROM users;'', ''DELETE FROM users WHERE id = 42;'',
     ''SELECT * FROM users;'', ''DELETE FROM users WHERE id = 999;'', ''DELETE FROM users WHERE nonexistent = 1;'',
     ''DELETE FROM users;'', ''SELECT * FROM users;'']"

definition engine_stmts :: "Statement list" where
  "engine_stmts = [CreateTableStatement ''users'' test_cols, InsertStatement ''users'' [''42'', ''true''],
     InsertStatement ''users'' [''99'', ''false''], SelectStatement ''users'', DeleteStatement ''users'' ''id'' ''42'',
     SelectStatement ''users'', DeleteStatement ''users'' ''id'' ''999'', DeleteStatement ''users'' ''nonexistent'' ''1'',
     DeleteStatement ''users'' [] [], SelectStatement ''users'']"

text \<open>The table \<^verbatim>\<open>users\<close> with given rows, and what the statements make of it.\<close>

definition users :: "string list multiset \<Rightarrow> database" where
  "users R = [''users'' \<mapsto> (test_cols, R)]"

abbreviation row42 :: "string list" where
  "row42 \<equiv> [''42'', ''true'']"

abbreviation row99 :: "string list" where
  "row99 \<equiv> [''99'', ''false'']"

lemma engine_facts:
  "parse_row test_cols row42 = Inr row42" "parse_row test_cols row99 = Inr row99"
  "column_at test_cols ''id'' = Some 0" "column_at test_cols ''nonexistent'' = None"
  unfolding test_cols_def by code_simp+

lemma engine_hits:
  "row_hit test_cols ''id'' val (x # row) \<longleftrightarrow> x = val" "row_hit test_cols [] val row"
  by (simp_all add: row_hit_def engine_facts)

lemma engine_steps:
  "db_step Map.empty (CreateTableStatement ''users'' test_cols) (Inr q) d \<Longrightarrow> success q \<and> d = users {#}"
  "db_step (users {#}) (InsertStatement ''users'' row42) (Inr q) d \<Longrightarrow> success q \<and> d = users {#row42#}"
  "db_step (users {#row42#}) (InsertStatement ''users'' row99) (Inr q) d \<Longrightarrow> success q \<and> d = users {#row42, row99#}"
  "db_step (users R) (SelectStatement ''users'') (Inr q) d \<Longrightarrow> success q \<and> mset (rows q) = R \<and> d = users R"
  "db_step (users {#row42, row99#}) (DeleteStatement ''users'' ''id'' ''42'') (Inr q) d \<Longrightarrow>
    success q \<and> message q = ''1 row(s) deleted.'' \<and> d = users {#row99#}"
  "db_step (users {#row99#}) (DeleteStatement ''users'' ''id'' ''999'') (Inr q) d \<Longrightarrow>
    success q \<and> message q = ''0 row(s) deleted.'' \<and> d = users {#row99#}"
  "db_step (users {#row99#}) (DeleteStatement ''users'' ''nonexistent'' ''1'') (Inr q) d \<Longrightarrow> \<not> success q \<and> d = users {#row99#}"
  "db_step (users {#row99#}) (DeleteStatement ''users'' [] []) (Inr q) d \<Longrightarrow>
    success q \<and> message q = ''1 row(s) deleted.'' \<and> d = users {#}"
proof -
  have n: "to_string 1 = ''1''" "to_string 0 = ''0''" by code_simp+
  note s = users_def engine_facts engine_hits test_cols_good n add_mset_commute
  show "db_step Map.empty (CreateTableStatement ''users'' test_cols) (Inr q) d \<Longrightarrow> success q \<and> d = users {#}"
    by (auto simp: s elim!: db_step.cases)
  show "db_step (users {#}) (InsertStatement ''users'' row42) (Inr q) d \<Longrightarrow> success q \<and> d = users {#row42#}"
    by (auto simp: s elim!: db_step.cases)
  show "db_step (users {#row42#}) (InsertStatement ''users'' row99) (Inr q) d \<Longrightarrow> success q \<and> d = users {#row42, row99#}"
    by (auto simp: s elim!: db_step.cases)
  show "db_step (users R) (SelectStatement ''users'') (Inr q) d \<Longrightarrow> success q \<and> mset (rows q) = R \<and> d = users R"
    by (auto simp: s elim!: db_step.cases)
  show "db_step (users {#row42, row99#}) (DeleteStatement ''users'' ''id'' ''42'') (Inr q) d \<Longrightarrow>
    success q \<and> message q = ''1 row(s) deleted.'' \<and> d = users {#row99#}"
    by (auto simp: s elim!: db_step.cases)
  show "db_step (users {#row99#}) (DeleteStatement ''users'' ''id'' ''999'') (Inr q) d \<Longrightarrow>
    success q \<and> message q = ''0 row(s) deleted.'' \<and> d = users {#row99#}"
    by (auto simp: s elim!: db_step.cases)
  show "db_step (users {#row99#}) (DeleteStatement ''users'' ''nonexistent'' ''1'') (Inr q) d \<Longrightarrow> \<not> success q \<and> d = users {#row99#}"
    by (auto simp: s elim!: db_step.cases)
  show "db_step (users {#row99#}) (DeleteStatement ''users'' [] []) (Inr q) d \<Longrightarrow>
    success q \<and> message q = ''1 row(s) deleted.'' \<and> d = users {#}"
    by (auto simp: s elim!: db_step.cases)
qed

lemma engine_contract: "stmts_ok Map.empty engine_stmts"
proof -
  have "small_columns test_cols" by (simp add: small_columns_def test_cols_def storable_column_def good_column_def new_Column_def)
  then show ?thesis by (simp add: engine_stmts_def stmt_ok_def engine_facts engine_hits test_cols_good)
qed

text \<open>The order of the two rows.\<close>

lemma engine_order:
  assumes "visits_all e" and "run Execute engine_stmts (new_Catalog e fs) = Some (map Inr qs, c)"
  shows "rows (qs ! 3) = [row42, row99]"
proof -
  have s: "small_columns test_cols" by (simp add: small_columns_def test_cols_def storable_column_def good_column_def new_Column_def)
  have n: "db_abs (new_Catalog e fs) ''users'' = None" "length ''users'' < 2 ^ 32" "(0 :: nat) < 2 ^ 19"
    by (simp_all add: db_inv_new(2))
  from filled_create [OF db_inv_new(1) [OF assms(1)] within_new n(3,1,2) s] obtain q0 c0 where
    0: "Execute (CreateTableStatement ''users'' test_cols) (new_Catalog e fs) = Some (Inr q0, c0)" "db_inv c0"
      "capacity (Suc 0) c0" "filled c0 ''users'' test_cols []" by blast
  have p: "map (parse_row test_cols) [row42, row99] = map Inr [row42, row99]" by (simp add: engine_facts)
  from filled_inserts [OF 0(2,3) _ 0(4) test_cols_good(3) _ p] obtain qs1 c1 where
    1: "run Execute (map (InsertStatement ''users'') [row42, row99]) c0 = Some (map Inr qs1, c1)" "db_inv c1"
      "filled c1 ''users'' test_cols [row42, row99]" by (auto simp: test_cols_good)
  from filled_select [OF 1(2,3)] obtain q c2 where 2: "Execute (SelectStatement ''users'') c1 = Some (Inr q, c2)" "rows q = [row42, row99]"
    by auto
  define rest where "rest = drop 4 engine_stmts"
  define ins where "ins = map (InsertStatement ''users'') [row42, row99]"
  have e: "engine_stmts = CreateTableStatement ''users'' test_cols # ins @ SelectStatement ''users'' # rest"
    by (simp add: rest_def ins_def engine_stmts_def)
  have l: "length qs1 = 2" using run_length [OF 1(1)] by simp
  from assms(2) have "\<exists>rs :: (exn + QueryResult) list. Inr q0 # map Inr qs1 @ Inr q # rs = map Inr qs"
    unfolding e by (auto simp: 0(1) run_append 1(1) [folded ins_def] 2(1) split: bind_splits)
  then obtain rs where "map Inr qs = (Inr q0 # map Inr qs1 @ Inr q # rs :: (exn + QueryResult) list)" by metis
  then have "map Inr qs ! 3 = (Inr q :: exn + QueryResult)" "3 < length qs" using l by (auto simp: nth_append dest: arg_cong [of _ _ length])
  with 2(2) show ?thesis by simp
qed

lemma TestQueryEngineClass:
  assumes "visits_all e"
  shows "map Parse engine_texts = map Some engine_stmts"
    and "\<exists>qs c. run Execute engine_stmts (new_Catalog e fs) = Some (map Inr qs, c) \<and>
      map success qs = [True, True, True, True, True, True, True, False, True, True] \<and>
      rows (qs ! 3) = [row42, row99] \<and> message (qs ! 4) = ''1 row(s) deleted.'' \<and> rows (qs ! 5) = [row99] \<and>
      message (qs ! 6) = ''0 row(s) deleted.'' \<and> message (qs ! 8) = ''1 row(s) deleted.'' \<and> rows (qs ! 9) = []"
proof -
  show "map Parse engine_texts = map Some engine_stmts"
    unfolding engine_texts_def engine_stmts_def test_cols_def by code_simp
  have "0 + length engine_stmts \<le> 2 ^ 19" by (simp add: engine_stmts_def)
  from run_statements [OF db_inv_new(1) [OF assms] within_new this, unfolded db_inv_new(2), OF engine_contract] obtain qs c where
    r: "run Execute engine_stmts (new_Catalog e fs) = Some (map Inr qs, c)"
      "spec_run db_step Map.empty engine_stmts (map Inr qs) (db_abs c)"
    by blast
  have "length qs = 10" using spec_run_length [OF r(2)] by (simp add: engine_stmts_def)
  then obtain q0 q1 q2 q3 q4 q5 q6 q7 q8 q9 where qs: "qs = [q0, q1, q2, q3, q4, q5, q6, q7, q8, q9]"
    by (auto simp: length_Suc_conv eval_nat_numeral)
  from r(2) have "success q0 \<and> success q1 \<and> success q2 \<and> success q3 \<and> success q4 \<and> success q5 \<and> success q6 \<and>
      \<not> success q7 \<and> success q8 \<and> success q9 \<and> mset (rows q3) = {#row42, row99#} \<and> message q4 = ''1 row(s) deleted.'' \<and>
      mset (rows q5) = {#row99#} \<and> message q6 = ''0 row(s) deleted.'' \<and> message q8 = ''1 row(s) deleted.'' \<and> mset (rows q9) = {#}"
    unfolding qs engine_stmts_def list.map spec_run_simps
    by (auto dest!: engine_steps)
  with r(1) engine_order [OF assms r(1)] show "\<exists>qs c. run Execute engine_stmts (new_Catalog e fs) = Some (map Inr qs, c) \<and>
      map success qs = [True, True, True, True, True, True, True, False, True, True] \<and>
      rows (qs ! 3) = [row42, row99] \<and> message (qs ! 4) = ''1 row(s) deleted.'' \<and> rows (qs ! 5) = [row99] \<and>
      message (qs ! 6) = ''0 row(s) deleted.'' \<and> message (qs ! 8) = ''1 row(s) deleted.'' \<and> rows (qs ! 9) = []"
    by (intro exI [of _ qs] exI [of _ c]) (auto simp: qs)
qed

end
