(* ===== verification/Spec2Isabelle.thy ===== *)
theory Spec2Isabelle
  imports Page_Overlap Pool_Properties Record_Properties Type_Properties Catalog_Properties
    Database_Properties Session_Properties Error_Properties Crash_Properties Server_Properties
    Server_Sockets History_Properties Repo_Tests
begin

text \<open>
  \<^bold>\<open>pragmaticDB: a relational database server, from slotted pages to client sessions.\<close>

  The program is a single-threaded SQL server. A client line is parsed to a statement, the executor
  runs it against the catalog, the catalog owns one table manager per table, a table is a heap file of
  slotted pages behind a record manager, and pages reach the table's file through a buffer pool with
  LRU replacement. \<^verbatim>\<open>COMMIT\<close> flushes the pools and writes \<^verbatim>\<open>data/catalog.db\<close>; at start-up the catalog
  is read back and tables are reopened over their files.

  \<^bold>\<open>Conventions.\<close> A class is a record, a method a function from its state to its result and the state it
  leaves. The outer option of a result is \<^term>\<open>None\<close> for undefined behaviour: an access through a
  computed address that leaves its object, a read of a vector out of range, a signed overflow. So a
  theorem that an operation returns \<^term>\<open>Some\<close> says that it is memory safe. Exceptions are left values
  (\<^verbatim>\<open>exn + 'a\<close>). \<^verbatim>\<open>uint16_t\<close> and \<^verbatim>\<open>uint32_t\<close> are words, a stored integer is little-endian bytes. Loops are
  structural recursion or have a termination proof; the iterator loop of the executor is a
  \<^verbatim>\<open>partial_function (option)\<close>, and \<open>table_scan_visits_each_once\<close> is the proof that it returns. No fuel is used.

  \<^bold>\<open>Theories and sources\<close> (under \<^verbatim>\<open>src/\<close> and \<^verbatim>\<open>include/\<close>):
  \<^item> \<open>DB_Prelude\<close>: byte lists, checked accesses, little-endian integers, 16-bit arithmetic.
  \<^item> \<open>Page_Types\<close> (\<^verbatim>\<open>ds/\<close>), \<open>Page_Data\<close> (\<^verbatim>\<open>page_data_manager\<close>): the page layout and its operations; \<open>Page_Records\<close>,
    \<open>Page_Compaction\<close>, \<open>Slotted_Page\<close>: the page invariant, the records of a page, compaction, and the
    contract of a page as a locale; \<open>Page_Overlap\<close>: compaction of a page on which a record has grown.
  \<^item> \<open>Disk_Manager\<close>, \<open>Buffer_Pool\<close>, \<open>Pool_Protocol\<close>, \<open>Pool_Flush\<close>, \<open>Flush_Order\<close>: the file, the pool, what a client that brackets
    its accesses may rely on, flushing and restart.
  \<^item> \<open>Record_Manager\<close>, \<open>Record_Heap\<close>, \<open>Record_Update\<close>, \<open>Record_Store\<close> (\<^verbatim>\<open>record_manager\<close>): the operations, their effect on
    the heap (page ids to lists of records), and the refinement of a finite map; \<open>Insert_Order\<close>: when the heap
    grows, and where a record goes while no page before the last has room. \<open>Simulation\<close> is the
    locale of such refinements, interpreted for the pool, the record manager and the executor.
  \<^item> \<open>Value_Types\<close>, \<open>Schema_Tuple\<close> (\<^verbatim>\<open>type/\<close>, \<^verbatim>\<open>factory/\<close>, \<^verbatim>\<open>catalog/schema\<close>, \<^verbatim>\<open>catalog/column\<close>): values, offsets, tuples.
  \<^item> \<open>Table_Manager\<close>, \<open>Table_Scan\<close>, \<open>File_Names\<close> (\<^verbatim>\<open>table_manager\<close>, \<^verbatim>\<open>utils/table_iterator\<close>): tables, iterators, scans.
  \<^item> \<open>Catalog_File\<close>, \<open>Catalog\<close>, \<open>Catalog_State\<close>, \<open>Catalog_Load\<close>, \<open>Catalog_Commit\<close> (\<^verbatim>\<open>catalog/catalog\<close>): the byte format as
    codecs (a locale with five interpretations), the operations, what they do to the set of tables,
    and what a restart restores.
  \<^item> \<open>Parser\<close>, \<open>Parser_Facts\<close>, \<open>Parser_Bounds\<close> (\<^verbatim>\<open>query/parser\<close>): string streams, the parser, the texts
    \<open>accepted_text\<close> that it reads as statements, and the size of the statement that a line can give; \<open>Parser_Lines\<close>: of a text with
    several lines only the first is parsed; \<open>Sql_Grammar\<close>: the syntax \<open>sql_text\<close> that \<^verbatim>\<open>docs/sql-reference.md\<close>
    documents, and where the parser agrees with it.
  \<^item> \<open>Executor\<close>, \<open>Row_Text\<close>, \<open>Executor_Facts\<close> (\<^verbatim>\<open>query/executor\<close>): the statements and what their loops compute;
    \<open>Database\<close>, \<open>Database_Refinement\<close>: the relational specification \<open>db_step\<close> and the proof that the executor
    refines it; \<open>Database_Capacity\<close>: how far one statement can move the state towards the 32-bit limits;
    \<open>Row_Order\<close>: the order in which a query prints the rows of a table that was only inserted into; \<open>Row_Origin\<close>: which
    statements the rows and exceptions of a run go back to.
  \<^item> \<open>Tcp_Server\<close> (\<^verbatim>\<open>network/tcp_server\<close>, \<^verbatim>\<open>main\<close>): sessions, the accept loop, start-up; \<open>Server_Sockets\<close>: the
    socket calls with their descriptors, and what stays open; \<open>Server_History\<close>: what the
    server does over many sessions and restarts, as a relation between lines and replies.
  \<^item> \<open>Bench_Client\<close>, \<open>Bench_Report\<close> (\<^verbatim>\<open>tools/bench\<close>): the client and the report it prints; \<open>Doubles\<close>: the binary64
    arithmetic and the decimal text that the report needs; \<open>Bench_Run\<close>: the client's run against the modelled server.
  \<^item> \<open>Example_Database\<close> and the theories \<open>*_Properties\<close>: a concrete state and the properties. \<open>Repo_Tests\<close>: the
    assertions of the repository's own tests (\<^verbatim>\<open>tests/\<close>) hold of the model.

  \<^bold>\<open>What is shown.\<close> Pages keep every record through insertion, deletion and compaction. The pool is
  invisible to a client that unpins what it pins. The record manager is a finite map. Tuples hold their
  values. A scan visits every record once. The executor is a relational database (tables as multisets of
  printed rows); rows inserted into a new table are printed in the order of their insertion; every printed row goes back to
  an \<^verbatim>\<open>INSERT\<close>, and the only exceptions that leave the executor are those of \<^verbatim>\<open>std::stoi\<close>. A committed database is
  served unchanged after a restart. The parser reads the documented syntax but for \<^verbatim>\<open>COMMIT;\<close>, and a second line in the
  same read is lost. Composed, from text to text: for clients that send one admissible line per read, and processes
  that end in a \<^verbatim>\<open>COMMIT\<close>, the replies are those of one relational database, and each query of a benchmark run gets exactly the server's answer to it, and the report shows the measured times to
  the precision it prints. The remaining properties are about
  limits and errors: what is refused, what throws, and the cases in which the program does not do what it means to.

  \<^bold>\<open>Environment.\<close> What the program leaves to the C++ library and the system is a parameter, the record \<open>Environment\<close>:
  in which order a loop visits a hash map (\<open>hash_order\<close>; assumed only that each entry is visited once, \<open>visits_all\<close>),
  and which files can be opened for writing (\<open>opens_to_write\<close>). The one other loop over a hash map, in
  \<open>FlushAllPages\<close>, does not depend on its order (\<open>Flush_Order\<close>). The clock readings of a benchmark run are a parameter of
  its report (\<open>Timings\<close>), as is the text that the library prints for a NaN.

  \<^bold>\<open>Bounds.\<close> Records have 1 to 4084 bytes, page ids are below 524288 (a 2 GiB table file, where the 32-bit offset
  overflows), slot counts and offsets are 16-bit words, tables have fewer than \<^verbatim>\<open>2^30\<close> columns and there are fewer
  than \<^verbatim>\<open>2^32 - 1\<close> tables. They are hypotheses of the properties that need them (\<open>db_adm\<close>, \<open>rm_adm\<close>, \<open>page_addr\<close>).
  For a server that starts on an empty directory they need not be assumed of the states: a line has at most 1023
  characters and adds at most one table and one page, so \<open>server_history_as_database\<close> only bounds the number of
  lines, by \<^verbatim>\<open>2^19\<close>.

  \<^bold>\<open>Not modelled.\<close> The server's console messages; what the system does in a socket call, whose result is a parameter (the record
  \<open>Sockets\<close>, and the pieces that the benchmark's reads deliver); failures of the file system other than that of opening
  \<^verbatim>\<open>catalog.db\<close> (a directory that cannot be made, a table file that cannot be written, a torn write); the \<^verbatim>\<open>test()\<close>
  methods and the test runner, which only print.
\<close>

end
